(* ===== verification/Prelude.thy ===== *)
theory Prelude
  imports Main "HOL-Library.Word" "HOL-Library.Monad_Syntax"
begin

text \<open>
  Shared vocabulary of the development: the machine integer types of the kernel, Rust's checked,
  saturating and wrapping arithmetic on them, power-of-two alignment, and the generic facts on
  words, options and lists that the component theories use through the collections declared here.

  A Rust function that can panic (overflow check of the \<^verbatim>\<open>dev\<close> profile that the Makefile builds,
  slice index out of range, \<^verbatim>\<open>unwrap\<close> on \<^verbatim>\<open>None\<close>) or that may not return is modelled by a function into
  \<open>'a option\<close>, where \<open>None\<close> is the panic; a \<^verbatim>\<open>Result\<close> is a value of a sum type inside it, \<open>Inl\<close> the error.
\<close>

unbundle bit_operations_syntax

type_synonym u8 = "8 word"
type_synonym u16 = "16 word"
type_synonym u32 = "32 word"
type_synonym u64 = "64 word"
type_synonym i32 = "32 word"
type_synonym i64 = "64 word"
type_synonym usize = "64 word"

named_theorems rust_arith \<open>facts that decide checked and saturating arithmetic\<close>
named_theorems bind_intros \<open>rewriting of panicking do-blocks\<close>

lemmas [bind_intros] = Option.bind_eq_Some_conv Option.bind_eq_None_conv

section \<open>Checked and saturating arithmetic\<close>

definition checked_add :: "'a::len word \<Rightarrow> 'a word \<Rightarrow> 'a word option" where
  "checked_add a b = (if unat a + unat b < 2 ^ LENGTH('a) then Some (a + b) else None)"

definition checked_sub :: "'a::len word \<Rightarrow> 'a word \<Rightarrow> 'a word option" where
  "checked_sub a b = (if b \<le> a then Some (a - b) else None)"

definition checked_mul :: "'a::len word \<Rightarrow> 'a word \<Rightarrow> 'a word option" where
  "checked_mul a b = (if unat a * unat b < 2 ^ LENGTH('a) then Some (a * b) else None)"

definition saturating_add :: "'a::len word \<Rightarrow> 'a word \<Rightarrow> 'a word" where
  "saturating_add a b = (if unat a + unat b < 2 ^ LENGTH('a) then a + b else - 1)"

lemma unat_add_no_wrap:
  fixes a b :: "'a::len word"
  assumes "unat a + unat b < 2 ^ LENGTH('a)"
  shows "unat (a + b) = unat a + unat b"
  using assms by (simp add: unat_word_ariths)

lemma checked_add_Some [rust_arith]:
  "checked_add a b = Some c \<longleftrightarrow> unat a + unat b < 2 ^ LENGTH('a::len) \<and> c = (a + b :: 'a word)"
  by (auto simp: checked_add_def)

lemma checked_add_unat:
  "checked_add a b = Some (c :: 'a::len word) \<Longrightarrow> unat c = unat a + unat b"
  by (auto simp: checked_add_Some unat_add_no_wrap)

lemma checked_sub_Some [rust_arith]:
  "checked_sub a b = Some c \<longleftrightarrow> b \<le> a \<and> c = (a - b :: 'a::len word)"
  by (auto simp: checked_sub_def)

lemma checked_sub_unat:
  "checked_sub a b = Some (c :: 'a::len word) \<Longrightarrow> unat c = unat a - unat b"
  by (auto simp: checked_sub_Some unat_sub)

lemma unat_max_word: "unat (- 1 :: 'a::len word) = 2 ^ LENGTH('a) - 1"
  by (simp add: unsigned_minus_1_eq_mask mask_eq_exp_minus_1)

lemma unat_le_max: "unat (a :: 'a::len word) \<le> 2 ^ LENGTH('a) - 1"
proof -
  have "unat a < 2 ^ LENGTH('a)" by (rule unsigned_less)
  then show ?thesis by linarith
qed

lemma checked_add_None [rust_arith]:
  "checked_add a b = None \<longleftrightarrow> 2 ^ LENGTH('a::len) \<le> unat a + unat (b :: 'a word)"
  by (simp add: checked_add_def not_less)

lemma unat_saturating_add:
  fixes a b :: "'a::len word"
  shows "unat (saturating_add a b) = min (unat a + unat b) (2 ^ LENGTH('a) - 1)"
proof (cases "unat a + unat b < 2 ^ LENGTH('a)")
  case True
  then show ?thesis by (simp add: saturating_add_def unat_add_no_wrap)
next
  case False
  then show ?thesis by (simp add: saturating_add_def unat_max_word)
qed

lemma saturating_add_ge: "a \<le> saturating_add a (b :: 'a::len word)"
  using unat_le_max [of a] by (simp add: word_le_nat_alt unat_saturating_add)

lemma saturating_add_one_gt: "a \<noteq> - 1 \<Longrightarrow> a < saturating_add a (1 :: 'a::len word)"
proof -
  assume "a \<noteq> - 1"
  then have "unat a \<noteq> unat (- 1 :: 'a word)" by (simp only: word_unat_eq_iff not_False_eq_True)
  with unat_le_max [of a] have "unat a < 2 ^ LENGTH('a) - 1" by (simp add: unat_max_word)
  then show ?thesis by (simp add: word_less_nat_alt unat_saturating_add)
qed

section \<open>Intervals of page numbers\<close>

lemma interval_split:
  fixes c n e :: nat
  assumes "c + n \<le> e" and "{c ..< e} \<inter> P = {}"
  shows "{c ..< c + n} \<inter> P = {}" and "{c + n ..< e} \<inter> ({c ..< c + n} \<union> P) = {}"
    and "{c + n ..< e} \<union> ({c ..< c + n} \<union> P) = {c ..< e} \<union> P"
proof -
  have sub: "{c ..< c + n} \<subseteq> {c ..< e}" "{c + n ..< e} \<subseteq> {c ..< e}" using assms(1) by auto
  then show "{c ..< c + n} \<inter> P = {}" using assms(2) by blast
  have "{c + n ..< e} \<inter> {c ..< c + n} = {}" by auto
  then show "{c + n ..< e} \<inter> ({c ..< c + n} \<union> P) = {}" using assms(2) sub(2) by blast
  have "{c ..< e} = {c + n ..< e} \<union> {c ..< c + n}" using assms(1) by auto
  then show "{c + n ..< e} \<union> ({c ..< c + n} \<union> P) = {c ..< e} \<union> P" by blast
qed

lemma interval_hole:
  fixes s e ks ke :: nat
  assumes "ks \<le> ke"
  shows "{s ..< e} - {ks ..< ke} = {max s ke ..< e} \<union> {s ..< min e ks}"
  using assms by (intro set_eqI) (simp, linarith)

lemma unat_min: "unat (min a b) = min (unat a) (unat (b :: 'a::len word))"
  by (simp add: min_def word_le_nat_alt)

lemma unat_max: "unat (max a b) = max (unat a) (unat (b :: 'a::len word))"
  by (simp add: max_def word_le_nat_alt)

lemma min_div_nat: "min a b div n = min (a div n) (b div (n :: nat))"
  using min_of_mono [of "\<lambda>x. x div n" a b] by (simp add: mono_def div_le_mono)

lemma max_div_nat: "max a b div n = max (a div n) (b div (n :: nat))"
  using max_of_mono [of "\<lambda>x. x div n" a b] by (simp add: mono_def div_le_mono)

lemma div_eq_interval:
  fixes n p q :: nat
  assumes "0 < n"
  shows "p div n = q \<longleftrightarrow> n * q \<le> p \<and> p < n * q + n"
proof
  assume "p div n = q"
  then have "n * q + p mod n = p" using mult_div_mod_eq [of n p] by simp
  moreover have "p mod n < n" using assms by simp
  ultimately show "n * q \<le> p \<and> p < n * q + n" by linarith
next
  assume "n * q \<le> p \<and> p < n * q + n"
  then show "p div n = q" by (intro div_nat_eqI) (simp_all add: mult.commute)
qed

section \<open>Power-of-two masks on words\<close>

lemma unat_of_nat_small: "n < 2 ^ LENGTH('a::len) \<Longrightarrow> unat (of_nat n :: 'a word) = n"
  by (simp add: unsigned_of_nat take_bit_nat_eq_self_iff)

lemma unat_pow2: "m < LENGTH('a::len) \<Longrightarrow> unat (2 ^ m :: 'a word) = 2 ^ m"
  by (simp add: unsigned_of_nat [of "2 ^ m", simplified] take_bit_eq_mod)

lemma xor_cancel_right [simp]: "(a XOR b) XOR b = (a :: 'a::len word)"
  by (simp add: xor.assoc)

lemma unat_xor_pow2:
  fixes a :: "'a::len word"
  assumes "m < LENGTH('a)"
  shows "unat (a XOR 2 ^ m) = flip_bit m (unat a)"
proof -
  have "unat (a XOR 2 ^ m) = unat a XOR unat (2 ^ m :: 'a word)"
    by (rule unsigned_xor_eq)
  also have "\<dots> = unat a XOR 2 ^ m" using assms by (simp add: unat_pow2)
  also have "\<dots> = flip_bit m (unat a)" by (simp add: flip_bit_eq_xor push_bit_eq_mult)
  finally show ?thesis .
qed

lemma flip_bit_nat:
  "flip_bit m (x :: nat) = (if odd (x div 2 ^ m) then x - 2 ^ m else x + 2 ^ m)"
proof (cases "bit x m")
  case True
  have "x = set_bit m (unset_bit m x)"
    by (rule bit_eqI) (use True in \<open>auto simp: bit_simps\<close>)
  also have "\<dots> = unset_bit m x + 2 ^ m" by (simp add: set_bit_eq bit_simps)
  finally have "unset_bit m x = x - 2 ^ m" by simp
  with True show ?thesis by (simp add: flip_bit_eq_if bit_iff_odd)
next
  case False
  then show ?thesis by (simp add: flip_bit_eq_if set_bit_eq bit_iff_odd)
qed

lemma unat_and_mask: "unat (a AND mask n :: 'a::len word) = unat a mod 2 ^ n"
proof -
  have "unat (a AND mask n) = take_bit n (unat a)" by (simp only: take_bit_eq_mask [symmetric] unsigned_take_bit_eq)
  then show ?thesis by (simp only: take_bit_eq_mod)
qed

lemma and_not_mask_word: "a AND NOT (mask n) = push_bit n (drop_bit n (a :: 'a::len word))"
  by (rule bit_word_eqI) (auto simp: bit_simps)

lemma unat_and_not_mask: "unat (a AND NOT (mask n) :: 'a::len word) = unat a - unat a mod 2 ^ n"
proof -
  have "unat (a AND NOT (mask n)) = take_bit LENGTH('a) (push_bit n (drop_bit n (unat a)))"
    by (simp only: and_not_mask_word unsigned_push_bit_eq unat_drop_bit_eq)
  also have "push_bit n (drop_bit n (unat a)) = unat a - unat a mod 2 ^ n"
    by (simp add: push_bit_eq_mult drop_bit_eq_div minus_mod_eq_mult_div mult.commute)
  also have "take_bit LENGTH('a) (unat a - unat a mod 2 ^ n) = unat a - unat a mod 2 ^ n"
    using unsigned_less [of a, where 'a = nat] by (simp add: take_bit_nat_eq_self_iff less_imp_diff_less)
  finally show ?thesis .
qed

section \<open>Linked lists in memory\<close>

text \<open>\<open>chain m h xs\<close>: following \<open>next\<close> pointers from \<open>h\<close> visits exactly the addresses \<open>xs\<close> and ends.\<close>

primrec chain :: "(u64 \<Rightarrow> u64 option) \<Rightarrow> u64 option \<Rightarrow> u64 list \<Rightarrow> bool" where
  "chain m h [] \<longleftrightarrow> h = None"
| "chain m h (x # xs) \<longleftrightarrow> h = Some x \<and> chain m (m x) xs"

lemma chain_None [simp]: "chain m None xs \<longleftrightarrow> xs = []"
  by (cases xs) auto

lemma chain_Some: "chain m (Some a) xs \<longleftrightarrow> (\<exists>ys. xs = a # ys \<and> chain m (m a) ys)"
  by (cases xs) auto

lemma chain_unique: "chain m h xs \<Longrightarrow> chain m h ys \<Longrightarrow> xs = ys"
  by (induction xs arbitrary: h ys) (auto simp: chain_Some)

lemma chain_upd [simp]: "a \<notin> set xs \<Longrightarrow> chain (m(a := v)) h xs = chain m h xs"
  by (induction xs arbitrary: h) auto

lemma chain_suffix: "chain m h (xs @ a # ys) \<Longrightarrow> chain m (m a) ys"
  by (induction xs arbitrary: h) auto

lemma chain_distinct: "chain m h xs \<Longrightarrow> distinct xs"
proof (induction xs arbitrary: h)
  case (Cons x xs)
  have "x \<notin> set xs"
  proof
    assume "x \<in> set xs"
    then obtain us vs where "xs = us @ x # vs" by (auto simp: in_set_conv_decomp)
    with Cons.prems have "chain m (m x) (us @ x # vs)" and "chain m (m x) vs"
      by (auto dest: chain_suffix)
    then have "us @ x # vs = vs" by (rule chain_unique)
    then show False by (metis append_self_conv2 length_append length_Cons less_add_Suc2 less_not_refl)
  qed
  with Cons show ?case by auto
qed simp

lemma chain_unlink:
  assumes "chain m h (us @ b # vs)" and "us \<noteq> []"
  shows "chain (m(last us := m b)) h (us @ vs)"
  using assms chain_distinct [OF assms(1)]
proof (induction us arbitrary: h)
  case (Cons u us)
  show ?case
  proof (cases "us = []")
    case True
    with Cons.prems show ?thesis by (auto simp del: fun_upd_apply simp add: fun_upd_same)
  next
    case False
    with Cons.prems have "u \<noteq> last us" by auto
    with Cons False show ?thesis by (auto simp del: fun_upd_apply simp add: fun_upd_other)
  qed
qed simp

end
