(* ===== verification/Physical.thy ===== *)
theory Physical
  imports Prelude
begin

text \<open>
  The physical page allocator (\<^verbatim>\<open>hammam/src/mm/physical.rs\<close>): a binary buddy allocator whose free lists are
  threaded through the free pages themselves. The headers written into free memory are the field
  \<open>next_of\<close>, a store from block addresses to the \<^verbatim>\<open>next\<close> pointer found there. The theory proves the
  pointer program against the set of free blocks it stands for: which blocks are free, that they
  are aligned and disjoint, that the counter counts their pages, that splitting and merging keep
  all of this, and that no page is ever handed out twice.
\<close>

section \<open>Data and operations\<close>

definition MAX_ORDER :: nat where
  "MAX_ORDER = 11"

definition PAGE_SIZE :: u64 where
  "PAGE_SIZE = 4096"

datatype phys_frame = PhysFrame (start_address: u64)

datatype alloc_error = OutOfMemory | InvalidOrder

datatype memory_kind = Usable | Reserved | UefiBootServices | UefiRuntimeServices | Kernel
  | Bootloader | AcpiNvs | AcpiReclaimable | Mmio

record memory_region =
  mr_start :: u64
  mr_end :: u64
  mr_kind :: memory_kind

record buddy_allocator =
  free_lists :: "u64 option list"
  total_frames :: usize
  free_frames :: usize
  next_of :: "u64 \<Rightarrow> u64 option"

text \<open>\<^verbatim>\<open>BuddyAllocator::new\<close>; the argument is what physical memory holds before the kernel writes to it.\<close>

definition buddy_new :: "(u64 \<Rightarrow> u64 option) \<Rightarrow> buddy_allocator" where
  "buddy_new memory = \<lparr>free_lists = replicate MAX_ORDER None, total_frames = 0, free_frames = 0,
     next_of = memory\<rparr>"

text \<open>\<^verbatim>\<open>(1u64 << order) * PAGE_SIZE as u64\<close>\<close>

definition block_size :: "nat \<Rightarrow> u64" where
  "block_size order = push_bit order 1 * PAGE_SIZE"

text \<open>
  \<^verbatim>\<open>remove_from_list\<close> walks with \<^verbatim>\<open>current: &mut Option<*mut FreeBlock>\<close>, which points either to a list head
  or to the \<^verbatim>\<open>next\<close> field of a node. On a cyclic list the walk would not end, hence the option.
\<close>

datatype link = Head nat | Next u64

fun read_link :: "buddy_allocator \<Rightarrow> link \<Rightarrow> u64 option" where
  "read_link s (Head k) = free_lists s ! k"
| "read_link s (Next a) = next_of s a"

fun write_link :: "buddy_allocator \<Rightarrow> link \<Rightarrow> u64 option \<Rightarrow> buddy_allocator" where
  "write_link s (Head k) v = s\<lparr>free_lists := (free_lists s)[k := v]\<rparr>"
| "write_link s (Next a) v = s\<lparr>next_of := (next_of s)(a := v)\<rparr>"

partial_function (option) remove_loop ::
  "buddy_allocator \<Rightarrow> link \<Rightarrow> u64 \<Rightarrow> (bool \<times> buddy_allocator) option" where
  "remove_loop s current block_addr =
     (case read_link s current of
        None \<Rightarrow> Some (False, s)
      | Some node_ptr \<Rightarrow>
          if node_ptr = block_addr
          then Some (True, write_link s current (next_of s node_ptr))
          else remove_loop s (Next node_ptr) block_addr)"

definition remove_from_list ::
  "buddy_allocator \<Rightarrow> nat \<Rightarrow> u64 \<Rightarrow> (bool \<times> buddy_allocator) option" where
  "remove_from_list s order block_addr = remove_loop s (Head order) block_addr"

text \<open>Pushing a block: \<^verbatim>\<open>(*ptr).next = free_lists[k]; free_lists[k] = Some(ptr)\<close>.\<close>

definition push_block :: "buddy_allocator \<Rightarrow> nat \<Rightarrow> u64 \<Rightarrow> buddy_allocator" where
  "push_block s k a = s\<lparr>next_of := (next_of s)(a := free_lists s ! k),
     free_lists := (free_lists s)[k := Some a]\<rparr>"

function merge_loop ::
  "buddy_allocator \<Rightarrow> u64 \<Rightarrow> nat \<Rightarrow> (u64 \<times> nat \<times> buddy_allocator) option" where
  "merge_loop s current_addr current_order =
     (if current_order < MAX_ORDER - 1 then
        do {
          let buddy_addr = current_addr XOR block_size current_order;
          (found, s') \<leftarrow> remove_from_list s current_order buddy_addr;
          if found then merge_loop s' (min current_addr buddy_addr) (current_order + 1)
          else Some (current_addr, current_order, s')
        }
      else Some (current_addr, current_order, s))"
  by pat_completeness auto
termination
  by (relation "measure (\<lambda>(s, a, k). MAX_ORDER - k)") auto

declare merge_loop.simps [simp del]

definition deallocate_internal ::
  "buddy_allocator \<Rightarrow> phys_frame \<Rightarrow> nat \<Rightarrow> buddy_allocator option" where
  "deallocate_internal s frame order =
     do {
       (addr, k, s1) \<leftarrow> merge_loop s (start_address frame) order;
       let s2 = push_block s1 k addr;
       n \<leftarrow> checked_add (free_frames s2) (push_bit order 1);
       Some (s2\<lparr>free_frames := n\<rparr>)
     }"

definition deallocate :: "buddy_allocator \<Rightarrow> phys_frame \<Rightarrow> u8 \<Rightarrow> buddy_allocator option" where
  "deallocate s frame order =
     (if MAX_ORDER \<le> unat order then Some s else deallocate_internal s frame (unat order))"

text \<open>The split loop \<^verbatim>\<open>for split_order in (order..current_order).rev()\<close>.\<close>

primrec split_loop :: "buddy_allocator \<Rightarrow> u64 \<Rightarrow> nat \<Rightarrow> nat \<Rightarrow> buddy_allocator option" where
  "split_loop s block_addr order 0 = Some s"
| "split_loop s block_addr order (Suc split_order) =
     (if order \<le> split_order then
        do {
          buddy_addr \<leftarrow> checked_add block_addr (block_size split_order);
          split_loop (push_block s split_order buddy_addr) block_addr order split_order
        }
      else Some s)"

function allocate_from ::
  "buddy_allocator \<Rightarrow> nat \<Rightarrow> nat \<Rightarrow> ((alloc_error + phys_frame) \<times> buddy_allocator) option" where
  "allocate_from s order current_order =
     (if current_order < MAX_ORDER then
        (case free_lists s ! current_order of
           Some block_ptr \<Rightarrow>
             do {
               let s1 = s\<lparr>free_lists := (free_lists s)[current_order := next_of s block_ptr]\<rparr>;
               s2 \<leftarrow> split_loop s1 block_ptr order current_order;
               n \<leftarrow> checked_sub (free_frames s2) (push_bit order 1);
               Some (Inr (PhysFrame block_ptr), s2\<lparr>free_frames := n\<rparr>)
             }
         | None \<Rightarrow> allocate_from s order (current_order + 1))
      else Some (Inl OutOfMemory, s))"
  by pat_completeness auto
termination
  by (relation "measure (\<lambda>(s, k, c). MAX_ORDER - c)") auto

declare allocate_from.simps [simp del]

definition allocate ::
  "buddy_allocator \<Rightarrow> u8 \<Rightarrow> ((alloc_error + phys_frame) \<times> buddy_allocator) option" where
  "allocate s order =
     (if MAX_ORDER \<le> unat order then Some (Inl InvalidOrder, s)
      else allocate_from s (unat order) (unat order))"

text \<open>\<^verbatim>\<open>add_memory_region\<close>: the inner search for an order and the loop over one sub-range.\<close>

primrec pick_order :: "u64 \<Rightarrow> u64 \<Rightarrow> nat \<Rightarrow> nat" where
  "pick_order max_pages current_addr 0 = 0"
| "pick_order max_pages current_addr (Suc order) =
     (if push_bit (Suc order) 1 \<le> max_pages \<and> current_addr mod block_size (Suc order) = 0
      then Suc order else pick_order max_pages current_addr order)"

lemma block_size_eq: "block_size k = 2 ^ (12 + k)"
  by (simp add: block_size_def PAGE_SIZE_def push_bit_eq_mult power_add)

lemma unat_block_size: "k \<le> 10 \<Longrightarrow> unat (block_size k) = 2 ^ (12 + k)"
  unfolding block_size_eq by (rule unat_pow2) simp

lemma pick_order_le: "pick_order m a n \<le> n"
  by (induction n) auto

function add_range_loop :: "buddy_allocator \<Rightarrow> u64 \<Rightarrow> u64 \<Rightarrow> buddy_allocator option" where
  "add_range_loop s current_addr range_end =
     (if current_addr < range_end then
        let max_pages = (range_end - current_addr) div PAGE_SIZE in
        if max_pages = 0 then Some s
        else
          let order = pick_order max_pages current_addr (MAX_ORDER - 1) in
          do {
            s1 \<leftarrow> deallocate_internal s (PhysFrame current_addr) order;
            t \<leftarrow> checked_add (total_frames s1) (push_bit order 1);
            next_addr \<leftarrow> checked_add current_addr (block_size order);
            add_range_loop (s1\<lparr>total_frames := t\<rparr>) next_addr range_end
          }
      else Some s)"
  by pat_completeness auto
termination
proof (relation "measure (\<lambda>(s, a, e). unat e - unat a)", goal_cases)
  case 1
  show ?case by simp
next
  case (2 s current_addr range_end x order s1 t next_addr)
  have "order \<le> 10" using 2(4) pick_order_le [of x current_addr 10] by (simp add: MAX_ORDER_def)
  then have "0 < unat (block_size order)" by (simp add: unat_block_size)
  with 2 show ?case by (auto simp: word_less_nat_alt dest!: checked_add_unat)
qed

declare add_range_loop.simps [simp del]

definition add_range :: "buddy_allocator \<Rightarrow> u64 \<Rightarrow> u64 \<Rightarrow> buddy_allocator option" where
  "add_range s range_start range_end =
     (if range_end \<le> range_start then Some s
      else add_range_loop s (if range_start = 0 then PAGE_SIZE else range_start) range_end)"

text \<open>The linker symbols \<^verbatim>\<open>kernel_phys_start\<close> and \<^verbatim>\<open>kernel_phys_end\<close> are arguments.\<close>

definition add_memory_region ::
  "u64 \<Rightarrow> u64 \<Rightarrow> buddy_allocator \<Rightarrow> u64 \<Rightarrow> u64 \<Rightarrow> buddy_allocator option" where
  "add_memory_region kstart kend s start_addr end_addr =
     do {
       s1 \<leftarrow> add_range s start_addr (min end_addr kstart);
       add_range s1 (max start_addr kend) end_addr
     }"

definition bootstrap ::
  "u64 \<Rightarrow> u64 \<Rightarrow> buddy_allocator \<Rightarrow> u64 \<Rightarrow> u64 \<Rightarrow> buddy_allocator option" where
  "bootstrap kstart kend s start_addr end_addr =
     (if start_addr < end_addr then add_memory_region kstart kend s start_addr end_addr else Some s)"

fun buddy_init ::
  "u64 \<Rightarrow> u64 \<Rightarrow> buddy_allocator \<Rightarrow> memory_region list \<Rightarrow> buddy_allocator option" where
  "buddy_init kstart kend s [] = Some s"
| "buddy_init kstart kend s (region # regions) =
     (if mr_kind region \<noteq> Usable then buddy_init kstart kend s regions
      else do {
        up \<leftarrow> checked_add (mr_start region) PAGE_SIZE;
        let start_addr = (up - 1) AND NOT (PAGE_SIZE - 1);
        let end_addr = mr_end region AND NOT (PAGE_SIZE - 1);
        s' \<leftarrow> (if start_addr < end_addr
               then add_memory_region kstart kend s start_addr end_addr else Some s);
        buddy_init kstart kend s' regions
      })"

section \<open>Geometry of buddy blocks\<close>

text \<open>A block of order \<open>k\<close> at address \<open>a\<close> covers \<open>2 ^ k\<close> page frames, numbered from \<open>a / 4096\<close>.\<close>

definition aligned :: "u64 \<Rightarrow> nat \<Rightarrow> bool" where
  "aligned a k \<longleftrightarrow> 2 ^ (12 + k) dvd unat a"

definition block_pages :: "u64 \<Rightarrow> nat \<Rightarrow> nat set" where
  "block_pages a k = {unat a div 4096 ..< unat a div 4096 + 2 ^ k}"

lemma finite_block_pages [simp]: "finite (block_pages a k)"
  by (simp add: block_pages_def)

lemma card_block_pages [simp]: "card (block_pages a k) = 2 ^ k"
  by (simp add: block_pages_def)

lemma block_pages_nonempty [simp]: "block_pages a k \<noteq> {}"
  by (simp add: block_pages_def)

lemma start_in_block_pages: "unat a div 4096 \<in> block_pages a k"
  by (simp add: block_pages_def)

lemma block_pages_at: "unat a = 4096 * n \<Longrightarrow> block_pages a k = {n ..< n + 2 ^ k}"
  by (simp add: block_pages_def)

lemma alignedE:
  assumes "aligned a k"
  obtains q where "unat a = 4096 * (2 ^ k * q)"
  using assms by (auto simp: aligned_def power_add elim!: dvdE)

lemma aligned_mono: "aligned a k \<Longrightarrow> j \<le> k \<Longrightarrow> aligned a j"
  unfolding aligned_def by (rule dvd_trans [OF le_imp_power_dvd]) auto

lemma unat_buddy:
  assumes "aligned a k" and "k \<le> 10"
  obtains r where
    "unat a = 4096 * (2 ^ k * (2 * r))" "unat (a XOR block_size k) = 4096 * (2 ^ k * (2 * r + 1))"
  | r where
    "unat a = 4096 * (2 ^ k * (2 * r + 1))" "unat (a XOR block_size k) = 4096 * (2 ^ k * (2 * r))"
proof -
  obtain q where q: "unat a = 4096 * (2 ^ k * q)" using assms(1) by (rule alignedE)
  have p: "(2::nat) ^ (12 + k) = 4096 * 2 ^ k" by (simp add: power_add)
  have d: "unat a div (4096 * 2 ^ k) = q" unfolding q by simp
  have b: "unat (a XOR block_size k) = (if odd q then unat a - 4096 * 2 ^ k else unat a + 4096 * 2 ^ k)"
  proof -
    have "12 + k < LENGTH(64)" using assms(2) by simp
    then have "unat (a XOR block_size k) = flip_bit (12 + k) (unat a)"
      unfolding block_size_eq by (rule unat_xor_pow2)
    then show ?thesis by (simp only: flip_bit_nat p d)
  qed
  show thesis
  proof (cases "odd q")
    case True
    then obtain r where "q = 2 * r + 1" by (rule oddE)
    with q b that(2) [of r] show thesis by (simp add: algebra_simps)
  next
    case False
    then obtain r where "q = 2 * r" by (auto elim: evenE)
    with q b that(1) [of r] show thesis by (simp add: algebra_simps)
  qed
qed

lemma buddy_merge:
  assumes "aligned a k" and "k < 10"
  defines "b \<equiv> a XOR block_size k"
  shows "aligned b k" and "block_pages a k \<inter> block_pages b k = {}"
    and "aligned (min a b) (Suc k)"
    and "block_pages (min a b) (Suc k) = block_pages a k \<union> block_pages b k"
    and "b \<noteq> a" and "b XOR block_size k = a"
proof -
  have k: "k \<le> 10" using assms(2) by simp
  show inv: "b XOR block_size k = a" unfolding b_def by simp
  let ?P = "2 ^ k :: nat"
  have "aligned b k \<and> block_pages a k \<inter> block_pages b k = {} \<and> aligned (min a b) (Suc k)
    \<and> block_pages (min a b) (Suc k) = block_pages a k \<union> block_pages b k \<and> b \<noteq> a"
    using assms(1) k
  proof (cases rule: unat_buddy)
    case (1 r)
    have lt: "unat a < unat b" unfolding b_def 1 by simp
    then have m: "min a b = a" by (simp add: min_def word_le_nat_alt)
    have "block_pages a k = {?P * (2 * r) ..< ?P * (2 * r) + ?P}"
      and "block_pages b k = {?P * (2 * r) + ?P ..< ?P * (2 * r) + ?P + ?P}"
      and "block_pages a (Suc k) = {?P * (2 * r) ..< ?P * (2 * r) + ?P + ?P}"
      unfolding b_def block_pages_at [OF 1(1)] block_pages_at [OF 1(2)]
      by (simp_all add: algebra_simps)
    then show ?thesis using 1 lt unfolding m
      by (auto simp: aligned_def b_def power_add mult.assoc)
  next
    case (2 r)
    have lt: "unat b < unat a" unfolding b_def 2 by simp
    then have m: "min a b = b" by (simp add: min_def word_le_nat_alt)
    have "block_pages b k = {?P * (2 * r) ..< ?P * (2 * r) + ?P}"
      and "block_pages a k = {?P * (2 * r) + ?P ..< ?P * (2 * r) + ?P + ?P}"
      and "block_pages b (Suc k) = {?P * (2 * r) ..< ?P * (2 * r) + ?P + ?P}"
      unfolding b_def block_pages_at [OF 2(1)] block_pages_at [OF 2(2)]
      by (simp_all add: algebra_simps)
    then show ?thesis using 2 lt unfolding m
      by (auto simp: aligned_def b_def power_add mult.assoc)
  qed
  then show "aligned b k" "block_pages a k \<inter> block_pages b k = {}" "aligned (min a b) (Suc k)"
    "block_pages (min a b) (Suc k) = block_pages a k \<union> block_pages b k" "b \<noteq> a" by blast+
qed

lemma buddy_split:
  assumes "aligned a (Suc k)" and "k < 10"
  shows "checked_add a (block_size k) = Some (a + block_size k)"
    and "aligned (a + block_size k) k" and "aligned a k"
    and "block_pages a k \<inter> block_pages (a + block_size k) k = {}"
    and "block_pages a (Suc k) = block_pages a k \<union> block_pages (a + block_size k) k"
    and "a + block_size k = a XOR block_size k"
proof -
  let ?P = "2 ^ k :: nat"
  obtain q where q: "unat a = 4096 * (2 ^ Suc k * q)" using assms(1) by (rule alignedE)
  show al: "aligned a k" using assms(1) by (rule aligned_mono) simp
  have x: "unat (a XOR block_size k) = 4096 * (?P * (2 * q + 1))"
    using al less_imp_le [OF assms(2)]
  proof (cases rule: unat_buddy)
    case (1 r)
    then have "r = q" using q by simp
    with 1 show ?thesis by simp
  next
    case (2 r)
    have "?P * (2 * r + 1) = ?P * (2 * q)" using 2(1) q by (simp add: algebra_simps)
    then have "2 * r + 1 = 2 * q" by (simp only: mult_cancel1) simp
    then have False by arith
    then show ?thesis ..
  qed
  have bs: "unat (block_size k) = 4096 * ?P"
    using assms(2) by (simp add: unat_block_size power_add)
  have sum: "unat a + unat (block_size k) = unat (a XOR block_size k)"
    unfolding q x bs by (simp add: algebra_simps)
  then have "unat a + unat (block_size k) < 2 ^ LENGTH(64)" by (simp only: unsigned_less)
  then show "checked_add a (block_size k) = Some (a + block_size k)"
    by (simp add: checked_add_Some)
  have "unat (a + block_size k) = unat (a XOR block_size k)"
    using sum \<open>unat a + unat (block_size k) < 2 ^ LENGTH(64)\<close> by (simp only: unat_add_no_wrap)
  then show eq: "a + block_size k = a XOR block_size k" by (simp add: word_unat_eq_iff)
  note m = buddy_merge [OF al assms(2), folded eq]
  show "aligned (a + block_size k) k" and "block_pages a k \<inter> block_pages (a + block_size k) k = {}"
    by (fact m)+
  have "min a (a + block_size k) = a"
    using sum unfolding eq [symmetric] by (simp add: min_def word_le_nat_alt eq)
  with m(4) show "block_pages a (Suc k) = block_pages a k \<union> block_pages (a + block_size k) k"
    by simp
qed

section \<open>Free lists in memory\<close>

text \<open>\<open>lists_rel s L\<close>: the eleven list heads of \<open>s\<close> lead through the address lists \<open>L 0 \<dots> L 10\<close>.\<close>

definition lists_rel :: "buddy_allocator \<Rightarrow> (nat \<Rightarrow> u64 list) \<Rightarrow> bool" where
  "lists_rel s L \<longleftrightarrow> length (free_lists s) = MAX_ORDER
     \<and> (\<forall>k < MAX_ORDER. chain (next_of s) (free_lists s ! k) (L k))"

definition lists_separate :: "(nat \<Rightarrow> u64 list) \<Rightarrow> bool" where
  "lists_separate L \<longleftrightarrow> (\<forall>j < MAX_ORDER. \<forall>k < MAX_ORDER. j \<noteq> k \<longrightarrow> set (L j) \<inter> set (L k) = {})"

lemma lists_rel_push:
  assumes "lists_rel s L" and "k < MAX_ORDER" and "\<forall>j < MAX_ORDER. a \<notin> set (L j)"
  shows "lists_rel (push_block s k a) (L(k := a # L k))"
  using assms by (auto simp: lists_rel_def push_block_def nth_list_update)

lemma lists_rel_pop:
  assumes "lists_rel s L" and "k < MAX_ORDER" and "free_lists s ! k = Some a"
  shows "\<exists>ys. L k = a # ys
    \<and> lists_rel (s\<lparr>free_lists := (free_lists s)[k := next_of s a]\<rparr>) (L(k := ys))"
proof -
  from assms obtain ys where ys: "L k = a # ys" "chain (next_of s) (next_of s a) ys"
    by (fastforce simp: lists_rel_def chain_Some)
  then show ?thesis using assms by (auto simp: lists_rel_def nth_list_update)
qed

lemma lists_rel_frame [simp]:
  "lists_rel (s\<lparr>free_frames := n\<rparr>) L = lists_rel s L"
  "lists_rel (s\<lparr>total_frames := n\<rparr>) L = lists_rel s L"
  by (simp_all add: lists_rel_def)

primrec link_after :: "link \<Rightarrow> u64 list \<Rightarrow> link" where
  "link_after l [] = l"
| "link_after l (u # us) = link_after (Next u) us"

lemma link_after_nonempty: "us \<noteq> [] \<Longrightarrow> link_after l us = Next (last us)"
  by (induction us arbitrary: l) auto

lemma remove_loop_absent:
  "chain (next_of s) (read_link s l) xs \<Longrightarrow> b \<notin> set xs \<Longrightarrow> remove_loop s l b = Some (False, s)"
proof (induction xs arbitrary: l)
  case Nil
  then show ?case by (simp add: remove_loop.simps)
next
  case (Cons x xs)
  then show ?case by (subst remove_loop.simps) auto
qed

lemma remove_loop_present:
  "chain (next_of s) (read_link s l) (us @ b # vs) \<Longrightarrow> b \<notin> set us \<Longrightarrow>
     remove_loop s l b = Some (True, write_link s (link_after l us) (next_of s b))"
proof (induction us arbitrary: l)
  case Nil
  then show ?case by (simp add: remove_loop.simps)
next
  case (Cons x xs)
  then show ?case by (subst remove_loop.simps) auto
qed

lemma lists_rel_unlink:
  assumes rel: "lists_rel s L" and sep: "lists_separate L" and k: "k < MAX_ORDER"
    and L: "L k = us @ b # vs"
  shows "lists_rel (write_link s (link_after (Head k) us) (next_of s b)) (L(k := us @ vs))"
proof -
  have ch: "chain (next_of s) (free_lists s ! k) (us @ b # vs)"
    using rel k L by (auto simp: lists_rel_def)
  show ?thesis
  proof (cases "us = []")
    case True
    with ch rel k show ?thesis
      by (auto simp: lists_rel_def nth_list_update chain_Some)
  next
    case False
    have "last us \<notin> set (L j)" if "j < MAX_ORDER" "j \<noteq> k" for j
      using sep k that False L last_in_set [OF False] unfolding lists_separate_def by fastforce
    with False ch rel k show ?thesis
      by (auto simp: lists_rel_def link_after_nonempty chain_unlink)
  qed
qed

lemma remove_from_list_spec:
  assumes "lists_rel s L" and "lists_separate L" and "k < MAX_ORDER"
  shows "\<exists>s'. remove_from_list s k b = Some (b \<in> set (L k), s')
    \<and> lists_rel s' (L(k := remove1 b (L k)))
    \<and> free_frames s' = free_frames s \<and> total_frames s' = total_frames s"
proof (cases "b \<in> set (L k)")
  case False
  then have "remove_from_list s k b = Some (False, s)"
    using assms by (simp add: remove_from_list_def lists_rel_def remove_loop_absent [where xs = "L k"])
  with False assms(1) show ?thesis by (simp add: remove1_idem)
next
  case True
  then obtain us vs where L: "L k = us @ b # vs" "b \<notin> set us"
    by (meson split_list_first)
  let ?s = "write_link s (link_after (Head k) us) (next_of s b)"
  have "chain (next_of s) (read_link s (Head k)) (us @ b # vs)"
    using assms L by (auto simp: lists_rel_def)
  then have "remove_from_list s k b = Some (True, ?s)"
    unfolding remove_from_list_def using L(2) by (rule remove_loop_present)
  moreover have "lists_rel ?s (L(k := us @ vs))"
    using assms L(1) by (rule lists_rel_unlink)
  moreover have "free_frames ?s = free_frames s" "total_frames ?s = total_frames s"
    by (cases "link_after (Head k) us"; simp)+
  ultimately show ?thesis using True L by (auto simp: remove1_append)
qed

section \<open>The set of free blocks\<close>

type_synonym block = "u64 \<times> nat"

definition blocks :: "(nat \<Rightarrow> u64 list) \<Rightarrow> block set" where
  "blocks L = {(a, k). k < MAX_ORDER \<and> a \<in> set (L k)}"

definition pages_of :: "block set \<Rightarrow> nat set" where
  "pages_of B = (\<Union>(a, k) \<in> B. block_pages a k)"

definition blocks_ok :: "block set \<Rightarrow> bool" where
  "blocks_ok B \<longleftrightarrow> finite B \<and> (\<forall>(a, k) \<in> B. k < MAX_ORDER \<and> aligned a k)
     \<and> (\<forall>(a, j) \<in> B. \<forall>(b, k) \<in> B. (a, j) \<noteq> (b, k) \<longrightarrow> block_pages a j \<inter> block_pages b k = {})"

text \<open>No free block has a free buddy of its own order: merging was done as far as it goes.\<close>

definition coalesced :: "block set \<Rightarrow> bool" where
  "coalesced B \<longleftrightarrow> (\<forall>(a, k) \<in> B. k < MAX_ORDER - 1 \<longrightarrow> (a XOR block_size k, k) \<notin> B)"

definition buddy_lists :: "buddy_allocator \<Rightarrow> block set \<Rightarrow> bool" where
  "buddy_lists s B \<longleftrightarrow> (\<exists>L. lists_rel s L \<and> B = blocks L) \<and> blocks_ok B"

text \<open>The abstraction relation of the allocator: \<open>s\<close> stands for the set \<open>B\<close> of free blocks.\<close>

definition buddy_rel :: "buddy_allocator \<Rightarrow> block set \<Rightarrow> bool" where
  "buddy_rel s B \<longleftrightarrow> buddy_lists s B \<and> unat (free_frames s) = card (pages_of B)"

lemma pages_of_insert [simp]: "pages_of (insert (a, k) B) = block_pages a k \<union> pages_of B"
  by (auto simp: pages_of_def)

lemma pages_of_empty [simp]: "pages_of {} = {}"
  by (simp add: pages_of_def)

lemma pages_of_mono: "(a, k) \<in> B \<Longrightarrow> block_pages a k \<subseteq> pages_of B"
  by (auto simp: pages_of_def)

lemma pages_of_remove:
  "blocks_ok B \<Longrightarrow> (a, k) \<in> B \<Longrightarrow> pages_of (B - {(a, k)}) = pages_of B - block_pages a k"
  by (fastforce simp: pages_of_def blocks_ok_def)

lemma blocks_ok_subset: "blocks_ok B \<Longrightarrow> C \<subseteq> B \<Longrightarrow> blocks_ok C"
  unfolding blocks_ok_def by (auto dest: finite_subset) blast+

lemma blocks_ok_insert:
  "blocks_ok B \<Longrightarrow> k < MAX_ORDER \<Longrightarrow> aligned a k \<Longrightarrow> block_pages a k \<inter> pages_of B = {}
     \<Longrightarrow> blocks_ok (insert (a, k) B)"
  unfolding blocks_ok_def pages_of_def by (auto simp: Int_commute) blast+

lemma finite_pages_of [simp]: "blocks_ok B \<Longrightarrow> finite (pages_of B)"
  by (auto simp: pages_of_def blocks_ok_def)

lemma notin_blocks:
  assumes "block_pages a k \<inter> pages_of B = {}"
  shows "(a, j) \<notin> B"
  using assms start_in_block_pages [of a k] start_in_block_pages [of a j]
  by (auto simp: pages_of_def)

lemma block_pages_bound:
  assumes "aligned a k" and "k < MAX_ORDER"
  shows "block_pages a k \<subseteq> {..< 2 ^ 52}"
proof -
  obtain q where q: "unat a = 4096 * (2 ^ k * q)" using assms(1) by (rule alignedE)
  have "unat a < 2 ^ LENGTH(64)" by (rule unsigned_less)
  then have lt: "2 ^ k * q < (2::nat) ^ 52" using q by (simp add: mult.commute)
  have "k \<le> 52" using assms(2) by (simp add: MAX_ORDER_def)
  then have p: "(2::nat) ^ 52 = 2 ^ k * 2 ^ (52 - k)" by (simp flip: power_add)
  from lt have "q < 2 ^ (52 - k)" unfolding p by simp
  then have "Suc q \<le> 2 ^ (52 - k)" by simp
  then have "2 ^ k * Suc q \<le> (2::nat) ^ 52" unfolding p by (rule mult_le_mono2)
  then show ?thesis using q by (auto simp: block_pages_at)
qed

lemma card_pages_of_bound: "blocks_ok B \<Longrightarrow> card (pages_of B) \<le> 2 ^ 52"
proof -
  assume "blocks_ok B"
  then have "pages_of B \<subseteq> {..< 2 ^ 52}"
    unfolding pages_of_def blocks_ok_def using block_pages_bound by fast
  then have "card (pages_of B) \<le> card {..< (2::nat) ^ 52}" by (rule card_mono [rotated]) simp
  then show ?thesis by simp
qed

lemma blocks_upd:
  "k < MAX_ORDER \<Longrightarrow> blocks (L(k := xs)) = {(a, j) \<in> blocks L. j \<noteq> k} \<union> {(a, k) |a. a \<in> set xs}"
  by (auto simp: blocks_def)

lemma blocks_ok_disjoint:
  "blocks_ok B \<Longrightarrow> (a, j) \<in> B \<Longrightarrow> (b, k) \<in> B \<Longrightarrow> (a, j) \<noteq> (b, k)
     \<Longrightarrow> block_pages a j \<inter> block_pages b k = {}"
  unfolding blocks_ok_def by fast

lemma blocks_ok_separate: "blocks_ok (blocks L) \<Longrightarrow> lists_separate L"
  unfolding lists_separate_def
proof (intro allI impI equals0I, elim IntE)
  fix j k a
  assume ok: "blocks_ok (blocks L)" and "j < MAX_ORDER" "k < MAX_ORDER" "j \<noteq> k"
    "a \<in> set (L j)" "a \<in> set (L k)"
  then have "block_pages a j \<inter> block_pages a k = {}"
    by (intro blocks_ok_disjoint [OF ok]) (auto simp: blocks_def)
  then show False using start_in_block_pages [of a j] start_in_block_pages [of a k] by blast
qed

lemma buddy_lists_frame [simp]:
  "buddy_lists (s\<lparr>free_frames := n\<rparr>) B = buddy_lists s B"
  "buddy_lists (s\<lparr>total_frames := n\<rparr>) B = buddy_lists s B"
  by (simp_all add: buddy_lists_def)

lemma buddy_lists_ok: "buddy_lists s B \<Longrightarrow> blocks_ok B"
  by (simp add: buddy_lists_def)

lemma push_block_spec:
  assumes "buddy_lists s B" and "k < MAX_ORDER" and "aligned a k"
    and "block_pages a k \<inter> pages_of B = {}"
  shows "buddy_lists (push_block s k a) (insert (a, k) B)"
proof -
  obtain L where L: "lists_rel s L" "B = blocks L" using assms(1) by (auto simp: buddy_lists_def)
  have "\<forall>j < MAX_ORDER. a \<notin> set (L j)"
    using notin_blocks [OF assms(4)] L(2) by (auto simp: blocks_def)
  with L(1) assms(2) have "lists_rel (push_block s k a) (L(k := a # L k))" by (rule lists_rel_push)
  moreover have "insert (a, k) B = blocks (L(k := a # L k))"
    using assms(2) L(2) by (auto simp: blocks_def)
  moreover have "blocks_ok (insert (a, k) B)"
    using assms by (intro blocks_ok_insert) (auto simp: buddy_lists_ok)
  ultimately show ?thesis by (auto simp: buddy_lists_def)
qed

lemma remove_block_spec:
  assumes "buddy_lists s B" and "k < MAX_ORDER"
  shows "\<exists>s'. remove_from_list s k b = Some ((b, k) \<in> B, s') \<and> buddy_lists s' (B - {(b, k)})
    \<and> free_frames s' = free_frames s \<and> total_frames s' = total_frames s"
proof -
  obtain L where L: "lists_rel s L" "B = blocks L" using assms(1) by (auto simp: buddy_lists_def)
  have sep: "lists_separate L"
    using assms(1) L(2) by (auto simp: buddy_lists_def intro: blocks_ok_separate)
  have "distinct (L k)" using L(1) assms(2) by (auto simp: lists_rel_def dest: chain_distinct)
  then have "B - {(b, k)} = blocks (L(k := remove1 b (L k)))"
    using assms(2) L(2) by (auto simp: blocks_def)
  moreover have "blocks_ok (B - {(b, k)})"
    using assms(1) by (auto simp: buddy_lists_def intro: blocks_ok_subset)
  moreover have "(b, k) \<in> B \<longleftrightarrow> b \<in> set (L k)" using assms(2) L(2) by (auto simp: blocks_def)
  ultimately show ?thesis
    using remove_from_list_spec [OF L(1) sep assms(2), of b] by (auto simp: buddy_lists_def)
qed

lemma pop_block_spec:
  assumes "buddy_lists s B" and "k < MAX_ORDER" and "free_lists s ! k = Some a"
  shows "(a, k) \<in> B
    \<and> buddy_lists (s\<lparr>free_lists := (free_lists s)[k := next_of s a]\<rparr>) (B - {(a, k)})"
proof -
  obtain L where L: "lists_rel s L" "B = blocks L" using assms(1) by (auto simp: buddy_lists_def)
  obtain ys where ys: "L k = a # ys"
    "lists_rel (s\<lparr>free_lists := (free_lists s)[k := next_of s a]\<rparr>) (L(k := ys))"
    using lists_rel_pop [OF L(1) assms(2,3)] by blast
  have "distinct (L k)" using L(1) assms(2) by (auto simp: lists_rel_def dest: chain_distinct)
  then have "B - {(a, k)} = blocks (L(k := ys))" and "(a, k) \<in> B"
    using assms(2) L(2) ys(1) by (auto simp: blocks_def)
  moreover have "blocks_ok (B - {(a, k)})"
    using assms(1) by (auto simp: buddy_lists_def intro: blocks_ok_subset)
  ultimately show ?thesis using ys(2) by (auto simp: buddy_lists_def)
qed

lemma empty_list_spec:
  assumes "buddy_lists s B" and "k < MAX_ORDER"
  shows "free_lists s ! k = None \<longleftrightarrow> (\<forall>a. (a, k) \<notin> B)"
proof -
  obtain L where L: "lists_rel s L" "B = blocks L" using assms(1) by (auto simp: buddy_lists_def)
  have ch: "chain (next_of s) (free_lists s ! k) (L k)" using L(1) assms(2) by (auto simp: lists_rel_def)
  then have "free_lists s ! k = None \<longleftrightarrow> L k = []" by (cases "L k") auto
  then show ?thesis using L(2) assms(2) by (auto simp: blocks_def)
qed

section \<open>Merging, freeing and allocating\<close>

lemma merge_loop_spec:
  assumes "buddy_lists s B" and "k < MAX_ORDER" and "aligned a k"
    and "block_pages a k \<inter> pages_of B = {}"
  shows "\<exists>a' k' s' B'. merge_loop s a k = Some (a', k', s') \<and> buddy_lists s' B' \<and> B' \<subseteq> B
    \<and> k \<le> k' \<and> k' < MAX_ORDER \<and> aligned a' k' \<and> block_pages a' k' \<inter> pages_of B' = {}
    \<and> block_pages a' k' \<union> pages_of B' = block_pages a k \<union> pages_of B
    \<and> (k' < MAX_ORDER - 1 \<longrightarrow> (a' XOR block_size k', k') \<notin> B')
    \<and> free_frames s' = free_frames s \<and> total_frames s' = total_frames s"
  using assms
proof (induction s a k arbitrary: B rule: merge_loop.induct)
  case (1 s a k)
  let ?b = "a XOR block_size k"
  show ?case
  proof (cases "k < MAX_ORDER - 1")
    case False
    then have "merge_loop s a k = Some (a, k, s)" by (simp add: merge_loop.simps)
    with 1 False show ?thesis
      by (intro exI [of _ a] exI [of _ k] exI [of _ s] exI [of _ B]) simp
  next
    case True
    obtain s' where s': "remove_from_list s k ?b = Some ((?b, k) \<in> B, s')"
      and rel: "buddy_lists s' (B - {(?b, k)})"
      and fr: "free_frames s' = free_frames s" "total_frames s' = total_frames s"
      using remove_block_spec [OF 1(2,3)] by blast
    show ?thesis
    proof (cases "(?b, k) \<in> B")
      case False
      then have "merge_loop s a k = Some (a, k, s')"
        using True s' by (simp add: merge_loop.simps)
      with False rel fr 1 show ?thesis
        by (intro exI [of _ a] exI [of _ k] exI [of _ s'] exI [of _ B]) simp
    next
      case inB: True
      have k10: "k < 10" using True by (simp add: MAX_ORDER_def)
      note m = buddy_merge [OF 1(4) k10]
      let ?B = "B - {(?b, k)}" and ?a = "min a ?b"
      have eq: "merge_loop s a k = merge_loop s' ?a (Suc k)"
        using True s' inB by (simp add: merge_loop.simps [of s a k])
      have rem: "pages_of ?B = pages_of B - block_pages ?b k"
        using 1(2) inB by (intro pages_of_remove) (auto simp: buddy_lists_ok)
      have "block_pages ?a (Suc k) \<inter> pages_of ?B = {}"
        unfolding m(4) rem using 1(5) by blast
      moreover have "Suc k < MAX_ORDER" using True by simp
      moreover have "remove_from_list s k ?b = Some (True, s')" using s' inB by simp
      note IH = 1(1) [OF True refl this refl TrueI rel, unfolded Suc_eq_plus1 [symmetric]]
      ultimately obtain a' k' t B' where r: "merge_loop s' ?a (Suc k) = Some (a', k', t)"
        "buddy_lists t B'" "B' \<subseteq> ?B" "Suc k \<le> k'" "k' < MAX_ORDER" "aligned a' k'"
        "block_pages a' k' \<inter> pages_of B' = {}"
        "block_pages a' k' \<union> pages_of B' = block_pages ?a (Suc k) \<union> pages_of ?B"
        "k' < MAX_ORDER - 1 \<longrightarrow> (a' XOR block_size k', k') \<notin> B'"
        "free_frames t = free_frames s'" "total_frames t = total_frames s'"
        using IH [OF _ m(3)] by auto
      have "block_pages ?a (Suc k) \<union> pages_of ?B = block_pages a k \<union> pages_of B"
        unfolding m(4) rem using pages_of_mono [OF inB] by blast
      moreover have "B' \<subseteq> B" and "k \<le> k'" using r(3,4) by auto
      ultimately show ?thesis
        using r fr eq
        by (intro exI [of _ a'] exI [of _ k'] exI [of _ t] exI [of _ B']) simp
    qed
  qed
qed

lemma coalesced_subset: "coalesced B \<Longrightarrow> C \<subseteq> B \<Longrightarrow> coalesced C"
  unfolding coalesced_def by fast

lemma coalesced_insert:
  assumes "coalesced B" and "k < MAX_ORDER - 1 \<longrightarrow> (a XOR block_size k, k) \<notin> B" and "aligned a k"
  shows "coalesced (insert (a, k) B)"
proof -
  have inv: "x XOR block_size k = a \<longleftrightarrow> x = a XOR block_size k" for x
    by (auto simp: xor.assoc)
  have "k < MAX_ORDER - 1 \<Longrightarrow> a XOR block_size k \<noteq> a"
    using buddy_merge(5) [OF assms(3)] by (auto simp: MAX_ORDER_def)
  with assms(1,2) show ?thesis unfolding coalesced_def by (auto simp: inv)
qed

lemma unat_one_shift [simp]: "k < MAX_ORDER \<Longrightarrow> unat (2 ^ k :: usize) = 2 ^ k"
  by (simp add: unat_pow2 MAX_ORDER_def)

lemma deallocate_internal_spec:
  assumes rel: "buddy_rel s B" and k: "k < MAX_ORDER" and al: "aligned a k"
    and free: "block_pages a k \<inter> pages_of B = {}"
  shows "\<exists>s' B'. deallocate_internal s (PhysFrame a) k = Some s' \<and> buddy_rel s' B'
    \<and> pages_of B' = block_pages a k \<union> pages_of B \<and> (coalesced B \<longrightarrow> coalesced B')
    \<and> total_frames s' = total_frames s"
proof -
  have bl: "buddy_lists s B" and n: "unat (free_frames s) = card (pages_of B)"
    using rel by (auto simp: buddy_rel_def)
  obtain a' k' t B' where m: "merge_loop s a k = Some (a', k', t)"
    "buddy_lists t B'" "B' \<subseteq> B" "k' < MAX_ORDER" "aligned a' k'"
    "block_pages a' k' \<inter> pages_of B' = {}"
    "block_pages a' k' \<union> pages_of B' = block_pages a k \<union> pages_of B"
    "k' < MAX_ORDER - 1 \<longrightarrow> (a' XOR block_size k', k') \<notin> B'"
    "free_frames t = free_frames s" "total_frames t = total_frames s"
    using merge_loop_spec [OF bl k al free] by blast
  let ?s = "push_block t k' a'" and ?B = "insert (a', k') B'"
  have bl': "buddy_lists ?s ?B" using m by (intro push_block_spec) auto
  have pg: "pages_of ?B = block_pages a k \<union> pages_of B" using m(7) by simp
  have "card (pages_of ?B) = 2 ^ k + card (pages_of B)"
    unfolding pg using free buddy_lists_ok [OF bl] by (subst card_Un_disjoint) auto
  then have c: "unat (free_frames ?s) + unat (push_bit k 1 :: usize) = card (pages_of ?B)"
    using n m(9) k by (simp add: push_block_def)
  then have lt: "unat (free_frames ?s) + unat (push_bit k 1 :: usize) < 2 ^ LENGTH(64)"
    using card_pages_of_bound [OF buddy_lists_ok [OF bl']] by simp
  then have "deallocate_internal s (PhysFrame a) k
      = Some (?s\<lparr>free_frames := free_frames ?s + push_bit k 1\<rparr>)"
    by (simp add: deallocate_internal_def m(1) checked_add_def Let_def)
  moreover have "buddy_rel (?s\<lparr>free_frames := free_frames ?s + push_bit k 1\<rparr>) ?B"
    using bl' c unat_add_no_wrap [OF lt] by (simp add: buddy_rel_def)
  moreover have "coalesced B \<Longrightarrow> coalesced ?B"
    using m(3,5,8) by (intro coalesced_insert) (auto intro: coalesced_subset)
  moreover have "total_frames ?s = total_frames s" using m(10) by (simp add: push_block_def)
  ultimately show ?thesis using pg by auto
qed

lemma split_loop_spec:
  assumes "buddy_lists s B" and "c < MAX_ORDER" and "k \<le> c" and "aligned a c"
    and "block_pages a c \<inter> pages_of B = {}"
  shows "\<exists>s' B'. split_loop s a k c = Some s' \<and> buddy_lists s' B'
    \<and> block_pages a k \<inter> pages_of B' = {}
    \<and> block_pages a k \<union> pages_of B' = block_pages a c \<union> pages_of B
    \<and> (coalesced B \<longrightarrow> coalesced B')
    \<and> free_frames s' = free_frames s \<and> total_frames s' = total_frames s"
  using assms
proof (induction c arbitrary: s B)
  case 0
  then show ?case by auto
next
  case (Suc c)
  show ?case
  proof (cases "k = Suc c")
    case True
    with Suc.prems show ?thesis by auto
  next
    case False
    with Suc.prems have kc: "k \<le> c" and c: "c < 10" "c < MAX_ORDER" by (auto simp: MAX_ORDER_def)
    let ?b = "a + block_size c"
    note sp = buddy_split [OF Suc.prems(4) c(1)]
    have free: "block_pages ?b c \<inter> pages_of B = {}" "block_pages a c \<inter> pages_of B = {}"
      using Suc.prems(5) unfolding sp(5) by auto
    have bl: "buddy_lists (push_block s c ?b) (insert (?b, c) B)"
      using Suc.prems(1) c(2) sp(2) free(1) by (rule push_block_spec)
    have d: "block_pages a c \<inter> pages_of (insert (?b, c) B) = {}" using free(2) sp(4) by auto
    obtain s' B' where r: "split_loop (push_block s c ?b) a k c = Some s'" "buddy_lists s' B'"
      "block_pages a k \<inter> pages_of B' = {}"
      "block_pages a k \<union> pages_of B' = block_pages a c \<union> pages_of (insert (?b, c) B)"
      "coalesced (insert (?b, c) B) \<longrightarrow> coalesced B'"
      "free_frames s' = free_frames s" "total_frames s' = total_frames s"
      using Suc.IH [OF bl c(2) kc sp(3) d] by (auto simp: push_block_def)
    have "(?b XOR block_size c, c) \<notin> B"
      using notin_blocks [OF free(2), of c] unfolding sp(6) by simp
    then have "coalesced B \<longrightarrow> coalesced (insert (?b, c) B)"
      using sp(2) by (auto intro: coalesced_insert)
    moreover have "split_loop s a k (Suc c) = Some s'" using kc sp(1) r(1) by simp
    ultimately show ?thesis using r sp(5) by auto
  qed
qed

lemma allocate_from_spec:
  assumes "buddy_rel s B" and "k \<le> c" and "k < MAX_ORDER"
    and "\<forall>j. k \<le> j \<longrightarrow> j < c \<longrightarrow> (\<forall>a. (a, j) \<notin> B)"
  shows "if \<exists>(a, j) \<in> B. k \<le> j then
      \<exists>a s' B'. allocate_from s k c = Some (Inr (PhysFrame a), s') \<and> buddy_rel s' B'
        \<and> aligned a k \<and> block_pages a k \<subseteq> pages_of B
        \<and> pages_of B' = pages_of B - block_pages a k \<and> (coalesced B \<longrightarrow> coalesced B')
        \<and> total_frames s' = total_frames s
    else allocate_from s k c = Some (Inl OutOfMemory, s)"
  using assms
proof (induction s k c rule: allocate_from.induct)
  case (1 s k c)
  have bl: "buddy_lists s B" and n: "unat (free_frames s) = card (pages_of B)"
    using 1(2) by (auto simp: buddy_rel_def)
  have lt: "\<forall>(a, j) \<in> B. j < MAX_ORDER" using buddy_lists_ok [OF bl] by (auto simp: blocks_ok_def)
  consider (out) "\<not> c < MAX_ORDER" | (empty) "c < MAX_ORDER" "free_lists s ! c = None"
    | (hit) a where "c < MAX_ORDER" "free_lists s ! c = Some a" by fastforce
  then show ?case
  proof cases
    case out
    then have "\<not> (\<exists>(a, j) \<in> B. k \<le> j)" using 1(5) lt by fastforce
    with out show ?thesis by (subst allocate_from.simps) auto
  next
    case empty
    then have "\<forall>a. (a, c) \<notin> B" using bl by (simp add: empty_list_spec)
    then have "\<forall>j. k \<le> j \<longrightarrow> j < c + 1 \<longrightarrow> (\<forall>a. (a, j) \<notin> B)"
      using 1(5) less_Suc_eq by (metis Suc_eq_plus1)
    then have IH: "if \<exists>(a, j) \<in> B. k \<le> j then
      \<exists>a s' B'. allocate_from s k (c + 1) = Some (Inr (PhysFrame a), s') \<and> buddy_rel s' B'
        \<and> aligned a k \<and> block_pages a k \<subseteq> pages_of B
        \<and> pages_of B' = pages_of B - block_pages a k \<and> (coalesced B \<longrightarrow> coalesced B')
        \<and> total_frames s' = total_frames s
      else allocate_from s k (c + 1) = Some (Inl OutOfMemory, s)"
      using 1(1) [OF empty] 1(2-4) by simp
    have "allocate_from s k c = allocate_from s k (c + 1)"
      using empty by (simp add: allocate_from.simps [of s k c])
    with IH show ?thesis by (simp only:)
  next
    case hit
    let ?s = "s\<lparr>free_lists := (free_lists s)[c := next_of s a]\<rparr>" and ?B = "B - {(a, c)}"
    have inB: "(a, c) \<in> B" and bl1: "buddy_lists ?s ?B" using pop_block_spec [OF bl hit] by auto
    have al: "aligned a c" using inB buddy_lists_ok [OF bl] by (auto simp: blocks_ok_def)
    have rem: "pages_of ?B = pages_of B - block_pages a c"
      using inB buddy_lists_ok [OF bl] by (intro pages_of_remove)
    have "block_pages a c \<inter> pages_of ?B = {}" unfolding rem by blast
    then obtain s2 B' where sp: "split_loop ?s a k c = Some s2" "buddy_lists s2 B'"
      "block_pages a k \<inter> pages_of B' = {}"
      "block_pages a k \<union> pages_of B' = block_pages a c \<union> pages_of ?B"
      "coalesced ?B \<longrightarrow> coalesced B'" "free_frames s2 = free_frames s"
      "total_frames s2 = total_frames s"
      using split_loop_spec [OF bl1 hit(1) 1(3) al] by auto
    have un: "block_pages a k \<union> pages_of B' = pages_of B"
      unfolding sp(4) rem using pages_of_mono [OF inB] by blast
    have card: "card (pages_of B) = 2 ^ k + card (pages_of B')"
      unfolding un [symmetric] using sp(3) buddy_lists_ok [OF sp(2)]
      by (subst card_Un_disjoint) auto
    then have le: "push_bit k 1 \<le> free_frames s2" and sub:
      "unat (free_frames s2 - push_bit k 1) = card (pages_of B')"
      using n sp(6) 1(4) by (auto simp: word_le_nat_alt unat_sub)
    let ?t = "s2\<lparr>free_frames := free_frames s2 - push_bit k 1\<rparr>"
    have "allocate_from s k c = Some (Inr (PhysFrame a), ?t)"
      using hit sp(1) le by (simp add: allocate_from.simps [of s k c] checked_sub_def Let_def)
    moreover have "buddy_rel ?t B'" using sp(2) sub by (simp add: buddy_rel_def)
    moreover have "aligned a k" using al 1(3) by (rule aligned_mono)
    moreover have "coalesced B \<longrightarrow> coalesced B'"
      using sp(5) coalesced_subset [of B ?B] by auto
    moreover have "\<exists>(a, j) \<in> B. k \<le> j" using inB 1(3) by auto
    moreover have "pages_of B' = pages_of B - block_pages a k" "block_pages a k \<subseteq> pages_of B"
      using un sp(3) by auto
    ultimately show ?thesis using sp(7) by auto
  qed
qed

section \<open>The page allocator interface\<close>

definition frame_pages :: "phys_frame \<Rightarrow> u8 \<Rightarrow> nat set" where
  "frame_pages f order = block_pages (start_address f) (unat order)"

definition frame_aligned :: "phys_frame \<Rightarrow> u8 \<Rightarrow> bool" where
  "frame_aligned f order \<longleftrightarrow> aligned (start_address f) (unat order)"

text \<open>
  Clients of an allocator (the page-table code, the ELF loader, processes) hold blocks they were
  given. A step of the system is an allocation, a refused allocation, the release of a block that
  is held, or a client writing anything at all to a page it holds.
\<close>

inductive owner_step ::
  "('s \<Rightarrow> u8 \<Rightarrow> ((alloc_error + phys_frame) \<times> 's) option) \<Rightarrow> ('s \<Rightarrow> phys_frame \<Rightarrow> u8 \<Rightarrow> 's option)
    \<Rightarrow> ('s \<Rightarrow> u64 \<Rightarrow> u64 option \<Rightarrow> 's)
    \<Rightarrow> 's \<times> (phys_frame \<times> u8) set \<Rightarrow> 's \<times> (phys_frame \<times> u8) set \<Rightarrow> bool"
  for alloc dealloc poke where
  take: "alloc s k = Some (Inr f, s') \<Longrightarrow> owner_step alloc dealloc poke (s, H) (s', insert (f, k) H)"
| refused: "alloc s k = Some (Inl e, s') \<Longrightarrow> owner_step alloc dealloc poke (s, H) (s', H)"
| give_back: "(f, k) \<in> H \<Longrightarrow> dealloc s f k = Some s' \<Longrightarrow>
    owner_step alloc dealloc poke (s, H) (s', H - {(f, k)})"
| scribble: "(f, k) \<in> H \<Longrightarrow> unat a div 4096 \<in> frame_pages f k \<Longrightarrow>
    owner_step alloc dealloc poke (s, H) (poke s a v, H)"

definition owned_pages :: "(phys_frame \<times> u8) set \<Rightarrow> nat set" where
  "owned_pages H = (\<Union>(f, k) \<in> H. frame_pages f k)"

definition held_disjoint :: "(phys_frame \<times> u8) set \<Rightarrow> bool" where
  "held_disjoint H \<longleftrightarrow> pairwise (\<lambda>(f, j) (g, k). frame_pages f j \<inter> frame_pages g k = {}) H"

definition owners_ok :: "nat set \<Rightarrow> nat set \<Rightarrow> (phys_frame \<times> u8) set \<Rightarrow> bool" where
  "owners_ok managed free H \<longleftrightarrow>
     (\<forall>(f, k) \<in> H. unat k < MAX_ORDER \<and> frame_aligned f k \<and> frame_pages f k \<inter> free = {})
     \<and> held_disjoint H
     \<and> owned_pages H \<union> free = managed"

locale page_allocator =
  fixes alloc :: "'s \<Rightarrow> u8 \<Rightarrow> ((alloc_error + phys_frame) \<times> 's) option"
    and dealloc :: "'s \<Rightarrow> phys_frame \<Rightarrow> u8 \<Rightarrow> 's option"
    and poke :: "'s \<Rightarrow> u64 \<Rightarrow> u64 option \<Rightarrow> 's"
    and free :: "'s \<Rightarrow> nat set"
    and invar :: "'s \<Rightarrow> bool"
  assumes alloc_total: "invar s \<Longrightarrow> \<exists>r s'. alloc s k = Some (r, s')"
    and alloc_frame: "invar s \<Longrightarrow> alloc s k = Some (Inr f, s') \<Longrightarrow>
      invar s' \<and> unat k < MAX_ORDER \<and> frame_aligned f k \<and> frame_pages f k \<subseteq> free s
      \<and> free s' = free s - frame_pages f k"
    and alloc_error: "invar s \<Longrightarrow> alloc s k = Some (Inl e, s') \<Longrightarrow> s' = s"
    and dealloc_frame: "invar s \<Longrightarrow> unat k < MAX_ORDER \<Longrightarrow> frame_aligned f k \<Longrightarrow>
      frame_pages f k \<inter> free s = {} \<Longrightarrow>
      \<exists>s'. dealloc s f k = Some s' \<and> invar s' \<and> free s' = frame_pages f k \<union> free s"
    and poke_allocated: "invar s \<Longrightarrow> unat a div 4096 \<notin> free s \<Longrightarrow>
      invar (poke s a v) \<and> free (poke s a v) = free s"
begin

lemma alloc_dealloc_roundtrip:
  assumes "invar s" and "alloc s k = Some (Inr f, s')"
  shows "\<exists>s''. dealloc s' f k = Some s'' \<and> invar s'' \<and> free s'' = free s"
proof -
  have a: "invar s'" "unat k < MAX_ORDER" "frame_aligned f k" "frame_pages f k \<subseteq> free s"
    "free s' = free s - frame_pages f k" using alloc_frame [OF assms] by auto
  have "frame_pages f k \<inter> free s' = {}" unfolding a(5) by blast
  from dealloc_frame [OF a(1-3) this] a(4,5) show ?thesis by auto
qed

lemma two_allocs_disjoint:
  assumes "invar s" and "alloc s j = Some (Inr f, s1)" and "alloc s1 k = Some (Inr g, s2)"
  shows "frame_pages f j \<inter> frame_pages g k = {}"
  using alloc_frame [OF assms(1,2)] alloc_frame [OF _ assms(3)] by blast

lemma owner_step_invar:
  assumes "owner_step alloc dealloc poke (s, H) (s', H')" and "invar s"
    and "owners_ok managed (free s) H"
  shows "invar s' \<and> owners_ok managed (free s') H'"
  using assms(1)
proof (cases rule: owner_step.cases)
  case (take k f)
  have a: "invar s'" "unat k < MAX_ORDER" "frame_aligned f k" "frame_pages f k \<subseteq> free s"
    "free s' = free s - frame_pages f k" using alloc_frame [OF assms(2) take(2)] by auto
  have d: "\<forall>(g, j) \<in> H. frame_pages g j \<inter> free s = {}" using assms(3) by (auto simp: owners_ok_def)
  then have d': "\<forall>(g, j) \<in> H. frame_pages f k \<inter> frame_pages g j = {}" using a(4) by blast
  have "owners_ok managed (free s') (insert (f, k) H)"
    unfolding owners_ok_def
  proof (intro conjI)
    show "owned_pages (insert (f, k) H) \<union> free s' = managed"
      using assms(3) a(4,5) by (auto simp: owners_ok_def owned_pages_def)
    show "\<forall>(g, j) \<in> insert (f, k) H. unat j < MAX_ORDER \<and> frame_aligned g j \<and> frame_pages g j \<inter> free s' = {}"
      using assms(3) a by (fastforce simp: owners_ok_def)
    show "held_disjoint (insert (f, k) H)"
      using assms(3) d' unfolding owners_ok_def held_disjoint_def
      by (auto simp: pairwise_insert Int_commute)
  qed
  with a(1) take(1) show ?thesis by simp
next
  case (refused k e)
  then show ?thesis using alloc_error assms(2,3) by blast
next
  case (give_back f k)
  have o: "unat k < MAX_ORDER" "frame_aligned f k" "frame_pages f k \<inter> free s = {}"
    using assms(3) give_back(2) by (auto simp: owners_ok_def)
  obtain t where t: "dealloc s f k = Some t" "invar t" "free t = frame_pages f k \<union> free s"
    using dealloc_frame [OF assms(2) o] by blast
  then have eq: "s' = t" "H' = H - {(f, k)}" using give_back by auto
  have dis: "\<forall>(g, j) \<in> H - {(f, k)}. frame_pages g j \<inter> frame_pages f k = {}"
    using assms(3) give_back(2) unfolding owners_ok_def held_disjoint_def pairwise_def by fast
  have "owners_ok managed (free t) (H - {(f, k)})"
    unfolding owners_ok_def
  proof (intro conjI)
    show "\<forall>(g, j) \<in> H - {(f, k)}. unat j < MAX_ORDER \<and> frame_aligned g j \<and> frame_pages g j \<inter> free t = {}"
      using assms(3) dis unfolding t(3) owners_ok_def by (auto simp: Int_Un_distrib)
    show "held_disjoint (H - {(f, k)})"
      using assms(3) unfolding owners_ok_def held_disjoint_def by (auto intro: pairwise_subset)
    show "owned_pages (H - {(f, k)}) \<union> free t = managed"
      using assms(3) give_back(2) unfolding t(3) owners_ok_def owned_pages_def by fast
  qed
  with t(2) eq show ?thesis by simp
next
  case (scribble f k a v)
  then have "unat a div 4096 \<notin> free s" using assms(3) by (auto simp: owners_ok_def)
  from poke_allocated [OF assms(2) this] scribble assms(3) show ?thesis by auto
qed

lemma owner_run_invar:
  assumes "(owner_step alloc dealloc poke)\<^sup>*\<^sup>* (s, {}) (s', H)" and "invar s"
  shows "invar s' \<and> owners_ok (free s) (free s') H"
  using assms(1)
proof (induction rule: rtranclp_induct2)
  case refl
  with assms(2) show ?case by (simp add: owners_ok_def owned_pages_def held_disjoint_def)
next
  case (step t P u Q)
  then show ?case using owner_step_invar by blast
qed

end

section \<open>The buddy allocator provides the interface\<close>

definition free_page_set :: "buddy_allocator \<Rightarrow> nat set" where
  "free_page_set s = {p. \<exists>B. buddy_rel s B \<and> p \<in> pages_of B}"

definition buddy_invar :: "buddy_allocator \<Rightarrow> bool" where
  "buddy_invar s \<longleftrightarrow> (\<exists>B. buddy_rel s B \<and> coalesced B)"

text \<open>A write of a client to the first bytes of a page, where a free block would hold its header.\<close>

definition write_header :: "buddy_allocator \<Rightarrow> u64 \<Rightarrow> u64 option \<Rightarrow> buddy_allocator" where
  "write_header s a v = s\<lparr>next_of := (next_of s)(a := v)\<rparr>"

lemma buddy_rel_unique:
  assumes "buddy_rel s B" and "buddy_rel s C"
  shows "B = C"
proof -
  obtain L M where LM: "lists_rel s L" "B = blocks L" "lists_rel s M" "C = blocks M"
    using assms by (auto simp: buddy_rel_def buddy_lists_def)
  then have "\<forall>k < MAX_ORDER. L k = M k" by (auto simp: lists_rel_def intro: chain_unique)
  then show ?thesis using LM(2,4) by (auto simp: blocks_def)
qed

lemma free_page_set_eq: "buddy_rel s B \<Longrightarrow> free_page_set s = pages_of B"
  by (auto simp: free_page_set_def dest: buddy_rel_unique)

lemma buddy_invarE:
  assumes "buddy_invar s"
  obtains B where "buddy_rel s B" "coalesced B" "free_page_set s = pages_of B"
  using assms by (auto simp: buddy_invar_def free_page_set_eq)

lemma write_header_spec:
  assumes "buddy_rel s B" and "unat a div 4096 \<notin> pages_of B"
  shows "buddy_rel (write_header s a v) B"
proof -
  obtain L where L: "lists_rel s L" "B = blocks L" and ok: "blocks_ok B"
    using assms(1) by (auto simp: buddy_rel_def buddy_lists_def)
  have "a \<notin> set (L k)" if "k < MAX_ORDER" for k
    using that assms(2) L(2) start_in_block_pages [of a k] by (auto simp: pages_of_def blocks_def)
  with L(1) have "lists_rel (write_header s a v) L" by (auto simp: lists_rel_def write_header_def)
  with assms(1) L(2) ok show ?thesis
    by (auto simp: buddy_rel_def buddy_lists_def write_header_def)
qed

lemma allocate_cases:
  assumes "buddy_rel s B"
  shows "if unat order \<ge> MAX_ORDER then allocate s order = Some (Inl InvalidOrder, s)
    else if \<exists>(a, j) \<in> B. unat order \<le> j then
      \<exists>f s' B'. allocate s order = Some (Inr f, s') \<and> buddy_rel s' B'
        \<and> frame_aligned f order \<and> frame_pages f order \<subseteq> pages_of B
        \<and> pages_of B' = pages_of B - frame_pages f order \<and> (coalesced B \<longrightarrow> coalesced B')
        \<and> total_frames s' = total_frames s
    else allocate s order = Some (Inl OutOfMemory, s)"
  using allocate_from_spec [OF assms, of "unat order" "unat order"]
  by (fastforce simp: allocate_def frame_aligned_def frame_pages_def split: if_splits)

lemma deallocate_spec:
  assumes "buddy_rel s B" and "unat order < MAX_ORDER" and "frame_aligned f order"
    and "frame_pages f order \<inter> pages_of B = {}"
  shows "\<exists>s' B'. deallocate s f order = Some s' \<and> buddy_rel s' B'
    \<and> pages_of B' = frame_pages f order \<union> pages_of B \<and> (coalesced B \<longrightarrow> coalesced B')
    \<and> total_frames s' = total_frames s"
  using deallocate_internal_spec [OF assms(1,2), of "start_address f"] assms(2-4)
  by (simp add: deallocate_def frame_aligned_def frame_pages_def)

interpretation buddy: page_allocator allocate deallocate write_header free_page_set buddy_invar
proof (unfold_locales, goal_cases)
  case (1 s k)
  then obtain B where "buddy_rel s B" by (rule buddy_invarE)
  from allocate_cases [OF this, of k] show ?case by (auto split: if_splits)
next
  case (2 s k f s')
  from 2(1) obtain B where B: "buddy_rel s B" "coalesced B" "free_page_set s = pages_of B"
    by (rule buddy_invarE)
  have k: "unat k < MAX_ORDER" and "\<exists>(a, j) \<in> B. unat k \<le> j"
    using allocate_cases [OF B(1), of k] 2(2) by (auto split: if_splits)
  then obtain B' where "buddy_rel s' B'" "frame_aligned f k" "frame_pages f k \<subseteq> pages_of B"
      "pages_of B' = pages_of B - frame_pages f k" "coalesced B'"
    using allocate_cases [OF B(1), of k] 2(2) B(2) by auto
  then show ?case using k B(3) by (auto simp: buddy_invar_def free_page_set_eq)
next
  case (3 s k e s')
  then obtain B where B: "buddy_rel s B" by (auto elim: buddy_invarE)
  from allocate_cases [OF B, of k] 3(2) show ?case by (auto split: if_splits)
next
  case (4 s k f)
  from 4(1) obtain B where B: "buddy_rel s B" "coalesced B" "free_page_set s = pages_of B"
    by (rule buddy_invarE)
  from deallocate_spec [OF B(1) 4(2,3)] 4(4) B(2,3)
  show ?case by (auto simp: buddy_invar_def free_page_set_eq)
next
  case (5 s a v)
  from 5(1) obtain B where B: "buddy_rel s B" "coalesced B" "free_page_set s = pages_of B"
    by (rule buddy_invarE)
  with 5(2) have "buddy_rel (write_header s a v) B" by (intro write_header_spec) auto
  with B show ?case by (auto simp: buddy_invar_def free_page_set_eq)
qed

section \<open>Initialisation from the memory map\<close>

text \<open>During start-up nothing is allocated, and both counters count the managed pages.\<close>

definition fresh_rel :: "buddy_allocator \<Rightarrow> nat set \<Rightarrow> bool" where
  "fresh_rel s P \<longleftrightarrow> (\<exists>B. buddy_rel s B \<and> coalesced B \<and> P = pages_of B)
     \<and> unat (total_frames s) = card P"

lemma fresh_relE:
  assumes "fresh_rel s P"
  obtains B where "buddy_rel s B" "coalesced B" "P = pages_of B" "unat (total_frames s) = card P"
    "finite P" "card P \<le> 2 ^ 52"
  using assms buddy_lists_ok card_pages_of_bound
  by (fastforce simp: fresh_rel_def buddy_rel_def)

lemma fresh_rel_new: "fresh_rel (buddy_new m) {}"
proof -
  have "lists_rel (buddy_new m) (\<lambda>_. [])" by (simp add: lists_rel_def buddy_new_def)
  then have "buddy_rel (buddy_new m) {}"
    by (auto simp: buddy_rel_def buddy_lists_def blocks_def blocks_ok_def buddy_new_def intro!: exI)
  then show ?thesis by (auto simp: fresh_rel_def coalesced_def buddy_new_def intro!: exI [of _ "{}"])
qed

lemma pick_order_spec:
  assumes "aligned a 0" and "1 \<le> m" and "n \<le> 10"
  shows "2 ^ pick_order m a n \<le> unat m \<and> aligned a (pick_order m a n)"
  using assms(3)
proof (induction n)
  case 0
  then show ?case using assms(1,2) by (simp add: word_le_nat_alt)
next
  case (Suc n)
  have "unat (2 ^ Suc n :: u64) = 2 ^ Suc n" using Suc.prems by (intro unat_pow2) simp
  moreover have "a mod block_size (Suc n) = 0 \<longleftrightarrow> aligned a (Suc n)"
    using Suc.prems
    by (simp add: word_unat_eq_iff unat_mod unat_block_size aligned_def dvd_eq_mod_eq_0 del: power_Suc)
  ultimately show ?case using Suc by (auto simp: word_le_nat_alt simp del: power_Suc)
qed

lemma fresh_rel_add_block:
  assumes "fresh_rel s P" and "k < MAX_ORDER" and "aligned a k" and "block_pages a k \<inter> P = {}"
  shows "\<exists>s' t. deallocate_internal s (PhysFrame a) k = Some s'
    \<and> checked_add (total_frames s') (push_bit k 1) = Some t
    \<and> fresh_rel (s'\<lparr>total_frames := t\<rparr>) (block_pages a k \<union> P)"
proof -
  obtain B where B: "buddy_rel s B" "coalesced B" "P = pages_of B" "unat (total_frames s) = card P"
    "finite P" "card P \<le> 2 ^ 52" using assms(1) by (rule fresh_relE)
  obtain s' B' where s': "deallocate_internal s (PhysFrame a) k = Some s'" "buddy_rel s' B'"
    "pages_of B' = block_pages a k \<union> P" "coalesced B'" "total_frames s' = total_frames s"
    using deallocate_internal_spec [OF B(1) assms(2,3)] assms(4) B(2,3) by auto
  have c: "card (block_pages a k \<union> P) = 2 ^ k + card P"
    using assms(4) B(5) by (subst card_Un_disjoint) auto
  moreover have "card (block_pages a k \<union> P) \<le> 2 ^ 52"
    using s'(2,3) buddy_lists_ok card_pages_of_bound unfolding buddy_rel_def by metis
  ultimately have lt: "unat (total_frames s') + unat (push_bit k 1 :: usize) < 2 ^ LENGTH(64)"
    using B(4) s'(5) assms(2) by simp
  have "buddy_rel (s'\<lparr>total_frames := total_frames s' + push_bit k 1\<rparr>) B'"
    using s'(2) by (simp add: buddy_rel_def)
  then have "fresh_rel (s'\<lparr>total_frames := total_frames s' + push_bit k 1\<rparr>) (block_pages a k \<union> P)"
    using s'(3-5) c B(4) assms(2) unat_add_no_wrap [OF lt] by (auto simp: fresh_rel_def)
  with lt s'(1) show ?thesis by (auto simp: checked_add_def)
qed

lemma max_pages_eq:
  assumes "cur < range_end" and "unat cur = 4096 * c"
  shows "unat ((range_end - cur) div PAGE_SIZE) = unat range_end div 4096 - c"
proof -
  have "unat ((range_end - cur) div PAGE_SIZE) = (unat range_end - unat cur) div 4096"
    using assms(1) by (simp add: unat_div unat_sub PAGE_SIZE_def less_imp_le)
  then show ?thesis using assms(2) by simp
qed

lemma add_range_loop_spec:
  assumes "fresh_rel s P" and "aligned cur 0"
    and "{unat cur div 4096 ..< unat range_end div 4096} \<inter> P = {}"
  shows "\<exists>s'. add_range_loop s cur range_end = Some s'
    \<and> fresh_rel s' ({unat cur div 4096 ..< unat range_end div 4096} \<union> P)"
  using assms
proof (induction s cur range_end arbitrary: P rule: add_range_loop.induct)
  case (1 s cur range_end)
  let ?c = "unat cur div 4096" and ?e = "unat range_end div 4096"
  have cur: "unat cur = 4096 * ?c" using 1(3) by (auto simp: aligned_def)
  let ?m = "(range_end - cur) div PAGE_SIZE"
  consider (stop) "\<not> cur < range_end" | (small) "cur < range_end" "?m = 0" | (go) "cur < range_end" "?m \<noteq> 0"
    by blast
  then show ?case
  proof cases
    case stop
    then have "?e \<le> ?c" by (simp add: word_less_nat_alt div_le_mono)
    with stop 1(2) show ?thesis by (subst add_range_loop.simps) simp
  next
    case small
    have "unat ?m = ?e - ?c" using small(1) cur by (rule max_pages_eq)
    with small 1(2) show ?thesis by (subst add_range_loop.simps) simp
  next
    case go
    have m: "unat ?m = ?e - ?c" using go(1) cur by (rule max_pages_eq)
    let ?o = "pick_order ?m cur (MAX_ORDER - 1)"
    have "1 \<le> ?m" using go(2) by (simp add: word_le_nat_alt word_unat_eq_iff)
    then have po: "2 ^ ?o \<le> ?e - ?c" "aligned cur ?o"
      using pick_order_spec [OF 1(3), of ?m "MAX_ORDER - 1"] m by (auto simp: MAX_ORDER_def)
    have o: "?o \<le> 10" "?o < MAX_ORDER"
      using pick_order_le [of ?m cur "MAX_ORDER - 1"] by (simp_all add: MAX_ORDER_def)
    have bp: "block_pages cur ?o = {?c ..< ?c + 2 ^ ?o}" using cur by (rule block_pages_at)
    have "1 \<le> (2::nat) ^ ?o" by simp
    with po(1) have ce: "?c + 2 ^ ?o \<le> ?e" by linarith
    note iv = interval_split [OF ce 1(4), folded bp]
    obtain s1 t where s1: "deallocate_internal s (PhysFrame cur) ?o = Some s1"
      "checked_add (total_frames s1) (push_bit ?o 1) = Some t"
      "fresh_rel (s1\<lparr>total_frames := t\<rparr>) (block_pages cur ?o \<union> P)"
      using fresh_rel_add_block [OF 1(2) o(2) po(2) iv(1)] by blast
    have bs: "unat (block_size ?o) = 4096 * 2 ^ ?o" using o(1) by (simp add: unat_block_size power_add)
    have "4096 * (?c + 2 ^ ?o) \<le> 4096 * ?e" using ce by (rule mult_le_mono2)
    also have "\<dots> \<le> unat range_end" by simp
    finally have "4096 * (?c + 2 ^ ?o) \<le> unat range_end" .
    then have "unat cur + unat (block_size ?o) \<le> unat range_end" using cur bs by simp
    then have lt: "unat cur + unat (block_size ?o) < 2 ^ LENGTH(64)"
      using unsigned_less le_less_trans by blast
    let ?n = "cur + block_size ?o"
    have n: "checked_add cur (block_size ?o) = Some ?n" "unat ?n = 4096 * (?c + 2 ^ ?o)"
      using lt unat_add_no_wrap [OF lt] cur bs by (simp_all add: checked_add_def)
    then have c': "unat ?n div 4096 = ?c + 2 ^ ?o" and al: "aligned ?n 0"
      by (simp_all add: aligned_def)
    have dis: "{unat ?n div 4096 ..< ?e} \<inter> (block_pages cur ?o \<union> P) = {}"
      unfolding c' by (rule iv(2))
    have IH: "\<exists>s'. add_range_loop (s1\<lparr>total_frames := t\<rparr>) ?n range_end = Some s'
      \<and> fresh_rel s' ({unat ?n div 4096 ..< ?e} \<union> (block_pages cur ?o \<union> P))"
      using 1(1) [OF go(1) refl go(2) refl s1(1,2) n(1) s1(3) al dis] .
    have step: "add_range_loop s cur range_end
        = add_range_loop (s1\<lparr>total_frames := t\<rparr>) ?n range_end"
      using go s1(1,2) n(1) by (subst add_range_loop.simps) (simp add: Let_def)
    have "{unat ?n div 4096 ..< ?e} \<union> (block_pages cur ?o \<union> P) = {?c ..< ?e} \<union> P"
      unfolding c' by (rule iv(3))
    with IH step show ?thesis by simp
  qed
qed

lemma add_range_spec:
  assumes "fresh_rel s P" and "aligned range_start 0"
    and "({unat range_start div 4096 ..< unat range_end div 4096} - {0}) \<inter> P = {}"
  shows "\<exists>s'. add_range s range_start range_end = Some s'
    \<and> fresh_rel s' (({unat range_start div 4096 ..< unat range_end div 4096} - {0}) \<union> P)"
proof -
  let ?a = "if range_start = 0 then PAGE_SIZE else range_start"
  have al: "aligned ?a 0" using assms(2) by (simp add: aligned_def PAGE_SIZE_def)
  have "range_start \<noteq> 0 \<Longrightarrow> 0 < unat range_start div 4096"
    using assms(2) by (auto simp: aligned_def word_unat_eq_iff elim!: dvdE)
  then have pg: "{unat ?a div 4096 ..< unat range_end div 4096}
      = {unat range_start div 4096 ..< unat range_end div 4096} - {0}"
    by (auto simp: PAGE_SIZE_def)
  show ?thesis
  proof (cases "range_end \<le> range_start")
    case True
    then have "unat range_end div 4096 \<le> unat range_start div 4096"
      by (simp add: word_le_nat_alt div_le_mono)
    with True assms(1) show ?thesis by (simp add: add_range_def)
  next
    case False
    with add_range_loop_spec [OF assms(1) al, of range_end] assms(3) show ?thesis
      by (simp add: add_range_def pg)
  qed
qed

definition region_pages :: "u64 \<Rightarrow> u64 \<Rightarrow> u64 \<Rightarrow> u64 \<Rightarrow> nat set" where
  "region_pages kstart kend start_addr end_addr =
     {unat start_addr div 4096 ..< unat end_addr div 4096}
     - {unat kstart div 4096 ..< unat kend div 4096} - {0}"

lemma add_memory_region_spec:
  assumes "fresh_rel s P" and "aligned start_addr 0" and "aligned kstart 0" and "aligned kend 0"
    and "kstart \<le> kend" and "region_pages kstart kend start_addr end_addr \<inter> P = {}"
  shows "\<exists>s'. add_memory_region kstart kend s start_addr end_addr = Some s'
    \<and> fresh_rel s' (region_pages kstart kend start_addr end_addr \<union> P)"
proof -
  let ?s = "unat start_addr div 4096" and ?e = "unat end_addr div 4096"
    and ?ks = "unat kstart div 4096" and ?ke = "unat kend div 4096"
  have k: "?ks \<le> ?ke" using assms(5) by (simp add: word_le_nat_alt div_le_mono)
  have mn: "unat (min end_addr kstart) div 4096 = min ?e ?ks"
    by (simp add: unat_min min_div_nat)
  have mx: "unat (max start_addr kend) div 4096 = max ?s ?ke"
    by (simp add: unat_max max_div_nat)
  have al: "aligned (max start_addr kend) 0" using assms(2,4) by (simp add: max_def)
  let ?A = "{?s ..< min ?e ?ks} - {0}" and ?C = "{max ?s ?ke ..< ?e} - {0}"
  have R: "region_pages kstart kend start_addr end_addr = ?C \<union> ?A"
    unfolding region_pages_def interval_hole [OF k] by blast
  have "?A \<inter> P = {}" using assms(6) R by blast
  then obtain s1 where s1: "add_range s start_addr (min end_addr kstart) = Some s1"
    "fresh_rel s1 (?A \<union> P)" 
    using add_range_spec [OF assms(1,2), of "min end_addr kstart", unfolded mn] by blast
  have "?C \<inter> ?A = {}" using k by auto
  then have "?C \<inter> (?A \<union> P) = {}" using assms(6) R by blast
  then obtain s2 where "add_range s1 (max start_addr kend) end_addr = Some s2"
    "fresh_rel s2 (?C \<union> (?A \<union> P))" 
    using add_range_spec [OF s1(2) al, of end_addr, unfolded mx] by blast
  with s1(1) R show ?thesis by (simp add: add_memory_region_def Un_assoc)
qed

text \<open>The pages a region of the memory map contributes.\<close>

definition usable_pages :: "u64 \<Rightarrow> u64 \<Rightarrow> memory_region \<Rightarrow> nat set" where
  "usable_pages kstart kend r =
     (if mr_kind r = Usable then
        {(unat (mr_start r) + 4095) div 4096 ..< unat (mr_end r) div 4096}
        - {unat kstart div 4096 ..< unat kend div 4096} - {0}
      else {})"

fun regions_disjoint :: "u64 \<Rightarrow> u64 \<Rightarrow> nat set \<Rightarrow> memory_region list \<Rightarrow> bool" where
  "regions_disjoint kstart kend P [] \<longleftrightarrow> True"
| "regions_disjoint kstart kend P (r # rs) \<longleftrightarrow>
     usable_pages kstart kend r \<inter> P = {}
     \<and> regions_disjoint kstart kend (usable_pages kstart kend r \<union> P) rs"

lemma page_mask: "PAGE_SIZE - 1 = mask 12"
  by (simp add: PAGE_SIZE_def mask_eq_exp_minus_1)

lemma page_align_up:
  assumes "checked_add a PAGE_SIZE = Some up"
  shows "unat ((up - 1) AND NOT (PAGE_SIZE - 1)) div 4096 = (unat a + 4095) div 4096"
    and "aligned ((up - 1) AND NOT (PAGE_SIZE - 1)) 0"
proof -
  have up: "unat up = unat a + 4096" using checked_add_unat [OF assms] by (simp add: PAGE_SIZE_def)
  then have "1 \<le> up" by (simp add: word_le_nat_alt)
  with up have m: "unat (up - 1) = unat a + 4095" by (simp add: unat_sub)
  have "unat ((up - 1) AND NOT (PAGE_SIZE - 1)) = (unat a + 4095) - (unat a + 4095) mod 4096"
    unfolding page_mask by (simp add: unat_and_not_mask m)
  also have "\<dots> = 4096 * ((unat a + 4095) div 4096)" by (simp add: minus_mod_eq_mult_div)
  finally show "unat ((up - 1) AND NOT (PAGE_SIZE - 1)) div 4096 = (unat a + 4095) div 4096"
    and "aligned ((up - 1) AND NOT (PAGE_SIZE - 1)) 0" by (simp_all add: aligned_def)
qed

lemma page_align_down: "unat (a AND NOT (PAGE_SIZE - 1)) div 4096 = unat a div 4096"
proof -
  have "unat (a AND NOT (PAGE_SIZE - 1)) = 4096 * (unat a div 4096)"
    unfolding page_mask by (simp add: unat_and_not_mask minus_mod_eq_mult_div)
  then show ?thesis by simp
qed

lemma buddy_init_spec:
  assumes "fresh_rel s P" and "aligned kstart 0" and "aligned kend 0" and "kstart \<le> kend"
    and "\<forall>r \<in> set rs. mr_kind r = Usable \<longrightarrow> unat (mr_start r) + 4096 < 2 ^ 64"
    and "regions_disjoint kstart kend P rs"
  shows "\<exists>s'. buddy_init kstart kend s rs = Some s'
    \<and> fresh_rel s' (P \<union> (\<Union>r \<in> set rs. usable_pages kstart kend r))"
  using assms(1,5,6)
proof (induction rs arbitrary: s P)
  case Nil
  then show ?case by simp
next
  case (Cons r rs)
  show ?case
  proof (cases "mr_kind r = Usable")
    case False
    with Cons show ?thesis by (simp add: usable_pages_def)
  next
    case True
    with Cons.prems have "checked_add (mr_start r) PAGE_SIZE = Some (mr_start r + PAGE_SIZE)"
      by (simp add: checked_add_def PAGE_SIZE_def)
    then obtain up where up: "checked_add (mr_start r) PAGE_SIZE = Some up" ..
    let ?s = "(up - 1) AND NOT (PAGE_SIZE - 1)" and ?e = "mr_end r AND NOT (PAGE_SIZE - 1)"
    note u = page_align_up [OF up]
    have R: "region_pages kstart kend ?s ?e = usable_pages kstart kend r"
      unfolding region_pages_def usable_pages_def u(1) unfolding page_align_down using True by simp
    have "\<exists>s1. (if ?s < ?e then add_memory_region kstart kend s ?s ?e else Some s) = Some s1
      \<and> fresh_rel s1 (usable_pages kstart kend r \<union> P)"
    proof (cases "?s < ?e")
      case True
      with add_memory_region_spec [OF Cons.prems(1) u(2) assms(2-4), of ?e] Cons.prems(3) R
      show ?thesis by simp
    next
      case False
      then have "unat ?e div 4096 \<le> unat ?s div 4096" by (simp add: word_less_nat_alt div_le_mono)
      then have "usable_pages kstart kend r = {}" unfolding R [symmetric] region_pages_def by simp
      with False Cons.prems(1) show ?thesis by simp
    qed
    then obtain s1 where s1:
      "(if ?s < ?e then add_memory_region kstart kend s ?s ?e else Some s) = Some s1"
      "fresh_rel s1 (usable_pages kstart kend r \<union> P)" by blast
    with Cons.IH [OF s1(2)] Cons.prems(2,3) obtain s' where s':
      "buddy_init kstart kend s1 rs = Some s'"
      "fresh_rel s' (usable_pages kstart kend r \<union> P \<union> (\<Union>r \<in> set rs. usable_pages kstart kend r))"
      by auto
    have "buddy_init kstart kend s (r # rs) = Some s'"
      using True up s1(1) s'(1) by (simp add: Let_def)
    then show ?thesis using s'(2) by (simp add: ac_simps)
  qed
qed

section \<open>Completeness of the search\<close>

lemma block_pages_div:
  assumes "aligned a k"
  shows "block_pages a k = {p. p div 2 ^ k = unat a div 2 ^ (12 + k)}"
proof -
  obtain q where q: "unat a = 4096 * (2 ^ k * q)" using assms by (rule alignedE)
  have d: "unat a div 2 ^ (12 + k) = q" unfolding q by (simp add: power_add)
  have "p div 2 ^ k = q \<longleftrightarrow> 2 ^ k * q \<le> p \<and> p < 2 ^ k * q + 2 ^ k" for p
    by (rule div_eq_interval) simp
  then show ?thesis unfolding block_pages_at [OF q] d
    by (intro set_eqI) (simp only: mem_Collect_eq atLeastLessThan_iff)
qed

lemma block_pages_nested:
  assumes "aligned a k" and "aligned b j" and "k \<le> j" and "p \<in> block_pages a k" and "p \<in> block_pages b j"
  shows "block_pages a k \<subseteq> block_pages b j"
proof -
  have d: "x div 2 ^ j = (x div 2 ^ k) div 2 ^ (j - k)" for x :: nat
    using assms(3) by (simp flip: div_mult2_eq power_add)
  show ?thesis
    using assms(4,5) unfolding block_pages_div [OF assms(1)] block_pages_div [OF assms(2)]
    by (auto simp: d)
qed

lemma block_pages_same_order:
  assumes "aligned a k" and "aligned b k" and "p \<in> block_pages a k" and "p \<in> block_pages b k"
  shows "a = b"
proof -
  have "unat a div 2 ^ (12 + k) = unat b div 2 ^ (12 + k)"
    using assms(3,4) by (simp add: block_pages_div [OF assms(1)] block_pages_div [OF assms(2)])
  with assms(1,2) have "unat a = unat b" unfolding aligned_def by (metis dvd_div_mult_self)
  then show ?thesis by (simp add: word_unat_eq_iff)
qed

text \<open>
  A free, aligned run of \<open>2 ^ k\<close> pages always lies inside one free block of order at least \<open>k\<close>,
  because buddies that are both free have been merged.
\<close>

lemma coalesced_covers:
  assumes ok: "blocks_ok B" and co: "coalesced B" and "aligned a k" and "k < MAX_ORDER"
    and "block_pages a k \<subseteq> pages_of B"
  shows "\<exists>(b, j) \<in> B. k \<le> j \<and> block_pages a k \<subseteq> block_pages b j"
  using assms(3-5)
proof (induction k arbitrary: a)
  case 0
  have "unat a div 4096 \<in> pages_of B" using 0(3) start_in_block_pages by blast
  then obtain b j where b: "(b, j) \<in> B" "unat a div 4096 \<in> block_pages b j"
    by (auto simp: pages_of_def)
  then have "aligned b j" using ok by (auto simp: blocks_ok_def)
  then have "block_pages a 0 \<subseteq> block_pages b j"
    using b(2) by (intro block_pages_nested [OF 0(1) _ _ start_in_block_pages]) auto
  with b(1) show ?case by auto
next
  case (Suc k)
  then have k: "k < 10" "k < MAX_ORDER" by (auto simp: MAX_ORDER_def)
  let ?b = "a + block_size k"
  note sp = buddy_split [OF Suc.prems(1) k(1)]
  have half: "block_pages a k \<subseteq> pages_of B" "block_pages ?b k \<subseteq> pages_of B"
    using Suc.prems(3) unfolding sp(5) by auto
  obtain c j where c: "(c, j) \<in> B" "k \<le> j" "block_pages a k \<subseteq> block_pages c j"
    using Suc.IH [OF sp(3) k(2) half(1)] by blast
  obtain d i where d: "(d, i) \<in> B" "k \<le> i" "block_pages ?b k \<subseteq> block_pages d i"
    using Suc.IH [OF sp(2) k(2) half(2)] by blast
  have al: "aligned c j" "aligned d i" using ok c(1) d(1) by (auto simp: blocks_ok_def)
  have big: "\<exists>(b, j) \<in> B. Suc k \<le> j \<and> block_pages a (Suc k) \<subseteq> block_pages b j"
    if "(e, l) \<in> B" "Suc k \<le> l" "aligned e l" "p \<in> block_pages a (Suc k)" "p \<in> block_pages e l" for e l p
    using that block_pages_nested [OF Suc.prems(1) that(3,2,4,5)] by blast
  show ?case
  proof (cases "j = k \<and> i = k")
    case True
    then have "a = c" and "?b = d"
      using block_pages_same_order [OF sp(3) _ start_in_block_pages] c(3) al(1)
        block_pages_same_order [OF sp(2) _ start_in_block_pages] d(3) al(2)
        start_in_block_pages by blast+
    then have "(a, k) \<in> B" and "(a XOR block_size k, k) \<in> B" using c(1) d(1) True sp(6) by auto
    with co k(1) show ?thesis by (auto simp: coalesced_def MAX_ORDER_def)
  next
    case False
    then consider "Suc k \<le> j" | "Suc k \<le> i" using c(2) d(2) by fastforce
    then show ?thesis
    proof cases
      case 1
      with big [OF c(1) _ al(1)] c(3) sp(5) start_in_block_pages [of a k] show ?thesis by blast
    next
      case 2
      with big [OF d(1) _ al(2)] d(3) sp(5) start_in_block_pages [of ?b k] show ?thesis by blast
    qed
  qed
qed

section \<open>Properties\<close>

text \<open>\<^verbatim>\<open>PhysFrame\<close> derives \<^verbatim>\<open>Ord\<close>: frames are ordered by their start address.\<close>

instantiation phys_frame :: linorder
begin

definition less_eq_phys_frame :: "phys_frame \<Rightarrow> phys_frame \<Rightarrow> bool" where
  "less_eq_phys_frame f g \<longleftrightarrow> start_address f \<le> start_address g"

definition less_phys_frame :: "phys_frame \<Rightarrow> phys_frame \<Rightarrow> bool" where
  "less_phys_frame f g \<longleftrightarrow> start_address f < start_address g"

instance
  by standard (auto simp: less_eq_phys_frame_def less_phys_frame_def phys_frame.expand)

end

text \<open>A small allocator state used to instantiate the properties: pages 1 to 3 are free.\<close>

definition demo_buddy :: buddy_allocator where
  "demo_buddy = \<lparr>free_lists = Some 0x1000 # Some 0x2000 # replicate 9 None, total_frames = 3,
     free_frames = 3, next_of = (\<lambda>_. None)\<rparr>"

lemma demo_buddy_rel: "buddy_rel demo_buddy {(0x1000, 0), (0x2000, 1)}"
proof -
  let ?L = "\<lambda>k::nat. if k = 0 then [0x1000] else if k = 1 then [0x2000] else ([] :: u64 list)"
  have "lists_rel demo_buddy ?L"
    by (auto simp: lists_rel_def demo_buddy_def MAX_ORDER_def nth_Cons split: nat.split)
  moreover have "{(0x1000, 0), (0x2000, 1)} = blocks ?L" by (auto simp: blocks_def MAX_ORDER_def)
  moreover have bp: "block_pages 0x1000 0 = {1}" "block_pages 0x2000 (Suc 0) = {2, 3}"
    by (auto simp: block_pages_def)
  moreover have "blocks_ok {(0x1000, 0), (0x2000, 1)}"
    using bp by (auto simp: blocks_ok_def aligned_def MAX_ORDER_def)
  ultimately have "buddy_lists demo_buddy {(0x1000, 0), (0x2000, 1)}"
    unfolding buddy_lists_def by blast
  then show ?thesis using bp by (simp add: buddy_rel_def demo_buddy_def)
qed

lemma demo_buddy_invar: "buddy_invar demo_buddy" and demo_buddy_free: "free_page_set demo_buddy = {1, 2, 3}"
proof -
  have "coalesced {(0x1000, 0), (0x2000, 1)}"
    by (auto simp: coalesced_def block_size_def PAGE_SIZE_def)
  with demo_buddy_rel show "buddy_invar demo_buddy" by (auto simp: buddy_invar_def)
  show "free_page_set demo_buddy = {1, 2, 3}"
    unfolding free_page_set_eq [OF demo_buddy_rel] by (auto simp: block_pages_def)
qed



text \<open>
  C2: \<^verbatim>\<open>allocate\<close> never panics on a well-formed allocator. It answers \<^verbatim>\<open>InvalidOrder\<close> exactly for orders of
  eleven and more; it answers \<^verbatim>\<open>OutOfMemory\<close> only if no aligned run of \<open>2 ^ order\<close> pages is entirely free;
  otherwise it returns an aligned block of free pages, which are then no longer free, and errors
  leave the allocator unchanged.
\<close>

theorem allocate_correct:
  assumes "buddy_invar s"
  shows "\<exists>r s'. allocate s order = Some (r, s') \<and>
    (case r of
       Inr f \<Rightarrow> unat order < MAX_ORDER \<and> frame_aligned f order \<and> frame_pages f order \<subseteq> free_page_set s
         \<and> buddy_invar s' \<and> free_page_set s' = free_page_set s - frame_pages f order
     | Inl InvalidOrder \<Rightarrow> MAX_ORDER \<le> unat order \<and> s' = s
     | Inl OutOfMemory \<Rightarrow> unat order < MAX_ORDER \<and> s' = s
         \<and> \<not> (\<exists>f. frame_aligned f order \<and> frame_pages f order \<subseteq> free_page_set s))"
proof -
  obtain B where B: "buddy_rel s B" "coalesced B" "free_page_set s = pages_of B"
    using assms by (rule buddy_invarE)
  have ok: "blocks_ok B" using B(1) by (auto simp: buddy_rel_def buddy_lists_def)
  obtain r s' where rs: "allocate s order = Some (r, s')" using buddy.alloc_total [OF assms] by blast
  show ?thesis
  proof (cases r)
    case (Inr f)
    with buddy.alloc_frame [OF assms, of order f s'] rs show ?thesis by auto
  next
    case (Inl e)
    with rs allocate_cases [OF B(1), of order]
    consider (inv) "MAX_ORDER \<le> unat order" "e = InvalidOrder" "s' = s"
      | (oom) "unat order < MAX_ORDER" "e = OutOfMemory" "s' = s" "\<not> (\<exists>(a, j) \<in> B. unat order \<le> j)"
      by (fastforce split: if_splits)
    then show ?thesis
    proof cases
      case inv
      with rs Inl show ?thesis by simp
    next
      case oom
      have "\<not> (frame_aligned f order \<and> frame_pages f order \<subseteq> pages_of B)" for f
        using coalesced_covers [OF ok B(2) _ oom(1)] oom(4)
        by (auto simp: frame_aligned_def frame_pages_def)
      with rs Inl oom B(3) show ?thesis by simp
    qed
  qed
qed

theorem allocate_correct_witness:
  "\<exists>f s'. allocate demo_buddy 1 = Some (Inr f, s') \<and> frame_pages f 1 \<subseteq> {1, 2, 3}
     \<and> free_page_set s' = {1, 2, 3} - frame_pages f 1"
proof -
  have "allocate demo_buddy 1 = Some (Inr (PhysFrame 0x2000), snd (the (allocate demo_buddy 1)))"
    by (simp add: allocate_def allocate_from.simps demo_buddy_def MAX_ORDER_def checked_sub_def Let_def)
  with allocate_correct [OF demo_buddy_invar, of 1] show ?thesis unfolding demo_buddy_free by auto
qed

text \<open>
  C3: Releasing an aligned block none of whose pages is free returns normally, makes exactly its
  pages free in addition, keeps the allocator well-formed and fully merged, and leaves
  \<^verbatim>\<open>total_frames\<close> alone; an order of eleven or more is ignored.
\<close>

theorem deallocate_correct:
  assumes "buddy_invar s" and "frame_aligned f order" and "frame_pages f order \<inter> free_page_set s = {}"
  shows "\<exists>s'. deallocate s f order = Some s' \<and> buddy_invar s' \<and> total_frames s' = total_frames s
    \<and> free_page_set s' =
        (if unat order < MAX_ORDER then frame_pages f order \<union> free_page_set s else free_page_set s)"
proof (cases "unat order < MAX_ORDER")
  case False
  with assms(1) show ?thesis by (simp add: deallocate_def)
next
  case True
  obtain B where B: "buddy_rel s B" "coalesced B" "free_page_set s = pages_of B"
    using assms(1) by (rule buddy_invarE)
  with deallocate_spec [OF B(1) True assms(2)] assms(3) True show ?thesis
    by (auto simp: buddy_invar_def free_page_set_eq)
qed

theorem deallocate_correct_witness:
  "\<exists>s'. deallocate demo_buddy (PhysFrame 0) 0 = Some s' \<and> buddy_invar s'
     \<and> free_page_set s' = {0} \<union> {1, 2, 3}"
proof -
  have "frame_aligned (PhysFrame 0) 0" and p: "frame_pages (PhysFrame 0) 0 = {0}"
    by (auto simp: frame_aligned_def aligned_def frame_pages_def block_pages_def)
  then show ?thesis
    using deallocate_correct [OF demo_buddy_invar, of "PhysFrame 0" 0] demo_buddy_free
    by (auto simp: MAX_ORDER_def)
qed

text \<open>Releasing a block right after its allocation gives back the original set of free pages.\<close>

lemma allocate_deallocate_roundtrip:
  assumes "buddy_invar s" and "allocate s order = Some (Inr f, s')"
  shows "\<exists>s''. deallocate s' f order = Some s'' \<and> buddy_invar s'' \<and> free_page_set s'' = free_page_set s"
  using assms by (rule buddy.alloc_dealloc_roundtrip)

text \<open>
  C4: Started on an empty allocator with a memory map whose usable regions do not overlap, \<^verbatim>\<open>init\<close>
  manages exactly the whole pages of the usable regions, without page 0 and without the pages of
  the kernel image, and both counters equal their number.
\<close>

theorem init_manages_usable_memory:
  assumes "aligned kstart 0" and "aligned kend 0" and "kstart \<le> kend"
    and "\<forall>r \<in> set memory_map. mr_kind r = Usable \<longrightarrow> unat (mr_start r) + 4096 < 2 ^ 64"
    and "regions_disjoint kstart kend {} memory_map"
  shows "\<exists>s. buddy_init kstart kend (buddy_new memory) memory_map = Some s \<and> buddy_invar s
    \<and> free_page_set s = (\<Union>r \<in> set memory_map. usable_pages kstart kend r)
    \<and> unat (free_frames s) = card (free_page_set s) \<and> unat (total_frames s) = card (free_page_set s)"
proof -
  obtain s where s: "buddy_init kstart kend (buddy_new memory) memory_map = Some s"
    and fr: "fresh_rel s (\<Union>r \<in> set memory_map. usable_pages kstart kend r)"
    using buddy_init_spec [OF fresh_rel_new assms] by auto
  from fr obtain B where "buddy_rel s B" "coalesced B"
      "(\<Union>r \<in> set memory_map. usable_pages kstart kend r) = pages_of B"
      "unat (total_frames s) = card (\<Union>r \<in> set memory_map. usable_pages kstart kend r)"
    by (rule fresh_relE)
  with s show ?thesis by (auto simp: buddy_invar_def buddy_rel_def free_page_set_eq)
qed

theorem init_manages_usable_memory_witness:
  "\<exists>s. buddy_init 0x100000 0x200000 (buddy_new (\<lambda>_. None))
      [\<lparr>mr_start = 0, mr_end = 0x9FC00, mr_kind = Usable\<rparr>,
       \<lparr>mr_start = 0x100000, mr_end = 0x8000000, mr_kind = Usable\<rparr>] = Some s
    \<and> free_page_set s = {1 ..< 0x9F} \<union> {0x200 ..< 0x8000}"
proof -
  let ?m = "[\<lparr>mr_start = 0, mr_end = 0x9FC00, mr_kind = Usable\<rparr>,
       \<lparr>mr_start = 0x100000, mr_end = 0x8000000, mr_kind = Usable\<rparr>]"
  have u: "usable_pages 0x100000 0x200000 (?m ! 0) = {1 ..< 0x9F}"
    "usable_pages 0x100000 0x200000 (?m ! 1) = {0x200 ..< 0x8000}"
    by (auto simp: usable_pages_def)
  have d: "regions_disjoint 0x100000 0x200000 {} ?m" using u by auto
  have "\<exists>s. buddy_init 0x100000 0x200000 (buddy_new (\<lambda>_. None)) ?m = Some s
    \<and> free_page_set s = (\<Union>r \<in> set ?m. usable_pages 0x100000 0x200000 r)"
    using init_manages_usable_memory [OF _ _ _ _ d, of "\<lambda>_. None"] by (auto simp: aligned_def)
  then show ?thesis using u by auto
qed

text \<open>The pointer walk of \<^verbatim>\<open>remove_from_list\<close> always returns on well-formed lists, reports whether the
  block was on the list of that order, and unlinks exactly that block, whatever its position,
  while every other list and both counters stay as they were.\<close>

lemma remove_from_list_unlinks:
  assumes "lists_rel s L" and "lists_separate L" and "k < MAX_ORDER"
  shows "\<exists>s'. remove_from_list s k b = Some (b \<in> set (L k), s') \<and> lists_rel s' (L(k := remove1 b (L k)))
    \<and> free_frames s' = free_frames s \<and> total_frames s' = total_frames s"
  using assms by (rule remove_from_list_spec)

end
