(* ===== verification/Paging.thy ===== *)
theory Paging
  imports Physical
begin

text \<open>
  Four-level paging (\<^verbatim>\<open>hammam/src/mm/paging.rs\<close>): entries, index functions, \<^verbatim>\<open>map_page\<close> with the creation of
  intermediate tables and the splitting of 2 MiB pages, \<^verbatim>\<open>unmap_page\<close>, \<^verbatim>\<open>translate\<close> and \<^verbatim>\<open>translate_flags\<close>.
  Tables live in a store from frame addresses to their 512 entries. The abstract view of an address
  space is a partial function from virtual addresses to a physical address and flags; the theory proves that
  the operations implement updates of that function at one page.
\<close>

section \<open>Entries\<close>

type_synonym page_flags = u64

definition PRESENT :: page_flags where "PRESENT = push_bit 0 1"
definition WRITABLE :: page_flags where "WRITABLE = push_bit 1 1"
definition USER_ACCESSIBLE :: page_flags where "USER_ACCESSIBLE = push_bit 2 1"
definition WRITE_THROUGH :: page_flags where "WRITE_THROUGH = push_bit 3 1"
definition CACHE_DISABLE :: page_flags where "CACHE_DISABLE = push_bit 4 1"
definition ACCESSED :: page_flags where "ACCESSED = push_bit 5 1"
definition DIRTY :: page_flags where "DIRTY = push_bit 6 1"
definition HUGE_PAGE :: page_flags where "HUGE_PAGE = push_bit 7 1"
definition GLOBAL :: page_flags where "GLOBAL = push_bit 8 1"
definition NO_EXECUTE :: page_flags where "NO_EXECUTE = push_bit 63 1"

text \<open>\<^verbatim>\<open>from_bits_truncate\<close> keeps the named bits; \<^verbatim>\<open>contains\<close> asks for all bits of its argument.\<close>

definition all_flags :: page_flags where
  "all_flags = PRESENT OR WRITABLE OR USER_ACCESSIBLE OR WRITE_THROUGH OR CACHE_DISABLE OR ACCESSED
     OR DIRTY OR HUGE_PAGE OR GLOBAL OR NO_EXECUTE"

definition from_bits_truncate :: "u64 \<Rightarrow> page_flags" where
  "from_bits_truncate b = b AND all_flags"

definition contains :: "page_flags \<Rightarrow> page_flags \<Rightarrow> bool" where
  "contains fl x \<longleftrightarrow> fl AND x = x"

type_synonym page_table_entry = u64

definition entry_new :: page_table_entry where
  "entry_new = 0"

definition is_unused :: "page_table_entry \<Rightarrow> bool" where
  "is_unused e \<longleftrightarrow> e = 0"

definition flags :: "page_table_entry \<Rightarrow> page_flags" where
  "flags e = from_bits_truncate e"

definition FRAME_MASK :: u64 where
  "FRAME_MASK = 0x000FFFFFFFFFF000"

definition frame :: "page_table_entry \<Rightarrow> phys_frame option" where
  "frame e = (if contains (flags e) PRESENT then Some (PhysFrame (e AND FRAME_MASK)) else None)"

definition set_frame :: "phys_frame \<Rightarrow> page_flags \<Rightarrow> page_table_entry" where
  "set_frame f fl = (start_address f AND FRAME_MASK) OR fl"

section \<open>Tables\<close>

type_synonym page_tables = "u64 \<Rightarrow> nat \<Rightarrow> page_table_entry"

definition zero :: "(nat \<Rightarrow> page_table_entry) \<Rightarrow> nat \<Rightarrow> page_table_entry" where
  "zero table = (\<lambda>i. if i < 512 then entry_new else table i)"

datatype map_error = FrameAllocationFailed | AlreadyMapped

datatype unmap_error = NotMapped

definition pml4_index :: "u64 \<Rightarrow> nat" where
  "pml4_index virt = unat (drop_bit 39 virt AND 0x1FF)"

definition pdpt_index :: "u64 \<Rightarrow> nat" where
  "pdpt_index virt = unat (drop_bit 30 virt AND 0x1FF)"

definition pd_index :: "u64 \<Rightarrow> nat" where
  "pd_index virt = unat (drop_bit 21 virt AND 0x1FF)"

definition pt_index :: "u64 \<Rightarrow> nat" where
  "pt_index virt = unat (drop_bit 12 virt AND 0x1FF)"

text \<open>
  The memory management state: the tables, the control register and the allocator. The allocator's own
  store describes free pages only, so that writes to tables, which lie in allocated pages, do not touch it.
\<close>

record vm =
  tables :: page_tables
  cr3 :: u64
  allocator :: buddy_allocator

definition active_pml4 :: "vm \<Rightarrow> phys_frame" where
  "active_pml4 v = PhysFrame (cr3 v AND FRAME_MASK)"

definition get_table :: "vm \<Rightarrow> phys_frame \<Rightarrow> nat \<Rightarrow> page_table_entry" where
  "get_table v f = tables v (start_address f)"

definition put_table :: "vm \<Rightarrow> phys_frame \<Rightarrow> (nat \<Rightarrow> page_table_entry) \<Rightarrow> vm" where
  "put_table v f t = v\<lparr>tables := (tables v)(start_address f := t)\<rparr>"

definition put_entry :: "vm \<Rightarrow> phys_frame \<Rightarrow> nat \<Rightarrow> page_table_entry \<Rightarrow> vm" where
  "put_entry v f i e = put_table v f ((get_table v f)(i := e))"

section \<open>Mapping\<close>

definition alloc_table :: "vm \<Rightarrow> ((map_error + phys_frame) \<times> vm) option" where
  "alloc_table v =
     do {
       (r, a) \<leftarrow> allocate (allocator v) 0;
       Some (case r of Inl _ \<Rightarrow> Inl FrameAllocationFailed | Inr f \<Rightarrow> Inr f, v\<lparr>allocator := a\<rparr>)
     }"

definition TABLE_FLAGS :: page_flags where
  "TABLE_FLAGS = PRESENT OR WRITABLE OR USER_ACCESSIBLE"

text \<open>The table below entry \<open>i\<close> of a table, created if it is missing; the three levels share this code.\<close>

definition next_table :: "vm \<Rightarrow> phys_frame \<Rightarrow> nat \<Rightarrow> ((map_error + phys_frame) \<times> vm) option" where
  "next_table v t i =
     (if contains (flags (get_table v t i)) PRESENT then
        do { f \<leftarrow> frame (get_table v t i); Some (Inr f, v) }
      else
        do {
          (r, v1) \<leftarrow> alloc_table v;
          (case r of
             Inl e \<Rightarrow> Some (Inl e, v1)
           | Inr f \<Rightarrow>
               let v2 = put_table v1 f (zero (get_table v1 f)) in
               Some (Inr f, put_entry v2 t i (set_frame f TABLE_FLAGS)))
        })"

definition split_table :: "u64 \<Rightarrow> page_flags \<Rightarrow> (nat \<Rightarrow> page_table_entry) \<Rightarrow> nat \<Rightarrow> page_table_entry" where
  "split_table huge_phys huge_flags pt =
     (\<lambda>i. if i < 512 then set_frame (PhysFrame (huge_phys + of_nat (i * 0x1000))) huge_flags else pt i)"

definition split_huge :: "vm \<Rightarrow> phys_frame \<Rightarrow> nat \<Rightarrow> ((map_error + unit) \<times> vm) option" where
  "split_huge v pd i =
     (if contains (flags (get_table v pd i)) PRESENT \<and> contains (flags (get_table v pd i)) HUGE_PAGE then
        do {
          huge \<leftarrow> frame (get_table v pd i);
          (r, v1) \<leftarrow> alloc_table v;
          (case r of
             Inl e \<Rightarrow> Some (Inl e, v1)
           | Inr pt_frame \<Rightarrow>
               let huge_flags = flags (get_table v1 pd i) AND from_bits_truncate (NOT HUGE_PAGE);
                   v2 = put_table v1 pt_frame
                          (split_table (start_address huge) huge_flags (get_table v1 pt_frame))
               in Some (Inr (), put_entry v2 pd i (set_frame pt_frame TABLE_FLAGS)))
        }
      else Some (Inr (), v))"

definition map_page :: "vm \<Rightarrow> u64 \<Rightarrow> phys_frame \<Rightarrow> page_flags \<Rightarrow> ((map_error + unit) \<times> vm) option" where
  "map_page v virt phys fl =
     do {
       (r1, v1) \<leftarrow> next_table v (active_pml4 v) (pml4_index virt);
       (case r1 of Inl e \<Rightarrow> Some (Inl e, v1) | Inr pdpt \<Rightarrow>
         do {
           (r2, v2) \<leftarrow> next_table v1 pdpt (pdpt_index virt);
           (case r2 of Inl e \<Rightarrow> Some (Inl e, v2) | Inr pd \<Rightarrow>
             do {
               (r3, v3) \<leftarrow> split_huge v2 pd (pd_index virt);
               (case r3 of Inl e \<Rightarrow> Some (Inl e, v3) | Inr _ \<Rightarrow>
                 do {
                   (r4, v4) \<leftarrow> next_table v3 pd (pd_index virt);
                   (case r4 of Inl e \<Rightarrow> Some (Inl e, v4) | Inr pt \<Rightarrow>
                     Some (Inr (), put_entry v4 pt (pt_index virt) (set_frame phys (fl OR PRESENT))))
                 })
             })
         })
     }"

section \<open>Unmapping and translation\<close>

text \<open>The check and descent through one entry that \<^verbatim>\<open>unmap_page\<close> and the translations repeat.\<close>

definition descend :: "vm \<Rightarrow> phys_frame \<Rightarrow> nat \<Rightarrow> phys_frame option" where
  "descend v t i = (if contains (flags (get_table v t i)) PRESENT then frame (get_table v t i) else None)"

definition unmap_page :: "vm \<Rightarrow> u64 \<Rightarrow> (unmap_error + phys_frame) \<times> vm" where
  "unmap_page v virt =
     (case descend v (active_pml4 v) (pml4_index virt) of
        None \<Rightarrow> (Inl NotMapped, v)
      | Some pdpt \<Rightarrow>
          (case descend v pdpt (pdpt_index virt) of
             None \<Rightarrow> (Inl NotMapped, v)
           | Some pd \<Rightarrow>
               (case descend v pd (pd_index virt) of
                  None \<Rightarrow> (Inl NotMapped, v)
                | Some pt \<Rightarrow>
                    (case descend v pt (pt_index virt) of
                       None \<Rightarrow> (Inl NotMapped, v)
                     | Some f \<Rightarrow> (Inr f, put_entry v pt (pt_index virt) entry_new)))))"

definition translate_flags :: "vm \<Rightarrow> u64 \<Rightarrow> page_flags option" where
  "translate_flags v virt =
     do {
       pdpt \<leftarrow> descend v (active_pml4 v) (pml4_index virt);
       pd \<leftarrow> descend v pdpt (pdpt_index virt);
       if contains (flags (get_table v pdpt (pdpt_index virt))) HUGE_PAGE
         then Some (flags (get_table v pdpt (pdpt_index virt)))
       else do {
         pt \<leftarrow> descend v pd (pd_index virt);
         if contains (flags (get_table v pd (pd_index virt))) HUGE_PAGE
           then Some (flags (get_table v pd (pd_index virt)))
         else if contains (flags (get_table v pt (pt_index virt))) PRESENT
           then Some (flags (get_table v pt (pt_index virt)))
         else None
       }
     }"

definition translate :: "vm \<Rightarrow> u64 \<Rightarrow> u64 option" where
  "translate v virt =
     do {
       pdpt \<leftarrow> descend v (active_pml4 v) (pml4_index virt);
       pd \<leftarrow> descend v pdpt (pdpt_index virt);
       pt \<leftarrow> descend v pd (pd_index virt);
       if contains (flags (get_table v pd (pd_index virt))) HUGE_PAGE
         then Some (start_address pt + (virt AND 0x001FFFFF))
       else do {
         f \<leftarrow> descend v pt (pt_index virt);
         Some (start_address f + (virt AND 0xFFF))
       }
     }"

section \<open>Facts on entries\<close>

lemma all_flags_eq: "all_flags = 0x80000000000001FF"
  by (simp add: all_flags_def PRESENT_def WRITABLE_def USER_ACCESSIBLE_def WRITE_THROUGH_def
      CACHE_DISABLE_def ACCESSED_def DIRTY_def HUGE_PAGE_def GLOBAL_def NO_EXECUTE_def)

lemma mask_disjoint: "FRAME_MASK AND all_flags = 0" "all_flags AND FRAME_MASK = 0"
  by (simp_all add: FRAME_MASK_def all_flags_eq)

lemma flag_bits [simp]: "PRESENT AND all_flags = PRESENT" "HUGE_PAGE AND all_flags = HUGE_PAGE"
  "TABLE_FLAGS AND all_flags = TABLE_FLAGS"
  by (simp_all add: all_flags_eq PRESENT_def HUGE_PAGE_def TABLE_FLAGS_def WRITABLE_def USER_ACCESSIBLE_def)

abbreviation present :: "page_table_entry \<Rightarrow> bool" where
  "present e \<equiv> contains (flags e) PRESENT"

abbreviation huge :: "page_table_entry \<Rightarrow> bool" where
  "huge e \<equiv> contains (flags e) HUGE_PAGE"

abbreviation target :: "page_table_entry \<Rightarrow> u64" where
  "target e \<equiv> e AND FRAME_MASK"

definition valid_flags :: "page_flags \<Rightarrow> bool" where
  "valid_flags fl \<longleftrightarrow> fl AND all_flags = fl"

definition valid_frame :: "u64 \<Rightarrow> bool" where
  "valid_frame a \<longleftrightarrow> a AND FRAME_MASK = a"

lemma flags_set_frame: "valid_flags fl \<Longrightarrow> flags (set_frame f fl) = fl"
  by (simp add: flags_def from_bits_truncate_def set_frame_def valid_flags_def
      bit.conj_disj_distrib2 and.assoc mask_disjoint)

lemma target_set_frame:
  assumes "valid_flags fl"
  shows "target (set_frame f fl) = start_address f AND FRAME_MASK"
proof -
  have "fl AND FRAME_MASK = fl AND (all_flags AND FRAME_MASK)"
    using assms by (simp add: valid_flags_def flip: and.assoc)
  then have "fl AND FRAME_MASK = 0" by (simp add: mask_disjoint)
  then show ?thesis by (simp add: set_frame_def bit.conj_disj_distrib2 and.assoc)
qed

lemma present_zero [simp]: "\<not> present 0" "\<not> huge 0"
  by (simp_all add: contains_def flags_def from_bits_truncate_def PRESENT_def HUGE_PAGE_def)

lemma table_flags_bits: "contains TABLE_FLAGS PRESENT" "\<not> contains TABLE_FLAGS HUGE_PAGE" "valid_flags TABLE_FLAGS"
  by (simp_all add: contains_def TABLE_FLAGS_def PRESENT_def WRITABLE_def USER_ACCESSIBLE_def HUGE_PAGE_def
      valid_flags_def all_flags_eq)

lemma frame_present: "present e \<Longrightarrow> frame e = Some (PhysFrame (target e))"
  by (simp add: frame_def)

lemma index_bound: "unat (x AND 0x1FF :: u64) < 512"
proof -
  have "x AND 0x1FF \<le> 0x1FF" by (rule word_and_le1)
  then show ?thesis by (simp add: word_le_nat_alt)
qed

lemma indices_bound [simp]:
  "pml4_index a < 512" "pdpt_index a < 512" "pd_index a < 512" "pt_index a < 512"
  by (simp_all only: pml4_index_def pdpt_index_def pd_index_def pt_index_def index_bound)

section \<open>The tree of tables\<close>

text \<open>
  A path is a list of at most three indices. \<open>walk\<close> follows it from a table at depth \<open>d\<close>; an entry of a page
  directory (depth 2) with the huge bit has no table below it. Paths lead to distinct tables, which
  lie outside the free pages.
\<close>

definition child :: "nat \<Rightarrow> page_table_entry \<Rightarrow> u64 option" where
  "child d e = (if present e \<and> \<not> (d = 2 \<and> huge e) then Some (target e) else None)"

fun walk :: "page_tables \<Rightarrow> nat \<Rightarrow> u64 \<Rightarrow> nat list \<Rightarrow> u64 option" where
  "walk tb d t [] = Some t"
| "walk tb d t (i # is) = (case child d (tb t i) of None \<Rightarrow> None | Some t' \<Rightarrow> walk tb (Suc d) t' is)"

lemma walk_snoc:
  "walk tb d t (p @ [i]) = (case walk tb d t p of None \<Rightarrow> None | Some t' \<Rightarrow> child (d + length p) (tb t' i))"
  by (induction p arbitrary: d t) (auto split: option.splits)

definition valid_path :: "nat list \<Rightarrow> bool" where
  "valid_path p \<longleftrightarrow> length p \<le> 3 \<and> (\<forall>i \<in> set p. i < 512)"

lemma valid_path_snoc: "valid_path (p @ [i]) \<longleftrightarrow> valid_path p \<and> length p \<le> 2 \<and> i < 512"
  by (auto simp: valid_path_def)

abbreviation root :: "vm \<Rightarrow> u64" where
  "root v \<equiv> start_address (active_pml4 v)"

abbreviation table_at :: "vm \<Rightarrow> nat list \<Rightarrow> u64 option" where
  "table_at v p \<equiv> walk (tables v) 0 (root v) p"

definition tree_ok :: "page_tables \<Rightarrow> u64 \<Rightarrow> nat set \<Rightarrow> bool" where
  "tree_ok tb r free \<longleftrightarrow>
     (\<forall>p q t. valid_path p \<longrightarrow> valid_path q \<longrightarrow> walk tb 0 r p = Some t \<longrightarrow> walk tb 0 r q = Some t \<longrightarrow> p = q)
     \<and> (\<forall>p t. valid_path p \<longrightarrow> walk tb 0 r p = Some t \<longrightarrow> unat t div 4096 \<notin> free)
     \<and> (\<forall>p t i. valid_path p \<longrightarrow> length p = 2 \<longrightarrow> walk tb 0 r p = Some t \<longrightarrow> i < 512 \<longrightarrow> present (tb t i)
          \<longrightarrow> huge (tb t i) \<longrightarrow> unat (target (tb t i)) + 0x200000 \<le> 2 ^ 52)"

lemma tree_inj: "tree_ok tb r F \<Longrightarrow> valid_path p \<Longrightarrow> valid_path q \<Longrightarrow> walk tb 0 r p = Some t
    \<Longrightarrow> walk tb 0 r q = Some t \<Longrightarrow> p = q"
  unfolding tree_ok_def by blast

lemma tree_used: "tree_ok tb r F \<Longrightarrow> valid_path p \<Longrightarrow> walk tb 0 r p = Some t \<Longrightarrow> unat t div 4096 \<notin> F"
  unfolding tree_ok_def by blast

lemma tree_huge: "tree_ok tb r F \<Longrightarrow> valid_path p \<Longrightarrow> length p = 2 \<Longrightarrow> walk tb 0 r p = Some t \<Longrightarrow> i < 512
    \<Longrightarrow> present (tb t i) \<Longrightarrow> huge (tb t i) \<Longrightarrow> unat (target (tb t i)) + 0x200000 \<le> 2 ^ 52"
  unfolding tree_ok_def by blast

text \<open>A write to a page table proper, at depth 3, changes no walk.\<close>

lemma walk_leaf_write:
  assumes ok: "tree_ok tb r F" and p0: "valid_path p0" "length p0 = 3" "walk tb 0 r p0 = Some t0"
    and p: "valid_path p"
  shows "walk (tb(t0 := (tb t0)(i0 := e))) 0 r p = walk tb 0 r p"
  using p
proof (induction p rule: rev_induct)
  case (snoc i q)
  have q: "valid_path q" "length q \<le> 2" using snoc.prems by (auto simp: valid_path_snoc)
  show ?case
  proof (cases "walk tb 0 r q")
    case None
    then show ?thesis using snoc.IH [OF q(1)] by (simp add: walk_snoc)
  next
    case (Some t)
    have "t \<noteq> t0" using tree_inj [OF ok q(1) p0(1) Some] p0 q by auto
    then show ?thesis using snoc.IH [OF q(1)] Some by (simp add: walk_snoc)
  qed
qed simp

text \<open>Attaching a new table \<open>f\<close>, empty unless it is a page table proper, below entry \<open>i0\<close> of \<open>t0\<close>.\<close>

lemma walk_attach:
  assumes ok: "tree_ok tb r F" and p0: "valid_path p0" "length p0 \<le> 2" "walk tb 0 r p0 = Some t0"
    and i0: "i0 < 512" "child (length p0) (tb t0 i0) = None" and e: "child (length p0) e = Some f"
    and f: "unat f div 4096 \<in> F" and g: "length p0 < 2 \<longrightarrow> (\<forall>i < 512. \<not> present (g i))"
    and p: "valid_path p"
  shows "walk (tb(f := g, t0 := (tb t0)(i0 := e))) 0 r p
    = (if p = p0 @ [i0] then Some f else walk tb 0 r p)"
  using p
proof (induction p rule: rev_induct)
  case (snoc i q)
  let ?tb = "tb(f := g, t0 := (tb t0)(i0 := e))"
  have q: "valid_path q" "length q \<le> 2" "i < 512" using snoc.prems by (auto simp: valid_path_snoc)
  note IH = snoc.IH [OF q(1)]
  have ft: "f \<noteq> t0" using tree_used [OF ok p0(1,3)] f by auto
  show ?case
  proof (cases "q = p0 @ [i0]")
    case True
    then have "\<not> present (g i)" using g q by auto
    moreover have w: "walk ?tb 0 r q = Some f" using IH unfolding if_P [OF True] .
    ultimately have new: "walk ?tb 0 r (q @ [i]) = None"
      unfolding walk_snoc w using ft by (simp add: child_def)
    have o: "walk tb 0 r q = None" unfolding True walk_snoc p0(3) using i0 by simp
    have old: "walk tb 0 r (q @ [i]) = None" unfolding walk_snoc o by simp
    have "q @ [i] \<noteq> p0 @ [i0]" using True by simp
    then show ?thesis unfolding new old by simp
  next
    case False
    show ?thesis
    proof (cases "walk tb 0 r q")
      case None
      then have "q @ [i] \<noteq> p0 @ [i0]" using p0 by auto
      then show ?thesis using IH None False by (simp add: walk_snoc)
    next
      case (Some t)
      have "t \<noteq> f" using tree_used [OF ok q(1) Some] f by auto
      moreover have "t = t0 \<longleftrightarrow> q = p0" using tree_inj [OF ok q(1) p0(1) Some] p0(3) Some by auto
      ultimately show ?thesis using IH Some False e by (auto simp: walk_snoc)
    qed
  qed
qed simp

lemma tree_okI:
  assumes "\<And>p q t. valid_path p \<Longrightarrow> valid_path q \<Longrightarrow> walk tb 0 r p = Some t \<Longrightarrow> walk tb 0 r q = Some t \<Longrightarrow> p = q"
    and "\<And>p t. valid_path p \<Longrightarrow> walk tb 0 r p = Some t \<Longrightarrow> unat t div 4096 \<notin> F"
    and "\<And>p t i. valid_path p \<Longrightarrow> length p = 2 \<Longrightarrow> walk tb 0 r p = Some t \<Longrightarrow> i < 512 \<Longrightarrow> present (tb t i)
      \<Longrightarrow> huge (tb t i) \<Longrightarrow> unat (target (tb t i)) + 0x200000 \<le> 2 ^ 52"
  shows "tree_ok tb r F"
  unfolding tree_ok_def using assms by blast

lemma tree_ok_leaf_write:
  assumes ok: "tree_ok tb r F" and p0: "valid_path p0" "length p0 = 3" "walk tb 0 r p0 = Some t0"
  shows "tree_ok (tb(t0 := (tb t0)(i0 := e))) r F"
proof (rule tree_okI, unfold walk_leaf_write [OF ok p0])
  fix p t i
  assume *: "valid_path p" "length p = 2" "walk tb 0 r p = Some t" "i < 512"
    "present ((tb(t0 := (tb t0)(i0 := e))) t i)" "huge ((tb(t0 := (tb t0)(i0 := e))) t i)"
  have "t \<noteq> t0" using tree_inj [OF ok *(1) p0(1) *(3)] p0 *(2) by auto
  then show "unat (target ((tb(t0 := (tb t0)(i0 := e))) t i)) + 0x200000 \<le> 2 ^ 52"
    using tree_huge [OF ok *(1-4)] *(5,6) by simp
qed (use ok in \<open>blast intro: tree_inj dest: tree_used\<close>)+

lemma tree_ok_attach:
  assumes ok: "tree_ok tb r F" and p0: "valid_path p0" "length p0 \<le> 2" "walk tb 0 r p0 = Some t0"
    and i0: "i0 < 512" "child (length p0) (tb t0 i0) = None" and e: "child (length p0) e = Some f"
    and f: "unat f div 4096 \<in> F" and g: "length p0 < 2 \<longrightarrow> (\<forall>i < 512. \<not> present (g i))"
    and F': "F' \<subseteq> F - {unat f div 4096}"
  shows "tree_ok (tb(f := g, t0 := (tb t0)(i0 := e))) r F'"
proof -
  let ?tb = "tb(f := g, t0 := (tb t0)(i0 := e))"
  note W = walk_attach [OF ok p0 i0 e f g]
  have nf: "walk tb 0 r p \<noteq> Some f" if "valid_path p" for p using tree_used [OF ok that] f by blast
  show ?thesis
  proof (rule tree_okI)
    fix p q t assume "valid_path p" "valid_path q" "walk ?tb 0 r p = Some t" "walk ?tb 0 r q = Some t"
    then show "p = q" using nf tree_inj [OF ok] by (auto simp only: W split: if_splits)
  next
    fix p t assume "valid_path p" "walk ?tb 0 r p = Some t"
    then show "unat t div 4096 \<notin> F'" using tree_used [OF ok] F' by (auto simp only: W split: if_splits)
  next
    fix p t i
    assume *: "valid_path p" "length p = 2" "walk ?tb 0 r p = Some t" "i < 512" "present (?tb t i)" "huge (?tb t i)"
    show "unat (target (?tb t i)) + 0x200000 \<le> 2 ^ 52"
    proof (cases "p = p0 @ [i0]")
      case True
      then have "t = f" "length p0 < 2" using *(2,3) W [OF *(1)] by auto
      moreover have "f \<noteq> t0" using nf [OF p0(1)] p0(3) by auto
      ultimately show ?thesis using g *(4,5) by simp
    next
      case False
      then have w: "walk tb 0 r p = Some t" using *(3) W [OF *(1)] by simp
      then have "t \<noteq> f" using nf *(1) by blast
      moreover have "\<not> (t = t0 \<and> i = i0)"
      proof
        assume "t = t0 \<and> i = i0"
        then have "p = p0" using tree_inj [OF ok *(1) p0(1) w] p0(3) by simp
        then have "child 2 e = Some f" using e *(2) by simp
        then show False using *(6) \<open>t = t0 \<and> i = i0\<close> by (simp add: child_def split: if_splits)
      qed
      ultimately have "?tb t i = tb t i" by auto
      then show ?thesis using tree_huge [OF ok *(1,2) w *(4)] *(5,6) by simp
    qed
  qed
qed

section \<open>Addresses\<close>

lemma mask_consts: "0xFFF = (mask 12 :: u64)" "0x1FF = (mask 9 :: u64)" "0x1FFFFF = (mask 21 :: u64)"
  "FRAME_MASK = mask 52 AND NOT (mask 12)"
  by (simp_all add: mask_eq_exp_minus_1 FRAME_MASK_def)

lemma unat_target: "unat (target a) = unat a mod 2 ^ 52 - unat a mod 2 ^ 52 mod 4096"
proof -
  have "target a = (a AND mask 52) AND NOT (mask 12)" by (simp only: mask_consts and.assoc)
  then show ?thesis by (simp only: unat_and_not_mask unat_and_mask) simp
qed

lemma valid_frame_unat: "unat a < 2 ^ 52 \<Longrightarrow> unat a mod 4096 = 0 \<Longrightarrow> valid_frame a"
  by (simp add: valid_frame_def word_unat_eq_iff unat_target)

lemma valid_frame_target [simp]: "valid_frame (target a)"
  by (simp add: valid_frame_def and.assoc)

lemma valid_frame_bound: "valid_frame a \<Longrightarrow> unat a < 2 ^ 52 \<and> unat a mod 4096 = 0"
proof -
  assume "valid_frame a"
  then have "unat a = unat a mod 2 ^ 52 - unat a mod 2 ^ 52 mod 4096"
    using unat_target [of a] by (simp only: valid_frame_def)
  moreover have "(unat a mod 2 ^ 52 - unat a mod 2 ^ 52 mod 4096) mod 4096 = 0"
    by (simp only: minus_mod_eq_mult_div mod_mult_self1_is_0)
  moreover have "unat a mod 2 ^ 52 < 2 ^ 52" by simp
  ultimately show ?thesis by (metis diff_le_self le_less_trans)
qed

lemma page_offset_split: "of_nat (pt_index a * 0x1000) + (a AND 0xFFF) = a AND 0x1FFFFF"
proof -
  have i: "pt_index a = unat a div 4096 mod 512"
    by (simp only: pt_index_def mask_consts unat_and_mask unat_drop_bit_eq) (simp add: drop_bit_eq_div)
  have lt: "pt_index a * 4096 < 2 ^ 64" using less_le_trans [OF indices_bound(4) [of a], of "2 ^ 52"] by simp
  have "unat (of_nat (pt_index a * 4096) :: u64) = pt_index a * 4096"
    by (rule unat_of_nat_small) (use lt in simp)
  moreover have o: "unat (a AND 0xFFF) = unat a mod 4096" by (simp only: mask_consts unat_and_mask) simp
  moreover have "pt_index a * 4096 + unat a mod 4096 < 2 ^ 64"
  proof -
    have "pt_index a \<le> 511" using indices_bound(4) [of a] by linarith
    then have "pt_index a * 4096 \<le> 511 * 4096" by simp
    moreover have "unat a mod 4096 < 4096" by simp
    ultimately have "pt_index a * 4096 + unat a mod 4096 < 512 * 4096" by linarith
    then show ?thesis by simp
  qed
  ultimately have "unat (of_nat (pt_index a * 0x1000) + (a AND 0xFFF)) = pt_index a * 4096 + unat a mod 4096"
    by (subst unat_add_no_wrap) auto
  also have "\<dots> = unat a mod 2 ^ 21"
    using mod_mult2_eq [of "unat a" 4096 512] by (simp add: i mult.commute)
  also have "\<dots> = unat (a AND 0x1FFFFF)" by (simp only: mask_consts unat_and_mask)
  finally show ?thesis by (simp only: word_unat_eq_iff)
qed

section \<open>The abstract view\<close>

definition view_entry :: "u64 \<Rightarrow> page_table_entry \<Rightarrow> (u64 \<times> page_flags) option" where
  "view_entry off e = (if present e then Some (target e + off, flags e AND NOT HUGE_PAGE) else None)"

definition view :: "page_tables \<Rightarrow> u64 \<Rightarrow> u64 \<Rightarrow> (u64 \<times> page_flags) option" where
  "view tb r a =
     (case walk tb 0 r [pml4_index a, pdpt_index a] of
        None \<Rightarrow> None
      | Some pd \<Rightarrow>
          if present (tb pd (pd_index a)) \<and> huge (tb pd (pd_index a))
          then view_entry (a AND 0x1FFFFF) (tb pd (pd_index a))
          else (case walk tb 0 r [pml4_index a, pdpt_index a, pd_index a] of
                  None \<Rightarrow> None
                | Some pt \<Rightarrow> view_entry (a AND 0xFFF) (tb pt (pt_index a))))"

text \<open>The physical address and the flags, less the page-size bit, that a virtual address maps to.\<close>

definition page_view :: "vm \<Rightarrow> u64 \<Rightarrow> (u64 \<times> page_flags) option" where
  "page_view v = view (tables v) (root v)"

lemma descend_child:
  "descend v t i = (if present (tables v (start_address t) i) then Some (PhysFrame (target (tables v (start_address t) i))) else None)"
  by (simp add: descend_def get_table_def frame_def)

lemma translate_view: "translate v a = map_option fst (page_view v a)"
  by (simp add: translate_def page_view_def view_def view_entry_def descend_child child_def get_table_def
      split: option.split)

definition no_gib_page :: "vm \<Rightarrow> u64 \<Rightarrow> bool" where
  "no_gib_page v a \<longleftrightarrow> (\<forall>t. table_at v [pml4_index a] = Some t \<longrightarrow> \<not> huge (tables v t (pdpt_index a)))"

lemma translate_flags_view:
  "no_gib_page v a \<Longrightarrow> map_option (\<lambda>f. f AND NOT HUGE_PAGE) (translate_flags v a) = map_option snd (page_view v a)"
  by (simp add: translate_flags_def page_view_def view_def view_entry_def descend_child child_def
      get_table_def no_gib_page_def split: option.split)

abbreviation dir_path :: "u64 \<Rightarrow> nat list" where
  "dir_path a \<equiv> [pml4_index a, pdpt_index a, pd_index a]"

lemma dir_path_valid [simp]: "valid_path (dir_path a)" "valid_path [pml4_index a, pdpt_index a]"
  "valid_path [pml4_index a]" "valid_path []"
  by (simp_all add: valid_path_def)

lemma walk_dir:
  "walk tb 0 r (dir_path a) = (case walk tb 0 r [pml4_index a, pdpt_index a] of None \<Rightarrow> None
     | Some pd \<Rightarrow> child 2 (tb pd (pd_index a)))"
  by (simp add: numeral_2_eq_2 split: option.split)

text \<open>The view of an address whose page table exists.\<close>

lemma view_table:
  assumes "walk tb 0 r (dir_path a) = Some pt"
  shows "view tb r a = view_entry (a AND 0xFFF) (tb pt (pt_index a))"
proof -
  from assms obtain pd where pd: "walk tb 0 r [pml4_index a, pdpt_index a] = Some pd"
    "child 2 (tb pd (pd_index a)) = Some pt" unfolding walk_dir by (auto split: option.splits)
  then have "(present (tb pd (pd_index a)) \<and> huge (tb pd (pd_index a))) = False"
    by (auto simp: child_def split: if_splits)
  then show ?thesis unfolding view_def assms pd(1) by (simp only: option.case if_False)
qed

lemma view_no_table:
  assumes "walk tb 0 r (dir_path a) = None"
  shows "view tb r a = (case walk tb 0 r [pml4_index a, pdpt_index a] of None \<Rightarrow> None | Some pd \<Rightarrow>
    if huge (tb pd (pd_index a)) then view_entry (a AND 0x1FFFFF) (tb pd (pd_index a)) else None)"
  unfolding view_def assms by (simp add: view_entry_def split: option.split)

lemma view_leaf_write:
  assumes ok: "tree_ok tb r F" and p0: "valid_path p0" "length p0 = 3" "walk tb 0 r p0 = Some t0"
  shows "view (tb(t0 := (tb t0)(i0 := e))) r a =
    (if dir_path a = p0 \<and> pt_index a = i0 then view_entry (a AND 0xFFF) e else view tb r a)"
proof -
  let ?tb = "tb(t0 := (tb t0)(i0 := e))"
  note W = walk_leaf_write [OF ok p0]
  show ?thesis
  proof (cases "walk tb 0 r (dir_path a)")
    case None
    have "t \<noteq> t0" if "walk tb 0 r [pml4_index a, pdpt_index a] = Some t" for t
      using tree_inj [OF ok _ p0(1) that] p0 by auto
    then show ?thesis using None p0(3) W [of "dir_path a"] W [of "[pml4_index a, pdpt_index a]"]
      view_no_table [OF None] view_no_table [of ?tb r a]
      by (auto split: option.split simp del: walk.simps)
  next
    case (Some pt)
    have "pt = t0 \<longleftrightarrow> dir_path a = p0" using tree_inj [OF ok _ p0(1) Some] p0(3) Some by auto
    then show ?thesis using view_table [OF Some] view_table [of ?tb r a pt] W [of "dir_path a"] Some
      by (auto simp del: walk.simps)
  qed
qed

lemma view_attach:
  assumes ok: "tree_ok tb r F" and p0: "valid_path p0" "length p0 \<le> 2" "walk tb 0 r p0 = Some t0"
    and i0: "i0 < 512" "child (length p0) (tb t0 i0) = None" and e: "child (length p0) e = Some f"
    and f: "unat f div 4096 \<in> F" and g: "length p0 < 2 \<longrightarrow> (\<forall>i < 512. \<not> present (g i))"
  shows "view (tb(f := g, t0 := (tb t0)(i0 := e))) r a =
    (if dir_path a = p0 @ [i0] then view_entry (a AND 0xFFF) (g (pt_index a)) else view tb r a)"
proof -
  let ?tb = "tb(f := g, t0 := (tb t0)(i0 := e))" and ?d = "[pml4_index a, pdpt_index a]"
  note W = walk_attach [OF ok p0 i0 e f g]
  have nf: "walk tb 0 r p \<noteq> Some f" if "valid_path p" for p using tree_used [OF ok that] f by blast
  have ft: "f \<noteq> t0" using nf [OF p0(1)] p0(3) by auto
  show ?thesis
  proof (cases "dir_path a = p0 @ [i0]")
    case True
    have "walk ?tb 0 r (dir_path a) = Some f" using W [OF dir_path_valid(1) [of a]] unfolding if_P [OF True] .
    from view_table [OF this] True ft show ?thesis by simp
  next
    case False
    have Wd: "walk ?tb 0 r (dir_path a) = walk tb 0 r (dir_path a)"
      using W [OF dir_path_valid(1) [of a]] unfolding if_not_P [OF False] .
    show ?thesis
    proof (cases "walk tb 0 r (dir_path a)")
      case (Some pt)
      have "pt \<noteq> f" using nf [of "dir_path a"] Some by auto
      moreover have "pt \<noteq> t0" using tree_inj [OF ok _ p0(1) Some] p0 by auto
      ultimately show ?thesis using view_table [OF Some] view_table [OF Wd [unfolded Some]] False by auto
    next
      case None
      show ?thesis
      proof (cases "?d = p0 @ [i0]")
        case True
        have w: "walk ?tb 0 r ?d = Some f" using W [OF dir_path_valid(2) [of a]] unfolding if_P [OF True] .
        have "walk tb 0 r ?d = None" unfolding True walk_snoc p0(3) using i0(2) by simp
        then have "view tb r a = None" unfolding view_def by (simp only: option.case)
        moreover have "length p0 < 2" using arg_cong [OF True, of length] by simp
        then have "view ?tb r a = None" unfolding view_no_table [OF Wd [unfolded None]] w
          using g ft by (simp add: view_entry_def)
        ultimately show ?thesis using False by auto
      next
        case no: False
        have wd: "walk ?tb 0 r ?d = walk tb 0 r ?d" using W [OF dir_path_valid(2) [of a]] unfolding if_not_P [OF no] .
        have same: "?tb pd (pd_index a) = tb pd (pd_index a)" if "walk tb 0 r ?d = Some pd" for pd
        proof -
          have "pd \<noteq> f" using nf [of ?d] that by auto
          moreover have "?d = p0" if "pd = t0" using tree_inj [OF ok _ p0(1)] p0(3) \<open>walk tb 0 r ?d = Some pd\<close> that by simp
          then have "\<not> (pd = t0 \<and> pd_index a = i0)" using \<open>dir_path a \<noteq> p0 @ [i0]\<close> by auto
          ultimately show ?thesis by auto
        qed
        show ?thesis unfolding view_no_table [OF None] view_no_table [OF Wd [unfolded None]] wd
          using False same by (auto split: option.split simp del: fun_upd_apply)
      qed
    qed
  qed
qed

section \<open>Building tables\<close>

definition vm_inv :: "vm \<Rightarrow> bool" where
  "vm_inv v \<longleftrightarrow> buddy_invar (allocator v) \<and> free_page_set (allocator v) \<subseteq> {..< 2 ^ 40}
     \<and> tree_ok (tables v) (root v) (free_page_set (allocator v))"

lemma allocate_page_error:
  assumes "buddy_invar s" and "allocate s 0 = Some (Inl e, s')"
  shows "s' = s \<and> free_page_set s = {}"
proof -
  obtain B where B: "buddy_rel s B" "free_page_set s = pages_of B" using assms(1) by (rule buddy_invarE)
  then have "B = {}" using allocate_cases [OF B(1), of 0] assms(2) by (auto simp: MAX_ORDER_def split: if_splits)
  then show ?thesis using B buddy.alloc_error [OF assms] by simp
qed

lemma allocate_page_frame:
  assumes "buddy_invar s" and "allocate s 0 = Some (Inr f, s')" and "free_page_set s \<subseteq> {..< 2 ^ 40}"
  shows "buddy_invar s'" and "unat (start_address f) div 4096 \<in> free_page_set s"
    and "free_page_set s' = free_page_set s - {unat (start_address f) div 4096}"
    and "valid_frame (start_address f)"
proof -
  let ?a = "start_address f"
  have p: "frame_pages f 0 = {unat ?a div 4096}" by (auto simp: frame_pages_def block_pages_def)
  note A = buddy.alloc_frame [OF assms(1,2), unfolded p]
  then show "buddy_invar s'" "unat ?a div 4096 \<in> free_page_set s"
    "free_page_set s' = free_page_set s - {unat ?a div 4096}" by auto
  then have "unat ?a div 4096 < 2 ^ 40" using assms(3) by auto
  moreover have al: "unat ?a mod 4096 = 0" using A by (simp add: frame_aligned_def aligned_def mod_eq_0_iff_dvd)
  ultimately show "valid_frame ?a" by (intro valid_frame_unat) (simp_all add: div_less_iff_less_mult)
qed

lemma alloc_table_cases:
  assumes "vm_inv v"
  obtains (full) "alloc_table v = Some (Inl FrameAllocationFailed, v)" "free_page_set (allocator v) = {}"
  | (got) f a where "alloc_table v = Some (Inr (PhysFrame f), v\<lparr>allocator := a\<rparr>)" "buddy_invar a"
      "unat f div 4096 \<in> free_page_set (allocator v)"
      "free_page_set a = free_page_set (allocator v) - {unat f div 4096}" "valid_frame f"
proof -
  have inv: "buddy_invar (allocator v)" and sub: "free_page_set (allocator v) \<subseteq> {..< 2 ^ 40}"
    using assms by (auto simp: vm_inv_def)
  obtain r a where ra: "allocate (allocator v) 0 = Some (r, a)" using buddy.alloc_total [OF inv] by blast
  show ?thesis
  proof (cases r)
    case (Inl x)
    then show ?thesis using full allocate_page_error [OF inv, of x a] ra by (simp add: alloc_table_def)
  next
    case (Inr f)
    with ra have "allocate (allocator v) 0 = Some (Inr f, a)" by simp
    from allocate_page_frame [OF inv this sub] show ?thesis
      using got [of "start_address f" a] ra Inr by (simp add: alloc_table_def)
  qed
qed

lemma child_set_frame:
  assumes "valid_frame f" and "valid_flags fl" and "contains fl PRESENT" and "\<not> contains fl HUGE_PAGE"
  shows "child d (set_frame (PhysFrame f) fl) = Some f"
  using assms by (simp add: child_def flags_set_frame target_set_frame valid_frame_def)

text \<open>Both ways of adding a table, in terms of the state: a table \<open>g\<close> in a new frame, linked from \<open>i0\<close>.\<close>

definition link_table :: "vm \<Rightarrow> buddy_allocator \<Rightarrow> u64 \<Rightarrow> (nat \<Rightarrow> page_table_entry) \<Rightarrow> u64 \<Rightarrow> nat \<Rightarrow> vm" where
  "link_table v a f g t0 i0 =
     put_entry (put_table (v\<lparr>allocator := a\<rparr>) (PhysFrame f) g) (PhysFrame t0) i0
       (set_frame (PhysFrame f) TABLE_FLAGS)"

lemma link_table_spec:
  assumes inv: "vm_inv v" and p0: "valid_path p0" "length p0 \<le> 2" "table_at v p0 = Some t0"
    and i0: "i0 < 512" "child (length p0) (tables v t0 i0) = None"
    and f: "unat f div 4096 \<in> free_page_set (allocator v)" "valid_frame f"
    and a: "buddy_invar a" "free_page_set a = free_page_set (allocator v) - {unat f div 4096}"
    and g: "length p0 < 2 \<longrightarrow> (\<forall>i < 512. \<not> present (g i))"
  shows "vm_inv (link_table v a f g t0 i0)" and "cr3 (link_table v a f g t0 i0) = cr3 v"
    and "valid_path p \<Longrightarrow> table_at (link_table v a f g t0 i0) p = (if p = p0 @ [i0] then Some f else table_at v p)"
    and "page_view (link_table v a f g t0 i0) x =
      (if dir_path x = p0 @ [i0] then view_entry (x AND 0xFFF) (g (pt_index x)) else page_view v x)"
proof -
  let ?e = "set_frame (PhysFrame f) TABLE_FLAGS" and ?v = "link_table v a f g t0 i0"
  have ok: "tree_ok (tables v) (root v) (free_page_set (allocator v))" using inv by (simp add: vm_inv_def)
  have e: "child (length p0) ?e = Some f" using f(2) table_flags_bits by (intro child_set_frame) auto
  have "t0 \<noteq> f" using tree_used [OF ok p0(1,3)] f(1) by auto
  then have tb: "tables ?v = (tables v)(f := g, t0 := (tables v t0)(i0 := ?e))"
    by (simp add: link_table_def put_entry_def put_table_def get_table_def)
  have c: "cr3 ?v = cr3 v" "allocator ?v = a" by (simp_all add: link_table_def put_entry_def put_table_def)
  then have r: "root ?v = root v" by (simp add: active_pml4_def)
  show "cr3 ?v = cr3 v" by (rule c(1))
  show "table_at ?v p = (if p = p0 @ [i0] then Some f else table_at v p)" if "valid_path p"
    unfolding tb r by (rule walk_attach [OF ok p0 i0 e f(1) g that])
  show "page_view ?v x = (if dir_path x = p0 @ [i0] then view_entry (x AND 0xFFF) (g (pt_index x)) else page_view v x)"
    unfolding page_view_def tb r by (rule view_attach [OF ok p0 i0 e f(1) g])
  have "tree_ok (tables ?v) (root ?v) (free_page_set (allocator ?v))"
    unfolding tb r c(2) by (rule tree_ok_attach [OF ok p0 i0 e f(1) g]) (simp add: a(2))
  then show "vm_inv ?v" using inv a c(2) by (auto simp: vm_inv_def)
qed

lemma link_table_allocator [simp]: "allocator (link_table v a f g t0 i0) = a"
  by (simp add: link_table_def put_entry_def put_table_def)

lemma zero_absent: "\<forall>i < 512. \<not> present (zero t i)"
  by (simp add: zero_def entry_new_def)

text \<open>What a step of \<^verbatim>\<open>map_page\<close> keeps: the invariant, the root and the whole view.\<close>

definition keeps_view :: "vm \<Rightarrow> vm \<Rightarrow> bool" where
  "keeps_view v v' \<longleftrightarrow> vm_inv v' \<and> cr3 v' = cr3 v \<and> page_view v' = page_view v
     \<and> free_page_set (allocator v') \<subseteq> free_page_set (allocator v)"

definition failed :: "vm \<Rightarrow> map_error \<Rightarrow> bool" where
  "failed v e \<longleftrightarrow> e = FrameAllocationFailed \<and> free_page_set (allocator v) = {}"

lemma view_absent:
  assumes "walk tb 0 r [pml4_index x, pdpt_index x] = Some t" and "\<not> present (tb t (pd_index x))"
  shows "view tb r x = None"
proof -
  have "walk tb 0 r (dir_path x) = None" unfolding walk_dir assms(1) by (simp add: child_def assms(2))
  from view_no_table [OF this] show ?thesis unfolding assms(1) by (simp add: view_entry_def assms(2))
qed

lemma next_table_spec:
  assumes inv: "vm_inv v" and p: "valid_path p" "length p \<le> 2" "table_at v p = Some t"
    and i: "i < 512" and nh: "\<not> (length p = 2 \<and> present (tables v t i) \<and> huge (tables v t i))"
  shows "\<exists>r v'. next_table v (PhysFrame t) i = Some (r, v') \<and> keeps_view v v' \<and>
    (case r of Inl e \<Rightarrow> failed v' e | Inr f \<Rightarrow> table_at v' (p @ [i]) = Some (start_address f))"
proof (cases "present (tables v t i)")
  case True
  then have "table_at v (p @ [i]) = Some (target (tables v t i))" unfolding walk_snoc p(3) using nh
    by (simp add: child_def)
  then show ?thesis using True inv by (simp add: next_table_def get_table_def frame_present keeps_view_def)
next
  case False
  from inv show ?thesis
  proof (cases rule: alloc_table_cases)
    case full
    then show ?thesis using False inv by (simp add: next_table_def get_table_def keeps_view_def failed_def)
  next
    case (got f a)
    let ?g = "zero (tables v f)" and ?v = "link_table v a f (zero (tables v f)) t i"
    have nx: "next_table v (PhysFrame t) i = Some (Inr (PhysFrame f), ?v)"
      using False got(1) by (simp add: next_table_def get_table_def link_table_def put_table_def)
    have ch: "child (length p) (tables v t i) = None" using False by (simp add: child_def)
    note L = link_table_spec [OF inv p i ch got(3,5,2,4), of ?g]
    have "page_view ?v x = page_view v x" for x
    proof (cases "dir_path x = p @ [i]")
      case True
      then have "p = [pml4_index x, pdpt_index x]" "i = pd_index x" by (auto simp: append_eq_Cons_conv)
      then have "page_view v x = None" using view_absent [of "tables v" "root v" x t] p(3) False
        by (simp add: page_view_def del: walk.simps)
      then show ?thesis using L(4) True zero_absent [of "tables v f"] by (simp add: view_entry_def)
    next
      case False
      then show ?thesis using L(4) zero_absent by auto
    qed
    then have "keeps_view v ?v" using L(1,2) zero_absent got(4) by (auto simp: keeps_view_def)
    moreover have "table_at ?v (p @ [i]) = Some f"
      using L(3) [of "p @ [i]"] zero_absent p i by (simp add: valid_path_snoc)
    ultimately show ?thesis using nx by auto
  qed
qed

lemma contains_bit: "n < 64 \<Longrightarrow> contains fl (push_bit n 1) \<longleftrightarrow> bit fl n"
proof
  assume "n < 64" and "contains fl (push_bit n 1)"
  then have "bit (fl AND push_bit n 1) n" unfolding contains_def by (simp add: bit_simps)
  then show "bit fl n" by (simp only: bit_and_iff)
next
  assume "n < 64" and "bit fl n"
  then show "contains fl (push_bit n 1)"
    unfolding contains_def by (intro bit_word_eqI) (auto simp: bit_simps simp del: push_bit_of_1)
qed

lemma contains_flag_bits: "contains fl PRESENT \<longleftrightarrow> bit fl 0" "contains fl HUGE_PAGE \<longleftrightarrow> bit fl 7"
  by (simp_all add: PRESENT_def HUGE_PAGE_def contains_bit del: push_bit_of_1 push_bit_0_id)

lemma split_flags:
  fixes e :: page_table_entry
  defines "hf \<equiv> flags e AND from_bits_truncate (NOT HUGE_PAGE)"
  assumes "present e"
  shows "valid_flags hf" and "contains hf PRESENT" and "hf AND NOT HUGE_PAGE = flags e AND NOT HUGE_PAGE"
proof -
  have hf: "hf = e AND (all_flags AND NOT HUGE_PAGE)"
    unfolding hf_def flags_def from_bits_truncate_def by (rule bit_word_eqI) (auto simp: bit_simps)
  show "valid_flags hf" unfolding hf valid_flags_def by (rule bit_word_eqI) (auto simp: bit_simps)
  show "hf AND NOT HUGE_PAGE = flags e AND NOT HUGE_PAGE"
    unfolding hf flags_def from_bits_truncate_def by (rule bit_word_eqI) (auto simp: bit_simps)
  have "bit e 0" using assms(2) by (simp add: contains_flag_bits flags_def from_bits_truncate_def bit_simps)
  moreover have "bit (all_flags AND NOT HUGE_PAGE) 0" by (simp add: all_flags_eq HUGE_PAGE_def)
  ultimately show "contains hf PRESENT" unfolding contains_flag_bits hf bit_and_iff by simp
qed

lemma split_entry_view:
  assumes pr: "present e" and room: "unat (target e) + 0x200000 \<le> 2 ^ 52"
  shows "view_entry (x AND 0xFFF)
      (split_table (target e) (flags e AND from_bits_truncate (NOT HUGE_PAGE)) t (pt_index x))
    = view_entry (x AND 0x1FFFFF) e"
proof -
  let ?i = "pt_index x" and ?hf = "flags e AND from_bits_truncate (NOT HUGE_PAGE)"
  let ?a = "target e + of_nat (?i * 0x1000)"
  have i: "?i * 4096 \<le> 511 * 4096" using indices_bound(4) [of x] by linarith
  then have "?i * 4096 < 2 ^ 64" by (rule le_less_trans) simp
  then have o: "unat (of_nat (?i * 0x1000) :: u64) = ?i * 4096" by (intro unat_of_nat_small) simp
  have u: "unat ?a = unat (target e) + ?i * 4096"
    by (rule trans [OF unat_add_no_wrap]) (simp_all only: o, use i room in simp)
  have m: "unat (target e) mod 4096 = 0" using valid_frame_bound [OF valid_frame_target] by blast
  have va: "valid_frame ?a"
  proof (rule valid_frame_unat)
    show "unat ?a < 2 ^ 52" unfolding u using i room by linarith
    show "unat ?a mod 4096 = 0" unfolding u mod_mult_self1 by (rule m)
  qed
  have st: "split_table (target e) ?hf t ?i = set_frame (PhysFrame ?a) ?hf" by (simp add: split_table_def)
  have "target (set_frame (PhysFrame ?a) ?hf) = ?a"
    using target_set_frame [OF split_flags(1) [OF pr], of "PhysFrame ?a"] va by (simp add: valid_frame_def)
  moreover have "flags (set_frame (PhysFrame ?a) ?hf) = ?hf" by (rule flags_set_frame [OF split_flags(1) [OF pr]])
  moreover have "?a + (x AND 0xFFF) = target e + (x AND 0x1FFFFF)"
    using page_offset_split [of x] by (simp only: add.assoc)
  ultimately show ?thesis unfolding st view_entry_def using split_flags(2,3) [OF pr] pr by simp
qed

lemma split_huge_spec:
  assumes inv: "vm_inv v" and p: "valid_path p" "length p = 2" "table_at v p = Some t" and i: "i < 512"
  shows "\<exists>r v'. split_huge v (PhysFrame t) i = Some (r, v') \<and> keeps_view v v' \<and>
    (case r of Inl e \<Rightarrow> failed v' e
     | Inr _ \<Rightarrow> table_at v' p = Some t \<and> \<not> (present (tables v' t i) \<and> huge (tables v' t i)))"
proof (cases "present (tables v t i) \<and> huge (tables v t i)")
  case False
  then have "split_huge v (PhysFrame t) i = Some (Inr (), v)" by (auto simp: split_huge_def get_table_def)
  then show ?thesis using False p inv by (auto simp: keeps_view_def)
next
  case True
  let ?E = "tables v t i"
  have pr: "present ?E" "huge ?E" using True by auto
  have ch: "child (length p) ?E = None" using pr p(2) by (simp add: child_def)
  have ok: "tree_ok (tables v) (root v) (free_page_set (allocator v))" using inv by (simp add: vm_inv_def)
  from inv show ?thesis
  proof (cases rule: alloc_table_cases)
    case full
    then show ?thesis using True inv
      by (simp add: split_huge_def get_table_def frame_present keeps_view_def failed_def)
  next
    case (got f a)
    define g where "g = split_table (target ?E) (flags ?E AND from_bits_truncate (NOT HUGE_PAGE)) (tables v f)"
    let ?v = "link_table v a f g t i"
    have sp: "split_huge v (PhysFrame t) i = Some (Inr (), ?v)"
      using pr got(1) by (simp add: split_huge_def get_table_def frame_present link_table_def put_table_def g_def)
    have p2: "length p \<le> 2" and gg: "length p < 2 \<longrightarrow> (\<forall>i < 512. \<not> present (g i))" using p(2) by auto
    note L = link_table_spec [OF inv p(1) p2 p(3) i ch got(3,5,2,4) gg]
    have "page_view ?v x = page_view v x" for x
    proof (cases "dir_path x = p @ [i]")
      case d: True
      then have px: "p = [pml4_index x, pdpt_index x]" "i = pd_index x" by (auto simp: append_eq_Cons_conv)
      have "table_at v (dir_path x) = None" unfolding d walk_snoc p(3) using ch by simp
      from view_no_table [OF this] have "page_view v x = view_entry (x AND 0x1FFFFF) ?E"
        using p(3) pr unfolding px page_view_def by (simp del: walk.simps)
      moreover have "unat (target ?E) + 0x200000 \<le> 2 ^ 52" by (rule tree_huge [OF ok p(1,2,3) i pr])
      ultimately show ?thesis using L(4) [of x] d split_entry_view [OF pr(1)] by (simp add: g_def)
    next
      case False
      then show ?thesis using L(4) [of x] by auto
    qed
    then have kv: "keeps_view v ?v" using L(1,2) got(4) by (auto simp: keeps_view_def)
    have "p \<noteq> p @ [i]" by simp
    then have tp: "table_at ?v p = Some t" using L(3) [OF p(1)] p(3) by (simp only: if_False)
    have "table_at ?v (p @ [i]) = Some f" using L(3) [of "p @ [i]"] p i by (simp add: valid_path_snoc)
    then have "child 2 (tables ?v t i) = Some f" unfolding walk_snoc tp p(2) by (simp only: add_0 option.case)
    then have "\<not> (present (tables ?v t i) \<and> huge (tables ?v t i))" by (auto simp: child_def split: if_splits)
    then show ?thesis using sp kv tp by auto
  qed
qed

section \<open>Mapping and unmapping\<close>

definition same_page :: "u64 \<Rightarrow> u64 \<Rightarrow> bool" where
  "same_page a b \<longleftrightarrow> dir_path a = dir_path b \<and> pt_index a = pt_index b"

lemma put_leaf_spec:
  assumes inv: "vm_inv v" and t: "table_at v (dir_path virt) = Some t"
  shows "vm_inv (put_entry v (PhysFrame t) (pt_index virt) e)"
    and "page_view (put_entry v (PhysFrame t) (pt_index virt) e) x =
      (if same_page x virt then view_entry (x AND 0xFFF) e else page_view v x)"
proof -
  let ?v = "put_entry v (PhysFrame t) (pt_index virt) e"
  have ok: "tree_ok (tables v) (root v) (free_page_set (allocator v))" using inv by (simp add: vm_inv_def)
  have tb: "tables ?v = (tables v)(t := (tables v t)(pt_index virt := e))" and al: "allocator ?v = allocator v"
    and r: "root ?v = root v"
    by (simp_all add: put_entry_def put_table_def get_table_def active_pml4_def)
  have d: "valid_path (dir_path virt)" "length (dir_path virt) = 3" by simp_all
  show "vm_inv ?v" using tree_ok_leaf_write [OF ok d t] inv by (simp add: vm_inv_def tb al r)
  show "page_view ?v x = (if same_page x virt then view_entry (x AND 0xFFF) e else page_view v x)"
    using view_leaf_write [OF ok d t] by (simp add: page_view_def tb r same_page_def)
qed

lemma keeps_view_trans: "keeps_view a b \<Longrightarrow> keeps_view b c \<Longrightarrow> keeps_view a c"
  by (auto simp: keeps_view_def)

lemma keeps_view_root: "keeps_view a b \<Longrightarrow> root b = root a"
  by (simp add: keeps_view_def active_pml4_def)

text \<open>The descent to the page table of \<open>virt\<close>, the part of \<^verbatim>\<open>map_page\<close> before the last write.\<close>

lemma map_page_descent:
  assumes inv: "vm_inv v"
  shows "(\<exists>v'. map_page v virt phys fl = Some (Inl FrameAllocationFailed, v') \<and> keeps_view v v' \<and> failed v' FrameAllocationFailed)
    \<or> (\<exists>v' pt. map_page v virt phys fl =
          Some (Inr (), put_entry v' (PhysFrame pt) (pt_index virt) (set_frame phys (fl OR PRESENT)))
        \<and> keeps_view v v' \<and> table_at v' (dir_path virt) = Some pt)"
proof -
  let ?i4 = "pml4_index virt" and ?i3 = "pdpt_index virt" and ?i2 = "pd_index virt"
  have "table_at v [] = Some (root v)" by simp
  from next_table_spec [OF inv _ _ this, of ?i4, unfolded append.simps] obtain r1 v1 where
    n1: "next_table v (active_pml4 v) ?i4 = Some (r1, v1)" "keeps_view v v1"
      "case r1 of Inl e \<Rightarrow> failed v1 e | Inr f \<Rightarrow> table_at v1 [?i4] = Some (start_address f)" by auto
  show ?thesis
  proof (cases r1)
    case (Inl e)
    then show ?thesis using n1 by (auto simp: map_page_def failed_def)
  next
    case r1: (Inr pdpt)
    have "vm_inv v1" "table_at v1 [?i4] = Some (start_address pdpt)" using n1 r1 by (auto simp: keeps_view_def)
    from next_table_spec [OF this(1) _ _ this(2), of ?i3, unfolded append.simps] obtain r2 v2 where
      n2: "next_table v1 pdpt ?i3 = Some (r2, v2)" "keeps_view v1 v2"
        "case r2 of Inl e \<Rightarrow> failed v2 e | Inr f \<Rightarrow> table_at v2 [?i4, ?i3] = Some (start_address f)"
      by (auto simp del: walk.simps)
    show ?thesis
    proof (cases r2)
      case (Inl e)
      then show ?thesis using n1 n2 r1 keeps_view_trans by (fastforce simp: map_page_def failed_def)
    next
      case r2: (Inr pd)
      have v2: "vm_inv v2" "table_at v2 [?i4, ?i3] = Some (start_address pd)"
        using n2 r2 by (auto simp: keeps_view_def simp del: walk.simps)
      from split_huge_spec [OF this(1) _ _ this(2), of ?i2] obtain r3 v3 where
        n3: "split_huge v2 pd ?i2 = Some (r3, v3)" "keeps_view v2 v3"
          "case r3 of Inl e \<Rightarrow> failed v3 e | Inr _ \<Rightarrow> table_at v3 [?i4, ?i3] = Some (start_address pd)
            \<and> \<not> (present (tables v3 (start_address pd) ?i2) \<and> huge (tables v3 (start_address pd) ?i2))"
        by (auto simp del: walk.simps)
      have k3: "keeps_view v v3" using n1(2) n2(2) n3(2) keeps_view_trans by blast
      show ?thesis
      proof (cases r3)
        case (Inl e)
        then show ?thesis using n1 n2 n3 r1 r2 k3 by (auto simp: map_page_def failed_def)
      next
        case r3: (Inr u)
        have "vm_inv v3" "table_at v3 [?i4, ?i3] = Some (start_address pd)"
          "\<not> (length [?i4, ?i3] = 2 \<and> present (tables v3 (start_address pd) ?i2) \<and> huge (tables v3 (start_address pd) ?i2))"
          using n3 r3 by (auto simp: keeps_view_def simp del: walk.simps)
        from next_table_spec [OF this(1) _ _ this(2) _ this(3), unfolded append.simps] obtain r4 v4 where
          n4: "next_table v3 pd ?i2 = Some (r4, v4)" "keeps_view v3 v4"
            "case r4 of Inl e \<Rightarrow> failed v4 e | Inr f \<Rightarrow> table_at v4 (dir_path virt) = Some (start_address f)"
          by (auto simp del: walk.simps)
        have k4: "keeps_view v v4" using k3 n4(2) keeps_view_trans by blast
        have m: "map_page v virt phys fl = (case r4 of Inl e \<Rightarrow> Some (Inl e, v4) | Inr pt \<Rightarrow>
            Some (Inr (), put_entry v4 pt (pt_index virt) (set_frame phys (fl OR PRESENT))))"
          using n1(1) n2(1) n3(1) n4(1) r1 r2 r3 by (simp add: map_page_def split: sum.split)
        show ?thesis
        proof (cases r4)
          case (Inl e)
          then show ?thesis using m n4(3) k4 by (auto simp: failed_def)
        next
          case (Inr pt)
          then show ?thesis using m n4(3) k4
            by (intro disjI2 exI [of _ v4] exI [of _ "start_address pt"]) (simp del: walk.simps)
        qed
      qed
    qed
  qed
qed

lemma view_entry_mapped:
  assumes "valid_flags fl" and "valid_frame (start_address phys)"
  shows "view_entry off (set_frame phys (fl OR PRESENT)) =
    Some (start_address phys + off, (fl OR PRESENT) AND NOT HUGE_PAGE)"
proof -
  have v: "valid_flags (fl OR PRESENT)" using assms(1) by (simp add: valid_flags_def bit.conj_disj_distrib2)
  have "contains (fl OR PRESENT) PRESENT" unfolding contains_flag_bits bit_or_iff by (simp add: PRESENT_def)
  then show ?thesis using flags_set_frame [OF v] target_set_frame [OF v, of phys] assms(2)
    by (simp add: view_entry_def valid_frame_def)
qed

lemma unmap_page_table:
  assumes "table_at v (dir_path virt) = Some t"
  shows "unmap_page v virt = (if present (tables v t (pt_index virt))
    then (Inr (PhysFrame (target (tables v t (pt_index virt)))), put_entry v (PhysFrame t) (pt_index virt) entry_new)
    else (Inl NotMapped, v))"
  using assms by (auto simp: unmap_page_def descend_child child_def split: if_splits)

text \<open>The whole effect of \<^verbatim>\<open>map_page\<close>, with the pages it may have taken from the allocator.\<close>

lemma map_page_spec:
  assumes "vm_inv v" and "valid_flags fl" and "valid_frame (start_address phys)"
  shows "\<exists>r v'. map_page v virt phys fl = Some (r, v') \<and> vm_inv v' \<and> cr3 v' = cr3 v
    \<and> free_page_set (allocator v') \<subseteq> free_page_set (allocator v) \<and>
    (case r of
       Inr _ \<Rightarrow> (\<forall>x. page_view v' x = (if same_page x virt
           then Some (start_address phys + (x AND 0xFFF), (fl OR PRESENT) AND NOT HUGE_PAGE) else page_view v x))
     | Inl e \<Rightarrow> e = FrameAllocationFailed \<and> free_page_set (allocator v') = {} \<and> page_view v' = page_view v)"
  using map_page_descent [OF assms(1), of virt phys fl]
proof (elim disjE exE conjE)
  fix v' assume "map_page v virt phys fl = Some (Inl FrameAllocationFailed, v')" "keeps_view v v'"
    "failed v' FrameAllocationFailed"
  then show ?thesis by (auto simp: keeps_view_def failed_def)
next
  fix v' pt assume "map_page v virt phys fl =
      Some (Inr (), put_entry v' (PhysFrame pt) (pt_index virt) (set_frame phys (fl OR PRESENT)))"
    "keeps_view v v'" "table_at v' (dir_path virt) = Some pt"
  then show ?thesis using put_leaf_spec [of v' virt pt] view_entry_mapped [OF assms(2,3)]
    by (simp add: keeps_view_def put_entry_def put_table_def del: walk.simps)
qed

section \<open>Properties\<close>

text \<open> C9: \<^verbatim>\<open>map_page\<close> refines a one-page update of the address space. On a well-formed state it returns without
  panic. On success exactly the page of \<open>virt\<close> changes: it maps to the given frame with the given flags and
  the present bit, and every other address keeps its physical address and flags, also inside a 2 MiB page
  that had to be split. The only error is a failed frame allocation; it happens only when no page is free, and
  leaves every mapping as it was. The invariant holds again in both cases.\<close>

theorem map_page_refines_update:
  assumes "vm_inv v" and "valid_flags fl" and "valid_frame (start_address phys)"
  shows "\<exists>r v'. map_page v virt phys fl = Some (r, v') \<and> vm_inv v' \<and>
    (case r of
       Inr _ \<Rightarrow> (\<forall>x. page_view v' x = (if same_page x virt
           then Some (start_address phys + (x AND 0xFFF), (fl OR PRESENT) AND NOT HUGE_PAGE) else page_view v x))
     | Inl e \<Rightarrow> e = FrameAllocationFailed \<and> free_page_set (allocator v') = {} \<and> page_view v' = page_view v)"
  using map_page_spec [OF assms, of virt] by blast

definition demo_vm :: vm where
  "demo_vm = \<lparr>tables = (\<lambda>_ _. 0), cr3 = 0x10000, allocator = demo_buddy\<rparr>"

lemma demo_vm_inv: "vm_inv demo_vm"
proof -
  have w: "walk (\<lambda>_ _. 0) d t p = (if p = [] then Some t else None)" for d t p
    by (cases p) (simp_all add: child_def)
  have r: "unat (root demo_vm) div 4096 = 16"
    by (simp add: demo_vm_def active_pml4_def FRAME_MASK_def)
  have "tree_ok (\<lambda>_ _. 0) (root demo_vm) {1, 2, 3}"
    by (rule tree_okI) (use r in \<open>auto simp: w split: if_splits\<close>)
  then show ?thesis using demo_buddy_invar demo_buddy_free by (simp add: vm_inv_def demo_vm_def)
qed

theorem map_page_refines_update_witness:
  "\<exists>r v'. map_page demo_vm 0x400000 (PhysFrame 0x8000) (PRESENT OR WRITABLE) = Some (r, v') \<and> vm_inv v'
     \<and> (case r of Inr _ \<Rightarrow> page_view v' 0x400123 = Some (0x8123, 3) | Inl e \<Rightarrow> e = FrameAllocationFailed)"
proof -
  have f: "valid_flags (PRESENT OR WRITABLE)" "valid_frame (start_address (PhysFrame 0x8000))"
    by (simp_all add: valid_flags_def all_flags_eq PRESENT_def WRITABLE_def valid_frame_def FRAME_MASK_def)
  have s: "same_page 0x400123 0x400000"
    by (simp add: same_page_def pml4_index_def pdpt_index_def pd_index_def pt_index_def)
  show ?thesis
    using map_page_refines_update [OF demo_vm_inv f, of "0x400000"] s
    by (auto simp: PRESENT_def WRITABLE_def HUGE_PAGE_def split: sum.splits)
qed

text \<open>After a successful \<^verbatim>\<open>map_page\<close>, \<^verbatim>\<open>translate\<close> sends every address of the page to the frame plus the
  offset in the page and \<^verbatim>\<open>translate_flags\<close>, when no 1 GiB entry intervenes, answers the given flags with the
  present bit (up to bit 7); \<^verbatim>\<open>translate\<close> gives the same answer as before for all other addresses.\<close>

lemma translate_after_map:
  assumes "vm_inv v" and "valid_flags fl" and "valid_frame (start_address phys)"
    and "map_page v virt phys fl = Some (Inr (), v')"
  shows "(same_page x virt \<longrightarrow> translate v' x = Some (start_address phys + (x AND 0xFFF))
      \<and> (no_gib_page v' x \<longrightarrow> map_option (\<lambda>f. f AND NOT HUGE_PAGE) (translate_flags v' x)
           = Some ((fl OR PRESENT) AND NOT HUGE_PAGE)))
    \<and> (\<not> same_page x virt \<longrightarrow> translate v' x = translate v x)"
  using map_page_descent [OF assms(1), of virt phys fl]
proof (elim disjE exE conjE)
  fix u assume "map_page v virt phys fl = Some (Inl FrameAllocationFailed, u)"
  then show ?thesis using assms(4) by simp
next
  fix u pt assume u: "map_page v virt phys fl =
      Some (Inr (), put_entry u (PhysFrame pt) (pt_index virt) (set_frame phys (fl OR PRESENT)))"
    "keeps_view v u" "table_at u (dir_path virt) = Some pt"
  then have "page_view v' x = (if same_page x virt
      then Some (start_address phys + (x AND 0xFFF), (fl OR PRESENT) AND NOT HUGE_PAGE) else page_view v x)"
    using put_leaf_spec(2) [of u virt pt _ x] view_entry_mapped [OF assms(2,3)] assms(4)
    by (simp add: keeps_view_def del: walk.simps)
  then show ?thesis by (simp add: translate_view translate_flags_view)
qed

definition demo_tables :: page_tables where
  "demo_tables t i = (if t = 0x10000 \<and> i = 0 then 0x11007 else if t = 0x11000 \<and> i = 0 then 0x12007
     else if t = 0x12000 \<and> i = 2 then 0x13007 else if t = 0x12000 \<and> i = 3 then 0x600083 else 0)"

definition demo_mapped :: vm where
  "demo_mapped = demo_vm\<lparr>tables := demo_tables\<rparr>"

lemma demo_child:
  "child d (demo_tables t i) = (if t = 0x10000 \<and> i = 0 then Some 0x11000 else if t = 0x11000 \<and> i = 0 then Some 0x12000
     else if t = 0x12000 \<and> i = 2 then Some 0x13000 else if t = 0x12000 \<and> i = 3 \<and> d \<noteq> 2 then Some 0x600000 else None)"
  by (simp add: child_def demo_tables_def contains_flag_bits flags_def from_bits_truncate_def all_flags_eq
      FRAME_MASK_def)

lemma demo_walk:
  "length p \<le> 3 \<Longrightarrow> walk demo_tables 0 0x10000 p = Some t \<Longrightarrow>
     (p, t) \<in> {([], 0x10000), ([0], 0x11000), ([0, 0], 0x12000), ([0, 0, 2], 0x13000)}"
proof (induction p arbitrary: t rule: rev_induct)
  case (snoc i q)
  then obtain u where u: "walk demo_tables 0 0x10000 q = Some u" "child (length q) (demo_tables u i) = Some t"
    by (auto simp: walk_snoc split: option.splits)
  then have "(q, u) \<in> {([], 0x10000), ([0], 0x11000), ([0, 0], 0x12000), ([0, 0, 2], 0x13000)}" "length q \<le> 2"
    using snoc by auto
  then show ?case using u(2) by (elim insertE) (simp_all add: demo_child split: if_splits)
qed simp

lemma demo_root: "root demo_mapped = 0x10000"
  by (simp add: demo_mapped_def demo_vm_def active_pml4_def FRAME_MASK_def)

lemma demo_mapped_inv: "vm_inv demo_mapped"
proof -
  have "tree_ok demo_tables 0x10000 {1, 2, 3}"
  proof (rule tree_okI)
    fix p q t assume "valid_path p" "valid_path q" "walk demo_tables 0 0x10000 p = Some t"
      "walk demo_tables 0 0x10000 q = Some t"
    then show "p = q" using demo_walk [of p t] demo_walk [of q t] by (auto simp: valid_path_def)
  next
    fix p t assume "valid_path p" "walk demo_tables 0 0x10000 p = Some t"
    then show "unat t div 4096 \<notin> {1, 2, 3}" using demo_walk [of p t] by (auto simp: valid_path_def)
  next
    fix p t i assume "valid_path p" "length p = 2" "walk demo_tables 0 0x10000 p = Some t"
    then have "t = 0x12000" using demo_walk [of p t] by (auto simp: valid_path_def)
    then have "target (demo_tables t i) \<in> {0x13000, 0x600000, 0}" by (auto simp: demo_tables_def FRAME_MASK_def)
    then show "unat (target (demo_tables t i)) + 0x200000 \<le> 2 ^ 52" by auto
  qed
  then show ?thesis using demo_buddy_invar demo_buddy_free demo_root
    by (simp add: vm_inv_def demo_mapped_def demo_vm_def)
qed

definition demo_after :: vm where
  "demo_after = put_entry demo_mapped (PhysFrame 0x13000) 5 (set_frame (PhysFrame 0x8000) (3 OR PRESENT))"

lemma demo_map: "map_page demo_mapped 0x405000 (PhysFrame 0x8000) 3 = Some (Inr (), demo_after)"
  unfolding map_page_def next_table_def split_huge_def demo_after_def
  by (simp add: get_table_def demo_root pml4_index_def pdpt_index_def pd_index_def pt_index_def frame_def
      demo_mapped_def demo_vm_def active_pml4_def demo_tables_def contains_flag_bits flags_def
      from_bits_truncate_def all_flags_eq FRAME_MASK_def)

lemma demo_valid: "valid_flags 3" "valid_frame (start_address (PhysFrame 0x8000))"
  by (simp_all add: valid_flags_def all_flags_eq valid_frame_def FRAME_MASK_def)

lemma demo_same: "same_page 0x405123 0x405000" "\<not> same_page 0x605123 0x405000"
  by (simp_all add: same_page_def pml4_index_def pdpt_index_def pd_index_def pt_index_def)

text \<open> C10: \<^verbatim>\<open>unmap_page\<close> on an address outside the 2 MiB pages answers \<^verbatim>\<open>NotMapped\<close> and changes nothing exactly when
  the address is unmapped; otherwise it returns the frame the page was mapped to, and afterwards that page is
  unmapped, every other mapping is as before and the invariant holds.\<close>

theorem unmap_page_removes_mapping:
  assumes inv: "vm_inv v"
    and "\<forall>pd. table_at v [pml4_index virt, pdpt_index virt] = Some pd \<longrightarrow> \<not> huge (tables v pd (pd_index virt))"
  shows "case page_view v virt of
      None \<Rightarrow> unmap_page v virt = (Inl NotMapped, v)
    | Some (pa, _) \<Rightarrow> \<exists>f v'. unmap_page v virt = (Inr f, v') \<and> pa = start_address f + (virt AND 0xFFF) \<and> vm_inv v'
        \<and> (\<forall>x. page_view v' x = (if same_page x virt then None else page_view v x))"
proof (cases "table_at v (dir_path virt)")
  case None
  from view_no_table [OF None] assms(2) have "page_view v virt = None"
    by (simp add: page_view_def split: option.split del: walk.simps)
  moreover have "unmap_page v virt = (Inl NotMapped, v)"
    using None assms(2) by (auto simp: unmap_page_def descend_child child_def split: if_splits)
  ultimately show ?thesis by simp
next
  case (Some t)
  let ?e = "tables v t (pt_index virt)"
  have pv: "page_view v virt = view_entry (virt AND 0xFFF) ?e" unfolding page_view_def by (rule view_table [OF Some])
  show ?thesis
  proof (cases "present ?e")
    case True
    have "page_view (put_entry v (PhysFrame t) (pt_index virt) entry_new) x =
        (if same_page x virt then None else page_view v x)" for x
      using put_leaf_spec(2) [OF inv Some] by (simp add: entry_new_def view_entry_def)
    then show ?thesis using unmap_page_table [OF Some] True pv put_leaf_spec(1) [OF inv Some] by (simp add: view_entry_def)
  next
    case False
    then show ?thesis using unmap_page_table [OF Some] pv by (simp add: view_entry_def)
  qed
qed

lemma demo_dir: "table_at demo_mapped [pml4_index 0x405000, pdpt_index 0x405000] = Some 0x12000"
  unfolding demo_root
  by (simp add: demo_mapped_def demo_child pml4_index_def pdpt_index_def)

theorem unmap_page_removes_mapping_witness:
  "unmap_page demo_mapped 0x405000 = (Inl NotMapped, demo_mapped)"
proof -
  have d: "table_at demo_mapped (dir_path 0x405000) = Some 0x13000"
    unfolding walk_dir demo_dir by (simp add: demo_mapped_def demo_child pd_index_def)
  have "page_view demo_mapped 0x405000 = None"
    unfolding page_view_def view_table [OF d] by (simp add: demo_mapped_def demo_tables_def view_entry_def)
  moreover have "\<not> huge (tables demo_mapped 0x12000 (pd_index 0x405000))"
    by (simp add: demo_mapped_def demo_tables_def pd_index_def contains_flag_bits flags_def from_bits_truncate_def all_flags_eq)
  ultimately show ?thesis using unmap_page_removes_mapping [OF demo_mapped_inv, of "0x405000"] demo_dir
    by (simp del: walk.simps)
qed

text \<open>Unmapping a page right after mapping it returns the frame that was mapped and, if the page was
  unmapped before, restores the whole address space.\<close>

lemma map_unmap_roundtrip:
  assumes "vm_inv v" and "valid_flags fl" and "valid_frame (start_address phys)"
    and "map_page v virt phys fl = Some (Inr (), v1)" and "\<forall>x. same_page x virt \<longrightarrow> page_view v x = None"
  shows "\<exists>v2. unmap_page v1 virt = (Inr phys, v2) \<and> vm_inv v2 \<and> page_view v2 = page_view v"
  using map_page_descent [OF assms(1), of virt phys fl]
proof (elim disjE exE conjE)
  fix u assume "map_page v virt phys fl = Some (Inl FrameAllocationFailed, u)"
  then show ?thesis using assms(4) by simp
next
  let ?e = "set_frame phys (fl OR PRESENT)"
  fix u pt assume u: "map_page v virt phys fl = Some (Inr (), put_entry u (PhysFrame pt) (pt_index virt) ?e)"
    "keeps_view v u" "table_at u (dir_path virt) = Some pt"
  let ?u = "put_entry u (PhysFrame pt) (pt_index virt) ?e"
  have v1: "v1 = ?u" using u(1) assms(4) by simp
  have inv: "vm_inv u" and pv: "page_view u = page_view v" using u(2) by (auto simp: keeps_view_def)
  have ok: "tree_ok (tables u) (root u) (free_page_set (allocator u))" using inv by (simp add: vm_inv_def)
  have tb: "tables ?u = (tables u)(pt := (tables u pt)(pt_index virt := ?e))" and r: "root ?u = root u"
    by (simp_all add: put_entry_def put_table_def get_table_def active_pml4_def)
  have t: "table_at ?u (dir_path virt) = Some pt"
    unfolding tb r using walk_leaf_write [OF ok _ _ u(3), of "dir_path virt"] u(3) by (simp del: walk.simps)
  have "present ?e" "target ?e = start_address phys"
    using view_entry_mapped [OF assms(2,3), of 0] by (auto simp: view_entry_def split: if_splits)
  then have "unmap_page v1 virt = (Inr phys, put_entry ?u (PhysFrame pt) (pt_index virt) entry_new)"
    using unmap_page_table [OF t] by (simp add: v1 tb)
  moreover have "page_view (put_entry ?u (PhysFrame pt) (pt_index virt) entry_new) = page_view v"
    using put_leaf_spec(2) [OF put_leaf_spec(1) [OF inv u(3)] t, of entry_new] put_leaf_spec(2) [OF inv u(3)] assms(5)
    by (intro ext) (simp add: pv entry_new_def view_entry_def)
  ultimately show ?thesis using put_leaf_spec(1) [OF put_leaf_spec(1) [OF inv u(3)] t] by blast
qed

text \<open>On an address inside a 2 MiB page, \<^verbatim>\<open>unmap_page\<close> takes the data of the page for a page table: if the
  word at the table index happens to have its lowest bit set, the call reports success with a frame read from
  that word, overwrites the word with zero, and the address stays mapped.\<close>

lemma unmap_page_in_huge_page:
  assumes "table_at v [pml4_index virt, pdpt_index virt] = Some pd" and "tables v pd (pd_index virt) = e"
    and "present e" and "huge e" and "present (tables v (target e) (pt_index virt))"
    and "\<forall>p. length p \<le> 2 \<longrightarrow> table_at v p \<noteq> Some (target e)"
  shows "\<exists>v'. unmap_page v virt = (Inr (PhysFrame (target (tables v (target e) (pt_index virt)))), v')
    \<and> tables v' (target e) (pt_index virt) = 0 \<and> translate v' virt = Some (target e + (virt AND 0x1FFFFF))"
proof -
  let ?v = "put_entry v (PhysFrame (target e)) (pt_index virt) entry_new"
  from assms(1) obtain pdpt where c4: "child 0 (tables v (root v) (pml4_index virt)) = Some pdpt"
    and c3: "child 1 (tables v pdpt (pdpt_index virt)) = Some pd" by (auto split: option.splits)
  have ch: "descend v (PhysFrame t) i = Some (PhysFrame u)" if "child d (tables v t i) = Some u" for d t i u
    using that by (auto simp: descend_child child_def split: if_splits)
  have am: "active_pml4 v = PhysFrame (root v)" by simp
  have d: "descend v (active_pml4 v) (pml4_index virt) = Some (PhysFrame pdpt)"
    "descend v (PhysFrame pdpt) (pdpt_index virt) = Some (PhysFrame pd)"
    "descend v (PhysFrame pd) (pd_index virt) = Some (PhysFrame (target e))"
    using ch [OF c4] ch [OF c3] am assms(2,3) by (simp_all add: descend_child)
  have ne: "root v \<noteq> target e" "pdpt \<noteq> target e" "pd \<noteq> target e"
    using assms(6) [rule_format, of "[]"] assms(6) [rule_format, of "[pml4_index virt]"] c4
      assms(6) [rule_format, of "[pml4_index virt, pdpt_index virt]"] assms(1) by auto
  have same: "get_table ?v (PhysFrame t) = get_table v (PhysFrame t)" if "t \<noteq> target e" for t
    using that by (simp add: get_table_def put_entry_def put_table_def)
  have sd: "descend ?v (PhysFrame t) = descend v (PhysFrame t)" if "t \<noteq> target e" for t
    using same [OF that] by (simp add: descend_def fun_eq_iff)
  have a: "active_pml4 ?v = active_pml4 v" by (simp add: put_entry_def put_table_def active_pml4_def)
  have "descend ?v (active_pml4 v) = descend v (active_pml4 v)" using sd [OF ne(1)] am by simp
  then have "translate ?v virt = Some (target e + (virt AND 0x1FFFFF))"
    using d sd [OF ne(2)] sd [OF ne(3)] same [OF ne(3)] assms(2,4) unfolding translate_def a
    by (simp add: get_table_def)
  moreover have "unmap_page v virt = (Inr (PhysFrame (target (tables v (target e) (pt_index virt)))), ?v)"
    using d assms(5) by (simp add: unmap_page_def) (simp add: descend_child)
  ultimately show ?thesis by (simp add: put_entry_def put_table_def get_table_def entry_new_def)
qed

definition demo_huge :: vm where
  "demo_huge = demo_mapped\<lparr>tables := demo_tables(0x600000 := (\<lambda>_. 0x5001))\<rparr>"

text \<open>A 1 GiB entry is known to \<^verbatim>\<open>translate_flags\<close> but followed as a table by \<^verbatim>\<open>translate\<close>.\<close>

lemma translate_ignores_gib_pages:
  assumes "table_at v [pml4_index virt] = Some t" and "present (tables v t (pdpt_index virt))"
    and "huge (tables v t (pdpt_index virt))" and "tables v (target (tables v t (pdpt_index virt))) (pd_index virt) = 0"
  shows "translate v virt = None \<and> translate_flags v virt = Some (flags (tables v t (pdpt_index virt)))"
  using assms by (auto simp: translate_def translate_flags_def descend_child child_def get_table_def split: if_splits option.splits)

end
