(* ===== verification/Mem.thy ===== *)
theory Mem
  imports Prelude
begin

text \<open>
  Byte-addressed memory as the firmware tables and boot structures use it: little-endian loads of a machine word at
  any address (\<^verbatim>\<open>core::ptr::read_unaligned\<close> and field accesses of \<^verbatim>\<open>repr(C)\<close> structures).
\<close>

type_synonym memory = "u64 \<Rightarrow> u8"

primrec le_nat :: "u8 list \<Rightarrow> nat" where
  "le_nat [] = 0"
| "le_nat (b # bs) = unat b + 256 * le_nat bs"

definition load_bytes :: "memory \<Rightarrow> u64 \<Rightarrow> nat \<Rightarrow> u8 list" where
  "load_bytes m a n = map (\<lambda>i. m (a + of_nat i)) [0 ..< n]"

definition load_u32 :: "memory \<Rightarrow> u64 \<Rightarrow> u32" where
  "load_u32 m a = of_nat (le_nat (load_bytes m a 4))"

definition load_u64 :: "memory \<Rightarrow> u64 \<Rightarrow> u64" where
  "load_u64 m a = of_nat (le_nat (load_bytes m a 8))"

lemma le_nat_bound: "le_nat bs < 256 ^ length bs"
proof (induction bs)
  case (Cons b bs)
  have "unat b < 256" using unsigned_less [of b, where 'a = nat] by simp
  then show ?case using Cons by simp
qed simp

lemma length_load_bytes [simp]: "length (load_bytes m a n) = n"
  by (simp add: load_bytes_def)

lemma load_bytes_nth [simp]: "i < n \<Longrightarrow> load_bytes m a n ! i = m (a + of_nat i)"
  by (simp add: load_bytes_def)

lemma unat_load_u32: "unat (load_u32 m a) = le_nat (load_bytes m a 4)"
  using le_nat_bound [of "load_bytes m a 4"] by (simp add: load_u32_def unat_of_nat_small)

lemma load_bytes_cong:
  "(\<And>i. i < n \<Longrightarrow> m (a + of_nat i) = m' (a + of_nat i)) \<Longrightarrow> load_bytes m a n = load_bytes m' a n"
  by (simp add: load_bytes_def)

lemma load_u32_bytes: "load_u32 m a = of_nat (le_nat [m a, m (a + 1), m (a + 2), m (a + 3)])"
  by (simp add: load_u32_def load_bytes_def upt_conv_Cons)

text \<open>Little-endian stores: the low \<open>n\<close> bytes of a number, and what a load reads back.\<close>

primrec le_bytes :: "nat \<Rightarrow> nat \<Rightarrow> u8 list" where
  "le_bytes 0 v = []"
| "le_bytes (Suc n) v = of_nat v # le_bytes n (v div 256)"

lemma length_le_bytes [simp]: "length (le_bytes n v) = n"
  by (induction n arbitrary: v) simp_all

lemma le_nat_le_bytes: "le_nat (le_bytes n v) = v mod 256 ^ n"
proof (induction n arbitrary: v)
  case (Suc n)
  have "unat (of_nat v :: u8) = v mod 256" by (simp add: unat_of_nat)
  then show ?case using Suc by (simp add: mod_mult2_eq add.commute)
qed simp

text \<open>A memory that holds given bytes from an address on, and zero elsewhere.\<close>

definition mem_at :: "u64 \<Rightarrow> u8 list \<Rightarrow> memory" where
  "mem_at base bs a = (let i = unat (a - base) in if i < length bs then bs ! i else 0)"

lemma upt_small:
  "[0 ..< 4] = [0, 1, 2, 3 :: nat]" "[0 ..< 8] = [0, 1, 2, 3, 4, 5, 6, 7 :: nat]"
  "[0 ..< 20] = [0, 1, 2, 3, 4, 5, 6, 7, 8, 9, 10, 11, 12, 13, 14, 15, 16, 17, 18, 19 :: nat]"
  by (simp_all add: upt_conv_Cons)

end
