(* ===== verification/Elf.thy ===== *)
theory Elf
  imports Paging Mem
begin

text \<open>
  The ELF loader (\<^verbatim>\<open>hammam/src/loader/elf.rs\<close>). The file format is read by the crate \<^verbatim>\<open>xmas_elf\<close>: the function from the
  bytes of a file to its entry point and program headers is a parameter of the model. The loader works on the address
  space of theory \<open>Paging\<close> and on the bytes of physical memory: an access to a virtual address goes to the byte that
  the page tables name, and an access to an unmapped address does not return. The bytes of the frames that hold page
  tables or free-list headers are kept apart in the address space and the allocator; the loader writes to frames it has
  just allocated only.
\<close>

section \<open>Files\<close>

datatype segment_type = Load | Dynamic | OtherType

record program_header =
  ph_type :: "segment_type option"
  virtual_addr :: u64
  file_size :: u64
  mem_size :: u64
  ph_offset :: u64
  is_write :: bool
  is_execute :: bool

record elf_file =
  entry_point :: u64
  program_iter :: "program_header list"

datatype elf_error = InvalidMagic | InvalidElf | AllocationError | MappingError

definition elf_error_of_alloc :: "alloc_error \<Rightarrow> elf_error" where
  "elf_error_of_alloc e = AllocationError"

section \<open>Memory accesses\<close>

record machine =
  space :: vm
  ram :: "u64 \<Rightarrow> u8"

definition write_byte :: "machine \<Rightarrow> u64 \<Rightarrow> u8 \<Rightarrow> machine option" where
  "write_byte k a b = (case translate (space k) a of None \<Rightarrow> None | Some p \<Rightarrow> Some (k\<lparr>ram := (ram k)(p := b)\<rparr>))"

definition read_byte :: "machine \<Rightarrow> u64 \<Rightarrow> u8 option" where
  "read_byte k a = map_option (ram k) (translate (space k) a)"

text \<open>\<^verbatim>\<open>copy_nonoverlapping\<close> and \<^verbatim>\<open>write_bytes\<close>\<close>

primrec write_list :: "machine \<Rightarrow> u64 \<Rightarrow> u8 list \<Rightarrow> machine option" where
  "write_list k a [] = Some k"
| "write_list k a (b # bs) = do { k' \<leftarrow> write_byte k a b; write_list k' (a + 1) bs }"

primrec read_list :: "machine \<Rightarrow> u64 \<Rightarrow> nat \<Rightarrow> u8 list option" where
  "read_list k a 0 = Some []"
| "read_list k a (Suc n) = do { b \<leftarrow> read_byte k a; bs \<leftarrow> read_list k (a + 1) n; Some (b # bs) }"

definition read_volatile :: "machine \<Rightarrow> u64 \<Rightarrow> u64 option" where
  "read_volatile k a = map_option (\<lambda>bs. of_nat (le_nat bs)) (read_list k a 8)"

definition to_bytes :: "u64 \<Rightarrow> u8 list" where
  "to_bytes w = map (\<lambda>i. ucast (drop_bit (8 * i) w)) [0 ..< 8]"

definition write_volatile :: "machine \<Rightarrow> u64 \<Rightarrow> u64 \<Rightarrow> machine option" where
  "write_volatile k a w = write_list k a (to_bytes w)"

section \<open>Loading\<close>

definition segment_flags :: "program_header \<Rightarrow> page_flags" where
  "segment_flags ph =
     (let page_flags = PRESENT OR USER_ACCESSIBLE;
          page_flags = (if is_write ph then page_flags OR WRITABLE else page_flags)
      in if is_execute ph then page_flags else page_flags OR NO_EXECUTE)"

text \<open>The loop over the pages of a segment; \<open>n\<close> pages are left, the next is number \<open>i\<close>.\<close>

primrec map_pages ::
  "vm \<Rightarrow> u64 \<Rightarrow> page_flags \<Rightarrow> nat \<Rightarrow> nat \<Rightarrow> ((elf_error + unit) \<times> vm) option" where
  "map_pages v start_page fl i 0 = Some (Inr (), v)"
| "map_pages v start_page fl i (Suc n) =
     do {
       (r, a) \<leftarrow> allocate (allocator v) 0;
       let v1 = v\<lparr>allocator := a\<rparr>;
       (case r of
          Inl e \<Rightarrow> Some (Inl (elf_error_of_alloc e), v1)
        | Inr f \<Rightarrow>
            do {
              page_vaddr \<leftarrow> checked_add start_page (of_nat (i * 0x1000));
              (m, v2) \<leftarrow> map_page v1 page_vaddr f fl;
              (case m of Inl _ \<Rightarrow> Some (Inl MappingError, v2) | Inr _ \<Rightarrow> map_pages v2 start_page fl (i + 1) n)
            })
     }"

definition load_segment ::
  "u8 list \<Rightarrow> machine \<Rightarrow> u64 \<Rightarrow> program_header \<Rightarrow> ((elf_error + unit) \<times> machine) option" where
  "load_segment dat k load_offset ph =
     do {
       vaddr \<leftarrow> checked_add (virtual_addr ph) load_offset;
       let start_page = vaddr AND NOT 0xFFF;
       e1 \<leftarrow> checked_add vaddr (mem_size ph);
       e2 \<leftarrow> checked_add e1 0xFFF;
       bytes \<leftarrow> checked_sub (e2 AND NOT 0xFFF) start_page;
       (r, v) \<leftarrow> map_pages (space k) start_page (segment_flags ph) 0 (unat (bytes div 0x1000));
       let k1 = k\<lparr>space := v\<rparr>;
       (case r of
          Inl e \<Rightarrow> Some (Inl e, k1)
        | Inr _ \<Rightarrow>
            do {
              k2 \<leftarrow> (if 0 < file_size ph then
                       do {
                         src_end \<leftarrow> checked_add (ph_offset ph) (file_size ph);
                         if unat src_end \<le> length dat
                         then write_list k1 vaddr (take (unat (file_size ph)) (drop (unat (ph_offset ph)) dat))
                         else None
                       }
                     else Some k1);
              k3 \<leftarrow> (if file_size ph < mem_size ph
                     then write_list k2 (vaddr + file_size ph) (replicate (unat (mem_size ph - file_size ph)) 0)
                     else Some k2);
              Some (Inr (), k3)
            })
     }"

primrec load_segments ::
  "u8 list \<Rightarrow> machine \<Rightarrow> u64 \<Rightarrow> program_header list \<Rightarrow> ((elf_error + unit) \<times> machine) option" where
  "load_segments dat k load_offset [] = Some (Inr (), k)"
| "load_segments dat k load_offset (ph # phs) =
     (if ph_type ph \<noteq> Some Load then load_segments dat k load_offset phs
      else do {
        (r, k1) \<leftarrow> load_segment dat k load_offset ph;
        (case r of Inl e \<Rightarrow> Some (Inl e, k1) | Inr _ \<Rightarrow> load_segments dat k1 load_offset phs)
      })"

section \<open>Relocations\<close>

record rela =
  rela_va :: u64
  rela_size :: u64
  rela_ent :: u64

text \<open>\<^verbatim>\<open>u64::from_ne_bytes\<close> of eight bytes of the file; a range outside the file panics.\<close>

definition file_u64 :: "u8 list \<Rightarrow> nat \<Rightarrow> u64 option" where
  "file_u64 dat i = (if i + 8 \<le> length dat then Some (of_nat (le_nat (take 8 (drop i dat)))) else None)"

function scan_dynamic :: "u8 list \<Rightarrow> nat \<Rightarrow> nat \<Rightarrow> nat \<Rightarrow> rela \<Rightarrow> rela option" where
  "scan_dynamic dat dyn_off dyn_sz i t =
     (if i + 16 \<le> dyn_sz then
        do {
          d_tag \<leftarrow> file_u64 dat (dyn_off + i);
          d_val \<leftarrow> file_u64 dat (dyn_off + i + 8);
          if d_tag = 7 then scan_dynamic dat dyn_off dyn_sz (i + 16) (t\<lparr>rela_va := d_val\<rparr>)
          else if d_tag = 8 then scan_dynamic dat dyn_off dyn_sz (i + 16) (t\<lparr>rela_size := d_val\<rparr>)
          else if d_tag = 9 then scan_dynamic dat dyn_off dyn_sz (i + 16) (t\<lparr>rela_ent := d_val\<rparr>)
          else if d_tag = 0 then Some t
          else scan_dynamic dat dyn_off dyn_sz (i + 16) t
        }
      else Some t)"
  by pat_completeness auto
termination
  by (relation "measure (\<lambda>(dat, off, sz, i, t). sz - i)") auto

primrec relocate :: "machine \<Rightarrow> u64 \<Rightarrow> rela \<Rightarrow> nat \<Rightarrow> nat \<Rightarrow> machine option" where
  "relocate k delta t i 0 = Some k"
| "relocate k delta t i (Suc n) =
     do {
       base \<leftarrow> checked_add (rela_va t) delta;
       off \<leftarrow> checked_mul (of_nat i) (rela_ent t);
       entry_va \<leftarrow> checked_add base off;
       r_offset \<leftarrow> read_volatile k entry_va;
       info_va \<leftarrow> checked_add entry_va 8;
       r_info \<leftarrow> read_volatile k info_va;
       addend_va \<leftarrow> checked_add entry_va 16;
       r_addend \<leftarrow> read_volatile k addend_va;
       let r_type = (ucast (r_info AND 0xFFFFFFFF) :: u32);
       k' \<leftarrow> (if r_type = 8 then
                do {
                  target_va \<leftarrow> checked_add r_offset delta;
                  write_volatile k target_va (r_addend + delta)
                }
              else Some k);
       relocate k' delta t (i + 1) n
     }"

definition apply_relocations ::
  "(u8 list \<Rightarrow> elf_file option) \<Rightarrow> u8 list \<Rightarrow> machine \<Rightarrow> u64 \<Rightarrow> ((elf_error + unit) \<times> machine) option" where
  "apply_relocations elf_parse dat k load_offset =
     (if load_offset = 0 \<or> 0x100000000 < load_offset then Some (Inr (), k)
      else
        (case elf_parse dat of
           None \<Rightarrow> Some (Inl InvalidMagic, k)
         | Some elf \<Rightarrow>
             do {
               t \<leftarrow> (case filter (\<lambda>ph. ph_type ph = Some Dynamic) (program_iter elf) of
                       [] \<Rightarrow> Some \<lparr>rela_va = 0, rela_size = 0, rela_ent = 24\<rparr>
                     | ph # _ \<Rightarrow> scan_dynamic dat (unat (ph_offset ph)) (unat (file_size ph)) 0
                                   \<lparr>rela_va = 0, rela_size = 0, rela_ent = 24\<rparr>);
               if rela_va t = 0 \<or> rela_size t = 0 then Some (Inr (), k)
               else if rela_ent t = 0 then None
               else do {
                 k' \<leftarrow> relocate k load_offset t 0 (unat (rela_size t div rela_ent t));
                 Some (Inr (), k')
               }
             }))"

definition USER_BASE :: u64 where
  "USER_BASE = 0x10000000"

definition first_load_vaddr :: "program_header list \<Rightarrow> u64" where
  "first_load_vaddr phs =
     (case map virtual_addr (filter (\<lambda>ph. ph_type ph = Some Load) phs) of [] \<Rightarrow> 0 | a # as \<Rightarrow> foldl min a as)"

definition load_offset_of :: "elf_file \<Rightarrow> u64" where
  "load_offset_of elf = (if first_load_vaddr (program_iter elf) < 0x1000 then USER_BASE else 0)"

definition elf_load ::
  "(u8 list \<Rightarrow> elf_file option) \<Rightarrow> u8 list \<Rightarrow> machine \<Rightarrow> ((elf_error + u64) \<times> machine) option" where
  "elf_load elf_parse dat k =
     (case elf_parse dat of
        None \<Rightarrow> Some (Inl InvalidMagic, k)
      | Some elf \<Rightarrow>
          do {
            let load_offset = load_offset_of elf;
            entry \<leftarrow> checked_add (entry_point elf) load_offset;
            (r, k1) \<leftarrow> load_segments dat k load_offset (program_iter elf);
            (case r of
               Inl e \<Rightarrow> Some (Inl e, k1)
             | Inr _ \<Rightarrow>
                 do {
                   (q, k2) \<leftarrow> apply_relocations elf_parse dat k1 load_offset;
                   (case q of Inl e \<Rightarrow> Some (Inl e, k2) | Inr _ \<Rightarrow> Some (Inr entry, k2))
                 })
          })"

section \<open>Pages that belong to the loaded program\<close>

abbreviation page_no :: "u64 \<Rightarrow> nat" where
  "page_no a \<equiv> unat a div 4096"

text \<open>\<open>F\<close> maps page numbers to the frame and flags the loader has given them. Frames of different pages are different
  and not free, and the page tables send every address of such a page into its frame.\<close>

type_synonym page_map = "nat \<Rightarrow> (u64 \<times> page_flags) option"

definition loaded :: "vm \<Rightarrow> page_map \<Rightarrow> bool" where
  "loaded v F \<longleftrightarrow> vm_inv v
     \<and> (\<forall>n f fl. F n = Some (f, fl) \<longrightarrow> n < 2 ^ 36 \<and> valid_frame f \<and> unat f div 4096 \<notin> free_page_set (allocator v))
     \<and> (\<forall>m n f fl gl. F m = Some (f, fl) \<longrightarrow> F n = Some (f, gl) \<longrightarrow> m = n)
     \<and> (\<forall>a f fl. F (page_no a) = Some (f, fl) \<longrightarrow> page_view v a = Some (f + (a AND 0xFFF), fl))"

lemma loadedD:
  assumes "loaded v F"
  shows "vm_inv v" "F n = Some (f, fl) \<Longrightarrow> n < 2 ^ 36 \<and> valid_frame f \<and> unat f div 4096 \<notin> free_page_set (allocator v)"
    "F m = Some (f, fl) \<Longrightarrow> F n = Some (f, gl) \<Longrightarrow> m = n"
    "F (page_no a) = Some (f, fl) \<Longrightarrow> page_view v a = Some (f + (a AND 0xFFF), fl)"
  using assms unfolding loaded_def by blast+

lemma loaded_empty: "vm_inv v \<Longrightarrow> loaded v (\<lambda>_. None)"
  by (simp add: loaded_def)

lemma unat_low12: "unat (a AND 0xFFF :: u64) = unat a mod 4096"
  using unat_and_mask [of a 12] by (simp add: mask_consts)

lemma index_unat:
  "pt_index a = unat a div 2 ^ 12 mod 512" "pd_index a = unat a div 2 ^ 21 mod 512"
  "pdpt_index a = unat a div 2 ^ 30 mod 512" "pml4_index a = unat a div 2 ^ 39 mod 512"
proof -
  have "unat (drop_bit n a AND 0x1FF) = unat a div 2 ^ n mod 512" for n
    by (simp only: mask_consts unat_and_mask unat_drop_bit_eq) (simp add: drop_bit_eq_div)
  then show "pt_index a = unat a div 2 ^ 12 mod 512" "pd_index a = unat a div 2 ^ 21 mod 512"
    "pdpt_index a = unat a div 2 ^ 30 mod 512" "pml4_index a = unat a div 2 ^ 39 mod 512"
    by (simp_all only: pt_index_def pd_index_def pdpt_index_def pml4_index_def)
qed

lemma page_digits:
  fixes n :: nat
  assumes "n < 2 ^ 36"
  shows "n = n mod 512 + 512 * (n div 2 ^ 9 mod 512) + 2 ^ 18 * (n div 2 ^ 18 mod 512) + 2 ^ 27 * (n div 2 ^ 27 mod 512)"
proof -
  define a b c where "a = n div 512" and "b = a div 512" and "c = b div 512"
  have d: "n div 2 ^ 9 = a" "n div 2 ^ 18 = b" "n div 2 ^ 27 = c" by (simp_all add: a_def b_def c_def div_mult2_eq [symmetric])
  have "c < 512" using assms unfolding d(3) [symmetric] by (simp add: less_mult_imp_div_less)
  then have "c mod 512 = c" by simp
  moreover have "n = 512 * a + n mod 512" "a = 512 * b + a mod 512" "b = 512 * c + b mod 512"
    by (simp_all only: a_def b_def c_def mult_div_mod_eq)
  ultimately show ?thesis unfolding d by simp
qed

lemma same_page_iff:
  assumes "unat a < 2 ^ 48" and "unat b < 2 ^ 48"
  shows "same_page a b \<longleftrightarrow> page_no a = page_no b"
proof
  have digit: "pt_index x = page_no x mod 512" "pd_index x = page_no x div 2 ^ 9 mod 512"
    "pdpt_index x = page_no x div 2 ^ 18 mod 512" "pml4_index x = page_no x div 2 ^ 27 mod 512" for x
    by (simp_all add: index_unat div_mult2_eq [symmetric])
  assume "page_no a = page_no b"
  then show "same_page a b" by (simp add: same_page_def digit)
next
  have digit: "pt_index x = page_no x mod 512" "pd_index x = page_no x div 2 ^ 9 mod 512"
    "pdpt_index x = page_no x div 2 ^ 18 mod 512" "pml4_index x = page_no x div 2 ^ 27 mod 512" for x
    by (simp_all add: index_unat div_mult2_eq [symmetric])
  assume "same_page a b"
  then have "page_no a mod 512 = page_no b mod 512" "page_no a div 2 ^ 9 mod 512 = page_no b div 2 ^ 9 mod 512"
    "page_no a div 2 ^ 18 mod 512 = page_no b div 2 ^ 18 mod 512" "page_no a div 2 ^ 27 mod 512 = page_no b div 2 ^ 27 mod 512"
    by (simp_all only: same_page_def digit list.inject)
  moreover have "page_no a < 2 ^ 36" "page_no b < 2 ^ 36" using assms by (simp_all add: less_mult_imp_div_less)
  ultimately show "page_no a = page_no b" using page_digits by metis
qed

lemma page_no_bound: "page_no a < 2 ^ 36 \<longleftrightarrow> unat a < 2 ^ 48"
  using div_less_iff_less_mult [of 4096 "unat a" "2 ^ 36"] by simp

lemma vm_inv_take_page:
  assumes "vm_inv v" and "allocate (allocator v) 0 = Some (Inr f, a)"
  shows "vm_inv (v\<lparr>allocator := a\<rparr>)" "page_view (v\<lparr>allocator := a\<rparr>) = page_view v"
    "valid_frame (start_address f)" "page_no (start_address f) \<in> free_page_set (allocator v)"
    "free_page_set a = free_page_set (allocator v) - {page_no (start_address f)}"
proof -
  have v: "buddy_invar (allocator v)" "free_page_set (allocator v) \<subseteq> {..< 2 ^ 40}"
    "tree_ok (tables v) (root v) (free_page_set (allocator v))" using assms(1) by (auto simp: vm_inv_def)
  note a = allocate_page_frame [OF v(1) assms(2) v(2)]
  have "tree_ok (tables v) (root v) (free_page_set a)" using v(3) unfolding tree_ok_def a(3) by blast
  then show "vm_inv (v\<lparr>allocator := a\<rparr>)" using a v(2) by (auto simp: vm_inv_def active_pml4_def)
  show "page_view (v\<lparr>allocator := a\<rparr>) = page_view v" by (simp add: page_view_def active_pml4_def)
  show "valid_frame (start_address f)" "page_no (start_address f) \<in> free_page_set (allocator v)"
    "free_page_set a = free_page_set (allocator v) - {page_no (start_address f)}" using a by auto
qed

lemma loaded_map:
  assumes L: "loaded v F" and virt: "unat virt < 2 ^ 48" and fl: "valid_flags fl"
    and al: "allocate (allocator v) 0 = Some (Inr f, a)" and mp: "map_page (v\<lparr>allocator := a\<rparr>) virt f fl = Some (Inr (), v')"
  shows "loaded v' (F(page_no virt \<mapsto> (start_address f, (fl OR PRESENT) AND NOT HUGE_PAGE)))"
proof -
  note t = vm_inv_take_page [OF loadedD(1) [OF L] al]
  from map_page_spec [OF t(1) fl t(3), of virt] mp have m: "vm_inv v'" "free_page_set (allocator v') \<subseteq> free_page_set a"
    "\<And>x. page_view v' x = (if same_page x virt then Some (start_address f + (x AND 0xFFF), (fl OR PRESENT) AND NOT HUGE_PAGE)
       else page_view v x)" by (auto simp: t(2))
  have fresh: "\<And>n g gl. F n = Some (g, gl) \<Longrightarrow> g \<noteq> start_address f" using loadedD(2) [OF L] t(4) by blast
  have vb: "page_no virt < 2 ^ 36" using virt by (simp only: page_no_bound)
  show ?thesis
    unfolding loaded_def
  proof (intro conjI allI impI)
    show "vm_inv v'" by (rule m(1))
  next
    fix n g gl assume n: "(F(page_no virt \<mapsto> (start_address f, (fl OR PRESENT) AND NOT HUGE_PAGE))) n = Some (g, gl)"
    show "n < 2 ^ 36" "valid_frame g" "page_no g \<notin> free_page_set (allocator v')"
      using n loadedD(2) [OF L, of n g gl] vb t(3,5) m(2) by (auto split: if_splits)
  next
    fix p n g gl hl
    assume "(F(page_no virt \<mapsto> (start_address f, (fl OR PRESENT) AND NOT HUGE_PAGE))) p = Some (g, gl)"
      "(F(page_no virt \<mapsto> (start_address f, (fl OR PRESENT) AND NOT HUGE_PAGE))) n = Some (g, hl)"
    then show "p = n" using loadedD(3) [OF L] by (auto split: if_splits dest: fresh)
  next
    fix x g gl assume x: "(F(page_no virt \<mapsto> (start_address f, (fl OR PRESENT) AND NOT HUGE_PAGE))) (page_no x) = Some (g, gl)"
    then have "page_no x < 2 ^ 36" using vb loadedD(2) [OF L] by (auto split: if_splits)
    then have "same_page x virt \<longleftrightarrow> page_no x = page_no virt" using virt by (simp only: page_no_bound same_page_iff)
    then show "page_view v' x = Some (g + (x AND 0xFFF), gl)"
      using x loadedD(4) [OF L, of x g gl] by (auto simp: m(3) split: if_splits)
  qed
qed

lemma map_pages_spec:
  assumes fl: "valid_flags fl" and al: "unat start mod 4096 = 0"
  shows "loaded v F \<Longrightarrow> unat start + 4096 * (i + n) \<le> 2 ^ 48 \<Longrightarrow>
    \<exists>r v'. map_pages v start fl i n = Some (r, v') \<and>
      (case r of Inl e \<Rightarrow> e \<in> {AllocationError, MappingError} \<and> free_page_set (allocator v') = {}
       | Inr _ \<Rightarrow> \<exists>F'. loaded v' F'
           \<and> (\<forall>m \<in> {page_no start + i ..< page_no start + i + n}. \<exists>f. F' m = Some (f, (fl OR PRESENT) AND NOT HUGE_PAGE))
           \<and> (\<forall>m. m \<notin> {page_no start + i ..< page_no start + i + n} \<longrightarrow> F' m = F m))"
proof (induction n arbitrary: v F i)
  case 0
  then show ?case by (auto intro!: exI [of _ F])
next
  case (Suc n)
  let ?fl = "(fl OR PRESENT) AND NOT HUGE_PAGE"
  have inv: "buddy_invar (allocator v)" using loadedD(1) [OF Suc.prems(1)] by (simp add: vm_inv_def)
  obtain r a where ra: "allocate (allocator v) 0 = Some (r, a)" using buddy.alloc_total [OF inv] by blast
  show ?case
  proof (cases r)
    case (Inl e)
    then have "a = allocator v \<and> free_page_set (allocator v) = {}" using allocate_page_error [OF inv, of e a] ra by simp
    then show ?thesis using ra Inl by (simp add: elf_error_of_alloc_def)
  next
    case (Inr f)
    have lt: "i * 0x1000 < 2 ^ 48" using Suc.prems(2) by simp
    then have u: "unat (of_nat (i * 0x1000) :: u64) = i * 0x1000" by (intro unat_of_nat_small) simp
    let ?va = "start + of_nat (i * 0x1000)"
    have bound: "unat start + i * 0x1000 < 2 ^ 48" using Suc.prems(2) by simp
    then have va: "checked_add start (of_nat (i * 0x1000)) = Some ?va" "unat ?va = unat start + i * 0x1000"
    proof -
      have "unat start + unat (of_nat (i * 0x1000) :: u64) < 2 ^ LENGTH(64)" using bound unfolding u by simp
      then show "checked_add start (of_nat (i * 0x1000)) = Some ?va" "unat ?va = unat start + i * 0x1000"
        by (simp_all only: checked_add_def if_True unat_add_no_wrap u)
    qed
    have pn: "page_no ?va = page_no start + i" unfolding va(2) by simp
    have alr: "allocate (allocator v) 0 = Some (Inr f, a)" using ra Inr by simp
    note t = vm_inv_take_page [OF loadedD(1) [OF Suc.prems(1)] alr]
    from map_page_spec [OF t(1) fl t(3), of ?va] obtain q v2 where q: "map_page (v\<lparr>allocator := a\<rparr>) ?va f fl = Some (q, v2)"
      "case q of Inr _ \<Rightarrow> (\<forall>x. page_view v2 x = (if same_page x ?va
           then Some (start_address f + (x AND 0xFFF), ?fl) else page_view (v\<lparr>allocator := a\<rparr>) x))
       | Inl e \<Rightarrow> e = FrameAllocationFailed \<and> free_page_set (allocator v2) = {} \<and> page_view v2 = page_view (v\<lparr>allocator := a\<rparr>)"
      by blast
    show ?thesis
    proof (cases q)
      case (Inl e)
      then show ?thesis using q alr va(1) by simp
    next
      case qr: (Inr x)
      have va48: "unat ?va < 2 ^ 48" using va(2) bound by simp
      have L2: "loaded v2 (F(page_no ?va \<mapsto> (start_address f, ?fl)))"
        using loaded_map [OF Suc.prems(1) va48 fl alr, of v2] q(1) qr by simp
      have step: "map_pages v start fl i (Suc n) = map_pages v2 start fl (i + 1) n" using alr va(1) q(1) qr by simp
      have "unat start + 4096 * (i + 1 + n) \<le> 2 ^ 48" using Suc.prems(2) by simp
      from Suc.IH [OF L2 this] obtain r' v' where r': "map_pages v2 start fl (i + 1) n = Some (r', v')"
        "case r' of Inl e \<Rightarrow> e \<in> {AllocationError, MappingError} \<and> free_page_set (allocator v') = {}
         | Inr _ \<Rightarrow> \<exists>F'. loaded v' F'
             \<and> (\<forall>m \<in> {page_no start + (i + 1) ..< page_no start + (i + 1) + n}. \<exists>f. F' m = Some (f, ?fl))
             \<and> (\<forall>m. m \<notin> {page_no start + (i + 1) ..< page_no start + (i + 1) + n} \<longrightarrow>
                   F' m = (F(page_no ?va \<mapsto> (start_address f, ?fl))) m)" by blast
      show ?thesis
      proof (cases r')
        case (Inl e)
        then show ?thesis using step r' by simp
      next
        case (Inr y)
        then obtain F' where F': "loaded v' F'"
          "\<forall>m \<in> {page_no start + (i + 1) ..< page_no start + (i + 1) + n}. \<exists>f. F' m = Some (f, ?fl)"
          "\<forall>m. m \<notin> {page_no start + (i + 1) ..< page_no start + (i + 1) + n} \<longrightarrow>
             F' m = (F(page_no start + i \<mapsto> (start_address f, ?fl))) m" using r'(2) unfolding pn by auto
        have "\<exists>f. F' m = Some (f, ?fl)" if "m \<in> {page_no start + i ..< page_no start + i + Suc n}" for m
          using F'(2,3) that by (cases "m = page_no start + i") auto
        moreover have "F' m = F m" if "m \<notin> {page_no start + i ..< page_no start + i + Suc n}" for m
          using F'(3) that by auto
        ultimately show ?thesis using step r'(1) Inr F'(1) by auto
      qed
    qed
  qed
qed

section \<open>Contents of the loaded pages\<close>

definition vmem :: "machine \<Rightarrow> page_map \<Rightarrow> u64 \<Rightarrow> u8 option" where
  "vmem k F a = (case F (page_no a) of None \<Rightarrow> None | Some (f, _) \<Rightarrow> Some (ram k (f + (a AND 0xFFF))))"

lemma read_byte_vmem: "loaded (space k) F \<Longrightarrow> vmem k F a = Some b \<Longrightarrow> read_byte k a = Some b"
  using loadedD(4) [of "space k" F a] by (auto simp: vmem_def read_byte_def translate_view split: option.splits)

lemma frame_offset_inj:
  assumes "valid_frame f" and "valid_frame g" and "f + (x AND 0xFFF) = g + (a AND 0xFFF)"
  shows "f = g" and "unat x mod 4096 = unat a mod 4096"
proof -
  have f: "unat f < 2 ^ 52" "unat f mod 4096 = 0" "unat g < 2 ^ 52" "unat g mod 4096 = 0"
    using valid_frame_bound assms(1,2) by auto
  have u: "unat (f + (x AND 0xFFF)) = unat f + unat x mod 4096" "unat (g + (a AND 0xFFF)) = unat g + unat a mod 4096"
    using f by (simp_all add: unat_add_no_wrap unat_low12)
  have eq: "unat f + unat x mod 4096 = unat g + unat a mod 4096" using u assms(3) by simp
  then have "(unat f + unat x mod 4096) mod 4096 = (unat g + unat a mod 4096) mod 4096" by simp
  then show m: "unat x mod 4096 = unat a mod 4096" using f by (simp add: mod_add_eq [symmetric])
  then show "f = g" using eq by (simp add: word_unat_eq_iff)
qed

lemma write_byte_spec:
  assumes L: "loaded (space k) F" and a: "F (page_no a) = Some (f, fl)"
  shows "\<exists>k'. write_byte k a b = Some k' \<and> space k' = space k \<and> (\<forall>x. vmem k' F x = (if x = a then Some b else vmem k F x))"
proof -
  let ?k = "k\<lparr>ram := (ram k)(f + (a AND 0xFFF) := b)\<rparr>"
  have "write_byte k a b = Some ?k" using loadedD(4) [OF L a] by (simp add: write_byte_def translate_view)
  moreover have "vmem ?k F x = (if x = a then Some b else vmem k F x)" for x
  proof (cases "F (page_no x)")
    case None
    then show ?thesis using a by (auto simp: vmem_def)
  next
    case (Some g)
    obtain h gl where g: "g = (h, gl)" by (cases g)
    have "x = a" if e: "h + (x AND 0xFFF) = f + (a AND 0xFFF)"
    proof -
      have v: "valid_frame h" "valid_frame f" using loadedD(2) [OF L] Some a g by blast+
      note i = frame_offset_inj [OF v e]
      then have "page_no x = page_no a" using loadedD(3) [OF L, of "page_no x"] Some a g by blast
      then have "unat x = unat a" using i(2) by (metis div_mult_mod_eq)
      then show ?thesis by (simp add: word_unat_eq_iff)
    qed
    then show ?thesis using Some a g by (auto simp: vmem_def)
  qed
  ultimately show ?thesis by auto
qed

lemma write_list_spec:
  "loaded (space k) F \<Longrightarrow> unat a + length bs \<le> 2 ^ 48 \<Longrightarrow> (\<And>x. unat a \<le> unat x \<Longrightarrow> unat x < unat a + length bs \<Longrightarrow> F (page_no x) \<noteq> None) \<Longrightarrow>
   \<exists>k'. write_list k a bs = Some k' \<and> space k' = space k
     \<and> (\<forall>x. vmem k' F x = (if unat a \<le> unat x \<and> unat x < unat a + length bs then Some (bs ! (unat x - unat a)) else vmem k F x))"
proof (induction bs arbitrary: k a)
  case (Cons b bs)
  obtain f fl where f: "F (page_no a) = Some (f, fl)" using Cons.prems(3) [of a] by auto
  obtain k1 where k1: "write_byte k a b = Some k1" "space k1 = space k" "\<And>x. vmem k1 F x = (if x = a then Some b else vmem k F x)"
    using write_byte_spec [OF Cons.prems(1) f] by blast
  have u: "unat (a + 1) = unat a + 1" using Cons.prems(2) by (simp add: unat_add_no_wrap)
  have L1: "loaded (space k1) F" using Cons.prems(1) k1(2) by simp
  obtain k' where k': "write_list k1 (a + 1) bs = Some k'" "space k' = space k1"
    "\<And>x. vmem k' F x = (if unat (a + 1) \<le> unat x \<and> unat x < unat (a + 1) + length bs then Some (bs ! (unat x - unat (a + 1))) else vmem k1 F x)"
    using Cons.IH [OF L1, of "a + 1"] Cons.prems(2,3) unfolding u by auto
  have "vmem k' F x = (if unat a \<le> unat x \<and> unat x < unat a + length (b # bs) then Some ((b # bs) ! (unat x - unat a)) else vmem k F x)" for x
  proof (cases "x = a")
    case False
    then have "unat x \<noteq> unat a" by (simp add: word_unat_eq_iff)
    then show ?thesis using k'(3) [of x] k1(3) [of x] False unfolding u by (auto simp: nth_Cons')
  qed (use k'(3) [of a] k1(3) [of a] u in simp)
  then show ?case using k1(1,2) k'(1,2) by auto
qed auto

section \<open>Segments\<close>

definition seg_start :: "u64 \<Rightarrow> program_header \<Rightarrow> nat" where
  "seg_start off ph = unat (virtual_addr ph) + unat off"

definition seg_pages :: "u64 \<Rightarrow> program_header \<Rightarrow> nat set" where
  "seg_pages off ph = {seg_start off ph div 4096 ..< (seg_start off ph + unat (mem_size ph) + 4095) div 4096}"

definition seg_byte :: "u8 list \<Rightarrow> program_header \<Rightarrow> nat \<Rightarrow> u8" where
  "seg_byte dat ph i = (if i < unat (file_size ph) then dat ! (unat (ph_offset ph) + i) else 0)"

definition seg_ok :: "u8 list \<Rightarrow> u64 \<Rightarrow> program_header \<Rightarrow> bool" where
  "seg_ok dat off ph \<longleftrightarrow> seg_start off ph + unat (mem_size ph) + 4096 \<le> 2 ^ 48 \<and> file_size ph \<le> mem_size ph
     \<and> unat (ph_offset ph) + unat (file_size ph) \<le> length dat \<and> length dat < 2 ^ 63"

lemma segment_flags_valid: "valid_flags (segment_flags ph)" "(segment_flags ph OR PRESENT) AND NOT HUGE_PAGE = segment_flags ph"
  by (simp_all add: segment_flags_def valid_flags_def all_flags_eq PRESENT_def USER_ACCESSIBLE_def WRITABLE_def
      NO_EXECUTE_def HUGE_PAGE_def)

lemma seg_arith:
  assumes "seg_ok dat off ph"
  obtains va e1 e2 bytes where "checked_add (virtual_addr ph) off = Some va" "unat va = seg_start off ph"
    "checked_add va (mem_size ph) = Some e1" "checked_add e1 0xFFF = Some e2"
    "checked_sub (e2 AND NOT 0xFFF) (va AND NOT 0xFFF) = Some bytes" "unat (va AND NOT 0xFFF) mod 4096 = 0"
    "page_no (va AND NOT 0xFFF) = seg_start off ph div 4096"
    "seg_start off ph div 4096 + unat (bytes div 0x1000) = (seg_start off ph + unat (mem_size ph) + 4095) div 4096"
proof -
  let ?s = "seg_start off ph" and ?m = "unat (mem_size ph)"
  have b: "?s + ?m + 4096 \<le> 2 ^ 48" using assms by (simp add: seg_ok_def)
  let ?va = "virtual_addr ph + off"
  have va: "checked_add (virtual_addr ph) off = Some ?va" "unat ?va = ?s"
    using b by (simp_all add: seg_start_def checked_add_def unat_add_no_wrap)
  have e1: "checked_add ?va (mem_size ph) = Some (?va + mem_size ph)" "unat (?va + mem_size ph) = ?s + ?m"
    using b va(2) by (simp_all add: checked_add_def unat_add_no_wrap)
  let ?e2 = "?va + mem_size ph + 0xFFF"
  have e2: "checked_add (?va + mem_size ph) 0xFFF = Some ?e2" "unat ?e2 = ?s + ?m + 4095"
    using b e1(2) by (simp_all add: checked_add_def unat_add_no_wrap)
  have al: "unat (w AND NOT 0xFFF) = unat w div 4096 * 4096" for w :: u64
    using unat_and_not_mask [of w 12] by (simp add: mask_consts minus_mod_eq_div_mult)
  let ?p = "?va AND NOT 0xFFF" and ?q = "?e2 AND NOT 0xFFF"
  have p: "unat ?p = ?s div 4096 * 4096" and q: "unat ?q = (?s + ?m + 4095) div 4096 * 4096"
    by (simp_all only: al va(2) e2(2))
  have le: "?s div 4096 \<le> (?s + ?m + 4095) div 4096" by (intro div_le_mono) simp
  then have "?p \<le> ?q" unfolding word_le_nat_alt p q by (intro mult_le_mono1)
  then have sub: "checked_sub ?q ?p = Some (?q - ?p)" "unat (?q - ?p) = unat ?q - unat ?p"
    by (simp_all add: checked_sub_def unat_sub)
  have "unat ((?q - ?p) div 0x1000) = (unat ?q - unat ?p) div 4096" by (simp only: unat_div_distrib sub(2)) simp
  also have "\<dots> = (?s + ?m + 4095) div 4096 - ?s div 4096" unfolding p q diff_mult_distrib [symmetric] by simp
  finally have "?s div 4096 + unat ((?q - ?p) div 0x1000) = (?s + ?m + 4095) div 4096" using le by simp
  then show thesis using that [OF va e1(1) e2(1) sub(1)] p by simp
qed

lemma load_segment_spec:
  assumes L: "loaded (space k) F" and ok: "seg_ok dat off ph"
  shows "\<exists>r k'. load_segment dat k off ph = Some (r, k') \<and>
    (case r of Inl e \<Rightarrow> e \<in> {AllocationError, MappingError} \<and> free_page_set (allocator (space k')) = {}
     | Inr _ \<Rightarrow> \<exists>F'. loaded (space k') F' \<and> (\<forall>m \<in> seg_pages off ph. \<exists>f. F' m = Some (f, segment_flags ph))
         \<and> (\<forall>m. m \<notin> seg_pages off ph \<longrightarrow> F' m = F m)
         \<and> (\<forall>x. page_no x \<notin> seg_pages off ph \<longrightarrow> vmem k' F' x = vmem k F x)
         \<and> (\<forall>x. seg_start off ph \<le> unat x \<and> unat x < seg_start off ph + unat (mem_size ph) \<longrightarrow>
              vmem k' F' x = Some (seg_byte dat ph (unat x - seg_start off ph))))"
proof -
  let ?s = "seg_start off ph" and ?m = "unat (mem_size ph)" and ?z = "unat (file_size ph)"
  obtain va e1 e2 bytes where a: "checked_add (virtual_addr ph) off = Some va" "unat va = ?s"
    "checked_add va (mem_size ph) = Some e1" "checked_add e1 0xFFF = Some e2"
    "checked_sub (e2 AND NOT 0xFFF) (va AND NOT 0xFFF) = Some bytes" "unat (va AND NOT 0xFFF) mod 4096 = 0"
    "page_no (va AND NOT 0xFFF) = ?s div 4096" "?s div 4096 + unat (bytes div 0x1000) = (?s + ?m + 4095) div 4096"
    using seg_arith [OF ok] by blast
  let ?p = "va AND NOT 0xFFF" and ?n = "unat (bytes div 0x1000)"
  have b: "?s + ?m + 4096 \<le> 2 ^ 48" "?z \<le> ?m" "unat (ph_offset ph) + ?z \<le> length dat" "length dat < 2 ^ 63"
    using ok by (simp_all add: seg_ok_def word_le_nat_alt)
  have pages: "{page_no ?p + 0 ..< page_no ?p + 0 + ?n} = seg_pages off ph" unfolding a(7) seg_pages_def a(8) [symmetric] by simp
  have "unat ?p = 4096 * page_no ?p" using a(6) by (metis mult_div_mod_eq add_0_right)
  then have "unat ?p + 4096 * (0 + ?n) = 4096 * ((?s + ?m + 4095) div 4096)" unfolding a(8) [symmetric] a(7) by simp
  moreover have "4096 * ((?s + ?m + 4095) div 4096) \<le> ?s + ?m + 4095" by (rule times_div_less_eq_dividend)
  ultimately have fit: "unat ?p + 4096 * (0 + ?n) \<le> 2 ^ 48" using b(1) by linarith
  obtain r v where mp: "map_pages (space k) ?p (segment_flags ph) 0 ?n = Some (r, v)"
    and c: "case r of Inl e \<Rightarrow> e \<in> {AllocationError, MappingError} \<and> free_page_set (allocator v) = {}
       | Inr _ \<Rightarrow> \<exists>F'. loaded v F' \<and> (\<forall>m \<in> seg_pages off ph. \<exists>f. F' m = Some (f, segment_flags ph))
           \<and> (\<forall>m. m \<notin> seg_pages off ph \<longrightarrow> F' m = F m)"
    using map_pages_spec [OF segment_flags_valid(1) a(6) L fit] unfolding pages segment_flags_valid(2) by blast
  let ?k1 = "k\<lparr>space := v\<rparr>"
  show ?thesis
  proof (cases r)
    case (Inl e)
    then show ?thesis using c mp a by (simp add: load_segment_def)
  next
    case (Inr u)
    then obtain F' where F': "loaded v F'" "\<forall>m \<in> seg_pages off ph. \<exists>f. F' m = Some (f, segment_flags ph)"
      "\<forall>m. m \<notin> seg_pages off ph \<longrightarrow> F' m = F m" using c by auto
    have in_seg: "page_no x \<in> seg_pages off ph" if "?s \<le> unat x" "unat x < ?s + ?m" for x
    proof -
      have "(unat x + 4096) div 4096 \<le> (?s + ?m + 4095) div 4096" using that(2) by (intro div_le_mono) simp
      then show ?thesis using div_le_mono [OF that(1), of 4096] by (simp add: seg_pages_def)
    qed
    have cov: "F' (page_no x) \<noteq> None" if "?s \<le> unat x" "unat x < ?s + ?m" for x using F'(2) in_seg [OF that] by auto
    have L1: "loaded (space ?k1) F'" using F'(1) by simp
    let ?src = "take ?z (drop (unat (ph_offset ph)) dat)"
    have ls: "length ?src = ?z" using b(3) by simp
    obtain k2 where k2: "write_list ?k1 va ?src = Some k2" "space k2 = v"
      "\<And>x. vmem k2 F' x = (if ?s \<le> unat x \<and> unat x < ?s + ?z then Some (?src ! (unat x - ?s)) else vmem ?k1 F' x)"
      using write_list_spec [OF L1, of va ?src] b cov unfolding a(2) ls by auto
    have nosrc: "\<not> 0 < file_size ph \<Longrightarrow> k2 = ?k1" using k2(1) by (simp add: word_less_nat_alt)
    have src_end: "checked_add (ph_offset ph) (file_size ph) = Some (ph_offset ph + file_size ph)"
      "unat (ph_offset ph + file_size ph) \<le> length dat"
      using b by (simp_all add: checked_add_def unat_add_no_wrap)
    have uz: "unat (va + file_size ph) = ?s + ?z" using a(2) b by (simp add: unat_add_no_wrap)
    have um: "unat (mem_size ph - file_size ph) = ?m - ?z" using b(2) by (simp add: unat_sub word_le_nat_alt)
    have L2: "loaded (space k2) F'" using F'(1) k2(2) by simp
    let ?zeros = "replicate (?m - ?z) (0 :: u8)"
    obtain k3 where k3: "write_list k2 (va + file_size ph) ?zeros = Some k3" "space k3 = v"
      and k3': "\<forall>x. vmem k3 F' x = (if ?s + ?z \<le> unat x \<and> unat x < ?s + ?z + length ?zeros
        then Some (?zeros ! (unat x - (?s + ?z))) else vmem k2 F' x)"
      using write_list_spec [OF L2, of "va + file_size ph" ?zeros] b cov unfolding uz by (auto simp: k2(2))
    have k3x: "vmem k3 F' x = (if ?s + ?z \<le> unat x \<and> unat x < ?s + ?m then Some 0 else vmem k2 F' x)" for x
    proof -
      have "?s + ?z + length ?zeros = ?s + ?m" using b(2) by simp
      moreover have "?zeros ! (unat x - (?s + ?z)) = 0" if "?s + ?z \<le> unat x" "unat x < ?s + ?m"
        using that by (intro nth_replicate) linarith
      ultimately show ?thesis using k3' by presburger
    qed
    have nozero: "\<not> file_size ph < mem_size ph \<Longrightarrow> k3 = k2" using k3(1) by (simp add: word_less_nat_alt)
    have run: "load_segment dat k off ph = Some (Inr (), k3)"
      using a mp Inr k2(1) k3(1) nosrc nozero src_end um by (auto simp: load_segment_def Let_def)
    have other: "vmem k3 F' x = vmem k F x" if "page_no x \<notin> seg_pages off ph" for x
    proof -
      have "\<not> (?s \<le> unat x \<and> unat x < ?s + ?m)" using in_seg that by blast
      then have "vmem k3 F' x = vmem ?k1 F' x" using k3x [of x] k2(3) [of x] b(2) by auto
      also have "\<dots> = vmem k F x" using F'(3) that by (auto simp: vmem_def split: option.splits)
      finally show ?thesis .
    qed
    have here: "vmem k3 F' x = Some (seg_byte dat ph (unat x - ?s))" if "?s \<le> unat x" "unat x < ?s + ?m" for x
      using k3x [of x] k2(3) [of x] that b by (auto simp: seg_byte_def)
    show ?thesis using run F' other here k3(2) by auto
  qed
qed

text \<open>A segment sits in memory as the file says.\<close>

definition placed :: "u8 list \<Rightarrow> machine \<Rightarrow> page_map \<Rightarrow> u64 \<Rightarrow> program_header \<Rightarrow> bool" where
  "placed dat k F off ph \<longleftrightarrow> (\<forall>m \<in> seg_pages off ph. \<exists>f. F m = Some (f, segment_flags ph))
     \<and> (\<forall>x. seg_start off ph \<le> unat x \<and> unat x < seg_start off ph + unat (mem_size ph) \<longrightarrow>
          vmem k F x = Some (seg_byte dat ph (unat x - seg_start off ph)))"

abbreviation loads :: "program_header list \<Rightarrow> program_header list" where
  "loads phs \<equiv> filter (\<lambda>ph. ph_type ph = Some Load) phs"

definition apart :: "u64 \<Rightarrow> program_header list \<Rightarrow> bool" where
  "apart off phs \<longleftrightarrow> sorted_wrt (\<lambda>a b. seg_pages off a \<inter> seg_pages off b = {}) phs"

lemma segment_page:
  assumes "seg_start off ph \<le> unat x" and "unat x < seg_start off ph + unat (mem_size ph)"
  shows "page_no x \<in> seg_pages off ph"
proof -
  have "(unat x + 4096) div 4096 \<le> (seg_start off ph + unat (mem_size ph) + 4095) div 4096"
    using assms(2) by (intro div_le_mono) simp
  then show ?thesis using div_le_mono [OF assms(1), of 4096] by (simp add: seg_pages_def)
qed

lemma load_segments_spec:
  "loaded (space k) F \<Longrightarrow> \<forall>ph \<in> set (loads phs). seg_ok dat off ph \<Longrightarrow> apart off (loads phs) \<Longrightarrow>
   \<exists>r k'. load_segments dat k off phs = Some (r, k') \<and>
    (case r of Inl e \<Rightarrow> e \<in> {AllocationError, MappingError} \<and> free_page_set (allocator (space k')) = {}
     | Inr _ \<Rightarrow> \<exists>F'. loaded (space k') F' \<and> (\<forall>ph \<in> set (loads phs). placed dat k' F' off ph)
         \<and> (\<forall>m. (\<forall>ph \<in> set (loads phs). m \<notin> seg_pages off ph) \<longrightarrow> F' m = F m
              \<and> (\<forall>x. page_no x = m \<longrightarrow> vmem k' F' x = vmem k F x)))"
proof (induction phs arbitrary: k F)
  case Nil
  then show ?case by (auto intro!: exI [of _ F])
next
  case (Cons ph phs)
  show ?case
  proof (cases "ph_type ph = Some Load")
    case False
    then have eq: "loads (ph # phs) = loads phs" "load_segments dat k off (ph # phs) = load_segments dat k off phs" by simp_all
    show ?thesis using Cons.IH [OF Cons.prems(1)] Cons.prems(2,3) unfolding eq by blast
  next
    case True
    have ok: "seg_ok dat off ph" "\<forall>q \<in> set (loads phs). seg_ok dat off q" "apart off (loads phs)"
      and ap: "\<forall>q \<in> set (loads phs). seg_pages off ph \<inter> seg_pages off q = {}"
      using Cons.prems True by (simp_all add: apart_def)
    obtain r1 k1 where s1: "load_segment dat k off ph = Some (r1, k1)"
      and c1: "case r1 of Inl e \<Rightarrow> e \<in> {AllocationError, MappingError} \<and> free_page_set (allocator (space k1)) = {}
         | Inr _ \<Rightarrow> \<exists>F'. loaded (space k1) F' \<and> (\<forall>m \<in> seg_pages off ph. \<exists>f. F' m = Some (f, segment_flags ph))
             \<and> (\<forall>m. m \<notin> seg_pages off ph \<longrightarrow> F' m = F m)
             \<and> (\<forall>x. page_no x \<notin> seg_pages off ph \<longrightarrow> vmem k1 F' x = vmem k F x)
             \<and> (\<forall>x. seg_start off ph \<le> unat x \<and> unat x < seg_start off ph + unat (mem_size ph) \<longrightarrow>
                  vmem k1 F' x = Some (seg_byte dat ph (unat x - seg_start off ph)))"
      using load_segment_spec [OF Cons.prems(1) ok(1)] by blast
    show ?thesis
    proof (cases r1)
      case (Inl e)
      then show ?thesis using s1 c1 True by simp
    next
      case (Inr u)
      then obtain F1 where F1: "loaded (space k1) F1" "placed dat k1 F1 off ph" "\<forall>m. m \<notin> seg_pages off ph \<longrightarrow> F1 m = F m"
        "\<forall>x. page_no x \<notin> seg_pages off ph \<longrightarrow> vmem k1 F1 x = vmem k F x" using c1 by (auto simp: placed_def)
      have step: "load_segments dat k off (ph # phs) = load_segments dat k1 off phs" using s1 Inr True by simp
      obtain r' k' where s': "load_segments dat k1 off phs = Some (r', k')"
        and c': "case r' of Inl e \<Rightarrow> e \<in> {AllocationError, MappingError} \<and> free_page_set (allocator (space k')) = {}
         | Inr _ \<Rightarrow> \<exists>F'. loaded (space k') F' \<and> (\<forall>ph \<in> set (loads phs). placed dat k' F' off ph)
             \<and> (\<forall>m. (\<forall>ph \<in> set (loads phs). m \<notin> seg_pages off ph) \<longrightarrow> F' m = F1 m
                  \<and> (\<forall>x. page_no x = m \<longrightarrow> vmem k' F' x = vmem k1 F1 x))"
        using Cons.IH [OF F1(1) ok(2,3)] by blast
      show ?thesis
      proof (cases r')
        case (Inl e)
        then show ?thesis using step s' c' by simp
      next
        case r': (Inr w)
        then obtain F' where F': "loaded (space k') F'" "\<forall>ph \<in> set (loads phs). placed dat k' F' off ph"
          "\<And>m. \<forall>ph \<in> set (loads phs). m \<notin> seg_pages off ph \<Longrightarrow> F' m = F1 m \<and> (\<forall>x. page_no x = m \<longrightarrow> vmem k' F' x = vmem k1 F1 x)"
          using c' by auto
        have keep: "F' m = F1 m \<and> (\<forall>x. page_no x = m \<longrightarrow> vmem k' F' x = vmem k1 F1 x)" if "m \<in> seg_pages off ph" for m
          using F'(3) ap that by blast
        then have "placed dat k' F' off ph" using F1(2) segment_page unfolding placed_def by metis
        then have pl: "\<forall>q \<in> set (loads (ph # phs)). placed dat k' F' off q" using F'(2) by simp
        have "F' m = F m \<and> (\<forall>x. page_no x = m \<longrightarrow> vmem k' F' x = vmem k F x)"
          if "\<forall>q \<in> set (loads (ph # phs)). m \<notin> seg_pages off q" for m
          using F'(3) [of m] F1(3,4) that True by auto
        then show ?thesis using step s' r' F'(1) pl by auto
      qed
    qed
  qed
qed

section \<open>Properties\<close>

lemma no_relocations:
  assumes "elf_parse dat = Some elf" and "load_offset_of elf = 0 \<or> \<not> (\<exists>ph \<in> set (program_iter elf). ph_type ph = Some Dynamic)"
  shows "apply_relocations elf_parse dat k (load_offset_of elf) = Some (Inr (), k)"
proof (cases "load_offset_of elf = 0")
  case False
  then have "filter (\<lambda>ph. ph_type ph = Some Dynamic) (program_iter elf) = []" using assms(2) by (auto simp: filter_empty_conv)
  then show ?thesis using assms(1) by (simp add: apply_relocations_def)
qed (simp add: apply_relocations_def)

lemma elf_load_spec:
  assumes "elf_parse dat = Some elf" and "loaded (space k) F"
    and "\<forall>ph \<in> set (loads (program_iter elf)). seg_ok dat (load_offset_of elf) ph"
    and "apart (load_offset_of elf) (loads (program_iter elf))"
    and "unat (entry_point elf) + unat (load_offset_of elf) < 2 ^ 64"
    and "load_offset_of elf = 0 \<or> \<not> (\<exists>ph \<in> set (program_iter elf). ph_type ph = Some Dynamic)"
  shows "\<exists>r k'. elf_load elf_parse dat k = Some (r, k') \<and>
    (case r of
       Inl e \<Rightarrow> e \<in> {AllocationError, MappingError} \<and> free_page_set (allocator (space k')) = {}
     | Inr entry \<Rightarrow> entry = entry_point elf + load_offset_of elf
         \<and> (\<exists>F'. loaded (space k') F' \<and> (\<forall>ph \<in> set (loads (program_iter elf)). placed dat k' F' (load_offset_of elf) ph)))"
proof -
  let ?off = "load_offset_of elf" and ?phs = "program_iter elf"
  have e: "checked_add (entry_point elf) ?off = Some (entry_point elf + ?off)" using assms(5) by (simp add: checked_add_def)
  obtain r k' where s: "load_segments dat k ?off ?phs = Some (r, k')"
    and c: "case r of Inl e \<Rightarrow> e \<in> {AllocationError, MappingError} \<and> free_page_set (allocator (space k')) = {}
     | Inr _ \<Rightarrow> \<exists>F'. loaded (space k') F' \<and> (\<forall>ph \<in> set (loads ?phs). placed dat k' F' ?off ph)
         \<and> (\<forall>m. (\<forall>ph \<in> set (loads ?phs). m \<notin> seg_pages ?off ph) \<longrightarrow> F' m = F m
              \<and> (\<forall>x. page_no x = m \<longrightarrow> vmem k' F' x = vmem k F x))"
    using load_segments_spec [OF assms(2-4)] by blast
  show ?thesis
  proof (cases r)
    case (Inl x)
    then show ?thesis using assms(1) e s c by (simp add: elf_load_def)
  next
    case (Inr u)
    have "elf_load elf_parse dat k = Some (Inr (entry_point elf + ?off), k')"
      using assms(1) e s Inr no_relocations [of elf_parse dat elf k', OF assms(1,6)] by (simp add: elf_load_def)
    then show ?thesis using c Inr by auto
  qed
qed

lemma placed_reads:
  assumes "loaded (space k) F" and "placed dat k F off ph"
    and "seg_start off ph \<le> unat x" and "unat x < seg_start off ph + unat (mem_size ph)"
  shows "read_byte k x = Some (seg_byte dat ph (unat x - seg_start off ph))"
    "map_option snd (page_view (space k) x) = Some (segment_flags ph)"
proof -
  obtain f where "F (page_no x) = Some (f, segment_flags ph)" using segment_page assms(2-4) unfolding placed_def by blast
  then show "map_option snd (page_view (space k) x) = Some (segment_flags ph)" using loadedD(4) [OF assms(1)] by simp
  have "vmem k F x = Some (seg_byte dat ph (unat x - seg_start off ph))" using assms(2-4) unfolding placed_def by blast
  then show "read_byte k x = Some (seg_byte dat ph (unat x - seg_start off ph))" by (rule read_byte_vmem [OF assms(1)])
qed


definition demo_header :: program_header where
  "demo_header = \<lparr>ph_type = Some Load, virtual_addr = 0x405000, file_size = 2, mem_size = 4, ph_offset = 1,
     is_write = False, is_execute = True\<rparr>"

definition demo_elf :: elf_file where
  "demo_elf = \<lparr>entry_point = 0x405000, program_iter = [demo_header]\<rparr>"

definition demo_machine :: machine where
  "demo_machine = \<lparr>space = demo_mapped, ram = (\<lambda>_. 7)\<rparr>"


text \<open>A page that two segments share is mapped a second time, to another frame: what the first segment had put there is no
  longer in the program's address space.\<close>

lemma shared_page_replaced:
  assumes L: "loaded v F" and n: "F (page_no start) = Some (g, gl)" and al: "unat start < 2 ^ 48" and fl: "valid_flags fl"
    and mp: "map_pages v start fl 0 1 = Some (Inr (), v')"
  shows "\<exists>f. f \<noteq> g \<and> (\<forall>x. page_no x = page_no start \<longrightarrow> translate v' x = Some (f + (x AND 0xFFF)))"
proof -
  obtain a f where a: "allocate (allocator v) 0 = Some (Inr f, a)" "map_page (v\<lparr>allocator := a\<rparr>) start f fl = Some (Inr (), v')"
    using mp by (auto simp: checked_add_def Let_def split: bind_splits sum.splits prod.splits if_splits)
  have L': "loaded v' (F(page_no start \<mapsto> (start_address f, (fl OR PRESENT) AND NOT HUGE_PAGE)))"
    using loaded_map [OF L al fl a] .
  have "start_address f \<noteq> g" using loadedD(2) [OF L n] vm_inv_take_page(4) [OF loadedD(1) [OF L] a(1)] by blast
  moreover have "translate v' x = Some (start_address f + (x AND 0xFFF))" if "page_no x = page_no start" for x
    using loadedD(4) [OF L', of x] that by (simp add: translate_view)
  ultimately show ?thesis by blast
qed

end
