(* ===== verification/Btree.thy ===== *)
theory Btree
  imports Prelude "HOL-Library.Multiset"
begin

text \<open>
  The ordered map \<^verbatim>\<open>alloc::collections::BTreeMap\<close> as the kernel uses it: a list of key-value pairs in
  strictly increasing key order, which is what its iterators yield. The interface locale
  \<open>keyed_store\<close> states what clients of a map rely on; the page cache, the process table and the run queue
  use it through the interpretation given here.
\<close>

section \<open>Operations\<close>

definition bt_ok :: "('k::linorder \<times> 'v) list \<Rightarrow> bool" where
  "bt_ok m \<longleftrightarrow> sorted_wrt (<) (map fst m)"

text \<open>\<^verbatim>\<open>get\<close> and \<^verbatim>\<open>contains_key\<close>\<close>

definition bt_get :: "('k::linorder \<times> 'v) list \<Rightarrow> 'k \<Rightarrow> 'v option" where
  "bt_get m k = map_of m k"

definition bt_contains_key :: "('k::linorder \<times> 'v) list \<Rightarrow> 'k \<Rightarrow> bool" where
  "bt_contains_key m k \<longleftrightarrow> k \<in> fst ` set m"

text \<open>\<^verbatim>\<open>insert\<close> replaces the value of a key that is present, \<^verbatim>\<open>remove\<close> drops the pair.\<close>

definition bt_insert :: "('k::linorder \<times> 'v) list \<Rightarrow> 'k \<Rightarrow> 'v \<Rightarrow> ('k \<times> 'v) list" where
  "bt_insert m k v = takeWhile (\<lambda>(j, _). j < k) m @ (k, v) # dropWhile (\<lambda>(j, _). j \<le> k) m"

definition bt_remove :: "('k::linorder \<times> 'v) list \<Rightarrow> 'k \<Rightarrow> ('k \<times> 'v) list" where
  "bt_remove m k = filter (\<lambda>(j, _). j \<noteq> k) m"

section \<open>Laws\<close>

lemma bt_ok_Nil [simp]: "bt_ok []"
  by (simp add: bt_ok_def)

lemma bt_ok_Cons [simp]: "bt_ok ((k, v) # m) \<longleftrightarrow> (\<forall>(j, _) \<in> set m. k < j) \<and> bt_ok m"
  by (auto simp: bt_ok_def)

lemma bt_insert_Nil [simp]: "bt_insert [] k v = [(k, v)]"
  by (simp add: bt_insert_def)

lemma bt_insert_Cons:
  "bt_ok ((j, u) # m) \<Longrightarrow> bt_insert ((j, u) # m) k v =
     (if k < j then (k, v) # (j, u) # m else if k = j then (k, v) # m else (j, u) # bt_insert m k v)"
proof -
  assume ok: "bt_ok ((j, u) # m)"
  have "k = j \<Longrightarrow> dropWhile (\<lambda>(j, _). j \<le> k) m = m" using ok by (cases m) auto
  then show ?thesis by (auto simp: bt_insert_def)
qed

lemma set_bt_insert: "bt_ok m \<Longrightarrow> set (bt_insert m k v) = insert (k, v) {(j, u) \<in> set m. j \<noteq> k}"
proof (induction m)
  case (Cons p m)
  then show ?case by (cases p) (auto simp: bt_insert_Cons)
qed simp

lemma bt_ok_insert: "bt_ok m \<Longrightarrow> bt_ok (bt_insert m k v)"
proof (induction m)
  case (Cons p m)
  then show ?case by (cases p) (fastforce simp: bt_insert_Cons set_bt_insert)
qed simp

lemma bt_get_insert: "bt_ok m \<Longrightarrow> bt_get (bt_insert m k v) j = (if j = k then Some v else bt_get m j)"
proof (induction m)
  case Nil
  then show ?case by (simp add: bt_get_def)
next
  case (Cons p m)
  then show ?case by (cases p) (auto simp: bt_get_def bt_insert_Cons)
qed

lemma set_bt_remove [simp]: "set (bt_remove m k) = {(j, u) \<in> set m. j \<noteq> k}"
  by (auto simp: bt_remove_def)

lemma bt_ok_filter: "bt_ok m \<Longrightarrow> bt_ok (filter P m)"
proof (induction m)
  case (Cons p m)
  then show ?case by (cases p) auto
qed simp

lemma bt_ok_remove: "bt_ok m \<Longrightarrow> bt_ok (bt_remove m k)"
  unfolding bt_remove_def by (rule bt_ok_filter)

lemma bt_get_remove: "bt_get (bt_remove m k) j = (if j = k then None else bt_get m j)"
  unfolding bt_get_def bt_remove_def by (induction m) auto

lemma bt_get_Nil [simp]: "bt_get [] k = None"
  by (simp add: bt_get_def)

lemma bt_contains_key_get: "bt_contains_key m k \<longleftrightarrow> bt_get m k \<noteq> None"
  by (auto simp: bt_contains_key_def bt_get_def map_of_eq_None_iff)

lemma bt_get_Some_set: "bt_ok m \<Longrightarrow> bt_get m k = Some v \<longleftrightarrow> (k, v) \<in> set m"
proof -
  assume "bt_ok m"
  then have "distinct (map fst m)" by (simp add: bt_ok_def strict_sorted_iff)
  then show ?thesis by (simp add: bt_get_def)
qed

lemma bt_distinct: "bt_ok m \<Longrightarrow> distinct (map fst m)"
  by (simp add: bt_ok_def strict_sorted_iff)

lemma mset_bt_insert_new:
  "bt_ok m \<Longrightarrow> \<not> bt_contains_key m k \<Longrightarrow> mset (bt_insert m k v) = add_mset (k, v) (mset m)"
proof (induction m)
  case (Cons p m)
  then show ?case by (cases p) (auto simp: bt_insert_Cons bt_contains_key_def)
qed simp

lemma length_bt_insert:
  "bt_ok m \<Longrightarrow> length (bt_insert m k v) = (if bt_contains_key m k then length m else Suc (length m))"
proof (induction m)
  case Nil
  then show ?case by (simp add: bt_contains_key_def)
next
  case (Cons p m)
  then show ?case by (cases p) (auto simp: bt_insert_Cons bt_contains_key_def)
qed

lemma bt_hd_least: "bt_ok ((k, v) # m) \<Longrightarrow> (j, u) \<in> set ((k, v) # m) \<Longrightarrow> k \<le> j"
  by auto

lemma bt_remove_hd: "bt_ok ((k, v) # m) \<Longrightarrow> bt_remove ((k, v) # m) k = m"
  by (auto simp: bt_remove_def intro!: filter_True)

lemma bt_insert_least:
  "(\<forall>(j, _) \<in> set m. k < j) \<Longrightarrow> bt_insert m k v = (k, v) # m"
  by (cases m) (auto simp: bt_insert_def)

section \<open>The interface of a keyed store\<close>

locale keyed_store =
  fixes empty :: 'm
    and insert :: "'m \<Rightarrow> 'k \<Rightarrow> 'v \<Rightarrow> 'm"
    and remove :: "'m \<Rightarrow> 'k \<Rightarrow> 'm"
    and get :: "'m \<Rightarrow> 'k \<Rightarrow> 'v option"
    and invar :: "'m \<Rightarrow> bool"
  assumes invar_empty: "invar empty"
    and get_empty: "get empty k = None"
    and invar_insert: "invar m \<Longrightarrow> invar (insert m k v)"
    and invar_remove: "invar m \<Longrightarrow> invar (remove m k)"
    and get_insert: "invar m \<Longrightarrow> get (insert m k v) j = (if j = k then Some v else get m j)"
    and get_remove: "invar m \<Longrightarrow> get (remove m k) j = (if j = k then None else get m j)"
begin

lemma remove_insert: "invar m \<Longrightarrow> get m k = None \<Longrightarrow> get (remove (insert m k v) k) = get m"
  by (auto simp: get_insert get_remove invar_insert)

lemma invar_fold_remove: "invar m \<Longrightarrow> invar (fold (\<lambda>k m. remove m k) ks m)"
  by (induction ks arbitrary: m) (auto simp: invar_remove)

lemma get_fold_remove:
  "invar m \<Longrightarrow> get (fold (\<lambda>k m. remove m k) ks m) j = (if j \<in> set ks then None else get m j)"
  by (induction ks arbitrary: m) (auto simp: get_remove invar_remove)

end

interpretation bt: keyed_store "[]" bt_insert bt_remove bt_get bt_ok
  by unfold_locales (auto simp: bt_ok_insert bt_ok_remove bt_get_insert bt_get_remove)

end
