(* ===== verification/Sched.thy ===== *)
theory Sched
  imports Btree
begin

text \<open>
  The scheduler (\<^verbatim>\<open>hammam/src/sched/mod.rs\<close>, \<^verbatim>\<open>sched/task.rs\<close>) and the context switch
  (\<^verbatim>\<open>arch/x86_64/context.rs\<close>). Tasks are shared through \<^verbatim>\<open>Arc<Task>\<close> and mutated through raw pointers, so
  they live in a store indexed by references, and the run queue, a \<^verbatim>\<open>BTreeMap\<close> keyed by virtual runtime,
  holds references. The theory proves that no task is lost or duplicated, how the next task is
  chosen, and what the queue discipline means for a running task that has not exited.
\<close>

section \<open>Tasks\<close>

datatype task_state = Running | Ready | Blocked | Dead

record arch_context =
  rbx :: u64
  rbp :: u64
  r12 :: u64
  r13 :: u64
  r14 :: u64
  r15 :: u64
  rsp :: u64

definition context_new :: arch_context where
  "context_new = \<lparr>rbx = 0, rbp = 0, r12 = 0, r13 = 0, r14 = 0, r15 = 0, rsp = 0\<rparr>"

record task =
  id :: u64
  state :: task_state
  priority :: i32
  ctxt :: arch_context
  kernel_stack_top :: u64
  vruntime :: u64
  user_entry :: u64
  user_stack :: u64

text \<open>\<^verbatim>\<open>KernelStack::new\<close>: the end of the boxed stack, rounded down to 16 bytes; \<open>base\<close> is the box's address.\<close>

definition STACK_SIZE :: u64 where
  "STACK_SIZE = 4096 * 4"

definition kernel_stack_new :: "u64 \<Rightarrow> u64" where
  "kernel_stack_new base = (base + STACK_SIZE) AND NOT 0x0F"

definition task_new :: "u64 \<Rightarrow> i32 \<Rightarrow> u64 \<Rightarrow> task" where
  "task_new tid prio stack_base = \<lparr>id = tid, state = Ready, priority = prio, ctxt = context_new,
     kernel_stack_top = kernel_stack_new stack_base, vruntime = 0, user_entry = 0, user_stack = 0\<rparr>"

section \<open>The scheduler\<close>

text \<open>\<open>tasks\<close> is the store behind the \<^verbatim>\<open>Arc\<close> references, \<open>CURRENT_TASK\<close> the static of the same name.\<close>

type_synonym task_ref = nat

record scheduler =
  run_queue :: "(u64 \<times> task_ref) list"
  current :: "task_ref option"
  min_vruntime :: u64
  current_ticks :: u8
  tasks :: "task_ref \<Rightarrow> task"
  CURRENT_TASK :: "task_ref option"

definition QUANTUM_TICKS :: u8 where
  "QUANTUM_TICKS = 10"

definition scheduler_new :: "(task_ref \<Rightarrow> task) \<Rightarrow> scheduler" where
  "scheduler_new store = \<lparr>run_queue = [], current = None, min_vruntime = 0, current_ticks = 0,
     tasks = store, CURRENT_TASK = None\<rparr>"

definition weight :: "i32 \<Rightarrow> u64" where
  "weight prio = 1024 div word_of_int (min (max (sint prio) 1) 1024)"

definition update_task :: "scheduler \<Rightarrow> task_ref \<Rightarrow> (task \<Rightarrow> task) \<Rightarrow> scheduler" where
  "update_task s t f = s\<lparr>tasks := (tasks s)(t := f (tasks s t))\<rparr>"

text \<open>\<^verbatim>\<open>while self.run_queue.contains_key(&key) { key = key.saturating_add(1); }\<close>\<close>

partial_function (option) find_key :: "(u64 \<times> task_ref) list \<Rightarrow> u64 \<Rightarrow> u64 option" where
  "find_key queue key =
     (if bt_contains_key queue key then find_key queue (saturating_add key 1) else Some key)"

definition insert_task_into_queue :: "scheduler \<Rightarrow> task_ref \<Rightarrow> scheduler option" where
  "insert_task_into_queue s t =
     do {
       let start = (case current s of
                      None \<Rightarrow> min_vruntime s
                    | Some c \<Rightarrow> max (min_vruntime s) (saturating_add (vruntime (tasks s c)) 1));
       key \<leftarrow> find_key (run_queue s) start;
       let s1 = (if key \<noteq> vruntime (tasks s t) then update_task s t (\<lambda>x. x\<lparr>vruntime := key\<rparr>) else s);
       Some (s1\<lparr>run_queue := bt_insert (run_queue s1) key t\<rparr>)
     }"

definition add_task :: "scheduler \<Rightarrow> task_ref \<Rightarrow> scheduler option" where
  "add_task s t =
     (if current s = None then Some (s\<lparr>current := Some t\<rparr>) else insert_task_into_queue s t)"

definition pick_next :: "scheduler \<Rightarrow> (task_ref option \<times> scheduler) option" where
  "pick_next s =
     (if run_queue s = [] then Some (None, s)
      else do {
        let taken = s\<lparr>current := None\<rparr>;
        s1 \<leftarrow> (case current s of
                None \<Rightarrow> Some taken
              | Some c \<Rightarrow> if state (tasks s c) \<noteq> Dead then insert_task_into_queue taken c else Some taken);
        (case run_queue s1 of
           [] \<Rightarrow> Some (None, s1)
         | (next_vruntime, nxt) # _ \<Rightarrow>
             Some (Some nxt, s1\<lparr>run_queue := bt_remove (run_queue s1) next_vruntime,
               min_vruntime := next_vruntime, current := Some nxt\<rparr>))
      })"

text \<open>The result is the pair of tasks whose contexts the caller switches between.\<close>

definition schedule_locked :: "scheduler \<Rightarrow> ((task_ref \<times> task_ref) option \<times> scheduler) option" where
  "schedule_locked s =
     (case current s of
        None \<Rightarrow> Some (None, s)
      | Some cur \<Rightarrow>
          do {
            (r, s1) \<leftarrow> pick_next s;
            (case r of
               None \<Rightarrow> Some (None, s1)
             | Some nxt \<Rightarrow>
                 if cur = nxt then Some (None, s1)
                 else
                   let s2 = update_task s1 cur (\<lambda>t. t\<lparr>state := Ready\<rparr>);
                       s3 = update_task s2 nxt (\<lambda>t. t\<lparr>state := Running\<rparr>)
                   in Some (Some (cur, nxt), s3\<lparr>CURRENT_TASK := Some nxt\<rparr>))
          })"

definition tick_increment :: "i32 \<Rightarrow> u64" where
  "tick_increment prio = 1000000 div weight prio"

definition charge :: "scheduler \<Rightarrow> task_ref \<Rightarrow> scheduler" where
  "charge s c = update_task s c
     (\<lambda>t. t\<lparr>vruntime := saturating_add (vruntime t) (tick_increment (priority t))\<rparr>)"

definition count_tick :: "scheduler \<Rightarrow> ((task_ref \<times> task_ref) option \<times> scheduler) option" where
  "count_tick s =
     (let n = saturating_add (current_ticks s) 1 in
      if QUANTUM_TICKS \<le> n then schedule_locked (s\<lparr>current_ticks := 0\<rparr>)
      else Some (None, s\<lparr>current_ticks := n\<rparr>))"

definition tick :: "scheduler \<Rightarrow> ((task_ref \<times> task_ref) option \<times> scheduler) option" where
  "tick s = (case current s of None \<Rightarrow> Some (None, s) | Some c \<Rightarrow> count_tick (charge s c))"

text \<open>The free function \<^verbatim>\<open>tick_now\<close>, called from the timer interrupt, also counts ticks when idle.\<close>

definition tick_now :: "scheduler \<Rightarrow> ((task_ref \<times> task_ref) option \<times> scheduler) option" where
  "tick_now s = count_tick (case current s of None \<Rightarrow> s | Some c \<Rightarrow> charge s c)"

definition schedule_now :: "scheduler \<Rightarrow> ((task_ref \<times> task_ref) option \<times> scheduler) option" where
  "schedule_now s = schedule_locked s"

definition exit_current :: "scheduler \<Rightarrow> ((task_ref \<times> task_ref) option \<times> scheduler) option" where
  "exit_current s =
     schedule_locked
       (case current s of None \<Rightarrow> s | Some c \<Rightarrow> update_task s c (\<lambda>t. t\<lparr>state := Dead\<rparr>))"

text \<open>\<^verbatim>\<open>start_scheduler\<close> unwraps \<^verbatim>\<open>current\<close>: without a task it panics.\<close>

definition start_scheduler :: "scheduler \<Rightarrow> (task_ref \<times> scheduler) option" where
  "start_scheduler s =
     (case current s of None \<Rightarrow> None | Some c \<Rightarrow> Some (c, s\<lparr>CURRENT_TASK := Some c\<rparr>))"

text \<open>
  \<^verbatim>\<open>create_kernel_thread\<close>: the entry address is written to the top slot of the new stack, where the
  \<^verbatim>\<open>ret\<close> of the first context switch finds it. The second component is that write.
\<close>

definition create_kernel_thread :: "u64 \<Rightarrow> u64 \<Rightarrow> task \<times> (u64 \<times> u64)" where
  "create_kernel_thread main stack_base =
     (let t = task_new 0 1 stack_base;
          stack_ptr = kernel_stack_top t - 8
      in (t\<lparr>ctxt := (ctxt t)\<lparr>rsp := stack_ptr\<rparr>, state := Ready\<rparr>, (stack_ptr, main)))"

text \<open>
  \<^verbatim>\<open>switch_context\<close> saves the callee-saved registers and the stack pointer of the processor into
  \<open>from\<close> and loads those of \<open>to\<close>.
\<close>

definition switch_context ::
  "arch_context \<Rightarrow> scheduler \<Rightarrow> task_ref \<Rightarrow> task_ref \<Rightarrow> arch_context \<times> scheduler" where
  "switch_context cpu s from to =
     (let s1 = update_task s from (\<lambda>t. t\<lparr>ctxt := cpu\<rparr>) in (ctxt (tasks s1 to), s1))"

section \<open>The search for a key\<close>

abbreviation queue_keys :: "(u64 \<times> task_ref) list \<Rightarrow> u64 set" where
  "queue_keys q \<equiv> fst ` set q"

lemma unat_saturating_add_one:
  "unat (k :: u64) < 2 ^ 64 - 1 \<Longrightarrow> unat (saturating_add k 1) = unat k + 1"
  by (simp add: unat_saturating_add)

lemma find_key_spec:
  assumes "unat k + card {j \<in> queue_keys q. k \<le> j} < 2 ^ 64 - 1"
  shows "\<exists>r. find_key q k = Some r \<and> k \<le> r \<and> r \<notin> queue_keys q
    \<and> unat r \<le> unat k + card {j \<in> queue_keys q. k \<le> j}"
  using assms
proof (induction "card {j \<in> queue_keys q. k \<le> j}" arbitrary: k rule: less_induct)
  case less
  let ?A = "{j \<in> queue_keys q. k \<le> j}"
  show ?case
  proof (cases "k \<in> queue_keys q")
    case False
    then show ?thesis by (simp add: find_key.simps bt_contains_key_def)
  next
    case True
    let ?k = "saturating_add k 1" and ?B = "{j \<in> queue_keys q. saturating_add k 1 \<le> j}"
    have u: "unat ?k = unat k + 1" using less.prems by (intro unat_saturating_add_one) simp
    have "k \<in> ?A" "k \<notin> ?B" and "?B \<subseteq> ?A" using True u by (auto simp: word_le_nat_alt)
    then have "?B \<subset> ?A" by (intro psubsetI) blast+
    then have lt: "card ?B < card ?A" by (intro psubset_card_mono) auto
    then have "unat ?k + card ?B < 2 ^ 64 - 1" using u less.prems by simp
    from less.hyps [OF lt this] obtain r where
      r: "find_key q ?k = Some r" "?k \<le> r" "r \<notin> queue_keys q" "unat r \<le> unat ?k + card ?B" by blast
    moreover have "find_key q k = find_key q ?k"
      using True by (subst find_key.simps) (simp add: bt_contains_key_def)
    moreover have "k \<le> r" using r(2) u by (simp add: word_le_nat_alt)
    ultimately show ?thesis using lt u by auto
  qed
qed

lemma find_key_room:
  assumes "unat k + length q < 2 ^ 64 - 1"
  shows "\<exists>r. find_key q k = Some r \<and> k \<le> r \<and> r \<notin> queue_keys q \<and> unat r \<le> unat k + length q"
proof -
  have "card {j \<in> queue_keys q. k \<le> j} \<le> card (queue_keys q)" by (intro card_mono) auto
  also have "\<dots> \<le> length q" by (metis card_length length_map list.set_map)
  finally show ?thesis using find_key_spec [of k q] assms by fastforce
qed

lemma find_key_free: "k \<notin> queue_keys q \<Longrightarrow> find_key q k = Some k"
  by (simp add: find_key.simps bt_contains_key_def)

section \<open>The scheduler invariant\<close>

text \<open>References held by the scheduler: the current task and the queued ones.\<close>

definition held_refs :: "scheduler \<Rightarrow> task_ref multiset" where
  "held_refs s = (case current s of None \<Rightarrow> {#} | Some c \<Rightarrow> {#c#}) + mset (map snd (run_queue s))"

definition sched_inv :: "scheduler \<Rightarrow> bool" where
  "sched_inv s \<longleftrightarrow> bt_ok (run_queue s)
     \<and> (\<forall>k \<in> queue_keys (run_queue s). min_vruntime s < k)
     \<and> (\<forall>(k, t) \<in> set (run_queue s). vruntime (tasks s t) = k)
     \<and> (\<forall>c. current s = Some c \<longrightarrow> min_vruntime s \<le> vruntime (tasks s c))
     \<and> (current s = None \<longrightarrow> run_queue s = [] \<and> min_vruntime s = 0)
     \<and> distinct (map snd (run_queue s))
     \<and> (\<forall>c. current s = Some c \<longrightarrow> c \<notin> snd ` set (run_queue s))"

lemma update_task_simps [simp]:
  "run_queue (update_task s t f) = run_queue s" "current (update_task s t f) = current s"
  "min_vruntime (update_task s t f) = min_vruntime s"
  "current_ticks (update_task s t f) = current_ticks s"
  "CURRENT_TASK (update_task s t f) = CURRENT_TASK s"
  "tasks (update_task s t f) = (tasks s)(t := f (tasks s t))"
  by (simp_all add: update_task_def)

lemma insert_task_spec:
  assumes "find_key (run_queue s) (case current s of None \<Rightarrow> min_vruntime s
      | Some c \<Rightarrow> max (min_vruntime s) (saturating_add (vruntime (tasks s c)) 1)) = Some key"
  shows "insert_task_into_queue s t = Some (s\<lparr>run_queue := bt_insert (run_queue s) key t,
      tasks := (tasks s)(t := (tasks s t)\<lparr>vruntime := key\<rparr>)\<rparr>)"
  using assms unfolding insert_task_into_queue_def
  by (cases "key = vruntime (tasks s t)") (simp_all add: Let_def update_task_def)

text \<open>
  A live current task that is put back is inserted at \<open>min_vruntime\<close>, before every queued task.
\<close>

lemma pick_next_live:
  assumes inv: "sched_inv s" and q: "run_queue s \<noteq> []" and c: "current s = Some c"
    and live: "state (tasks s c) \<noteq> Dead"
  shows "pick_next s = Some (Some c,
    s\<lparr>tasks := (tasks s)(c := (tasks s c)\<lparr>vruntime := min_vruntime s\<rparr>)\<rparr>)"
proof -
  let ?t = "s\<lparr>current := None\<rparr>" and ?m = "min_vruntime s"
  have lt: "\<forall>k \<in> queue_keys (run_queue s). ?m < k" and ok: "bt_ok (run_queue s)"
    using inv by (auto simp: sched_inv_def)
  then have "find_key (run_queue ?t) ?m = Some ?m" by (intro find_key_free) auto
  then have ins: "insert_task_into_queue ?t c = Some (?t\<lparr>run_queue := bt_insert (run_queue s) ?m c,
      tasks := (tasks s)(c := (tasks s c)\<lparr>vruntime := ?m\<rparr>)\<rparr>)"
    using insert_task_spec [of ?t ?m c] by simp
  have head: "bt_insert (run_queue s) ?m c = (?m, c) # run_queue s"
    using lt by (intro bt_insert_least) fastforce
  have "bt_ok ((?m, c) # run_queue s)" using ok lt by fastforce
  then have "bt_remove ((?m, c) # run_queue s) ?m = run_queue s" by (rule bt_remove_hd)
  then show ?thesis using q c live by (simp add: pick_next_def ins head Let_def)
qed

lemma pick_next_dead:
  assumes "bt_ok (run_queue s)" and "run_queue s = (k, n) # q" and "current s = Some c"
    and "state (tasks s c) = Dead"
  shows "pick_next s = Some (Some n, s\<lparr>run_queue := q, min_vruntime := k, current := Some n\<rparr>)"
  using assms bt_remove_hd [of k n q] by (simp add: pick_next_def Let_def)

lemma schedule_live:
  assumes "sched_inv s" and "current s = Some c" and "state (tasks s c) \<noteq> Dead"
  shows "schedule_locked s = Some (None,
    if run_queue s = [] then s
    else s\<lparr>tasks := (tasks s)(c := (tasks s c)\<lparr>vruntime := min_vruntime s\<rparr>)\<rparr>)"
  using assms pick_next_live [OF assms(1) _ assms(2,3)]
  by (auto simp: schedule_locked_def pick_next_def)

lemma schedule_dead:
  assumes "bt_ok (run_queue s)" and "run_queue s = (k, n) # q" and "current s = Some c"
    and "state (tasks s c) = Dead" and "n \<noteq> c"
  shows "schedule_locked s = Some (Some (c, n),
    s\<lparr>run_queue := q, min_vruntime := k, current := Some n, CURRENT_TASK := Some n,
      tasks := (tasks s)(c := (tasks s c)\<lparr>state := Ready\<rparr>, n := (tasks s n)\<lparr>state := Running\<rparr>)\<rparr>)"
  using assms pick_next_dead [OF assms(1-4)]
  by (simp add: schedule_locked_def Let_def update_task_def)

lemma schedule_idle: "run_queue s = [] \<Longrightarrow> schedule_locked s = Some (None, s)"
  by (auto simp: schedule_locked_def pick_next_def split: option.split)

lemma schedule_no_current: "current s = None \<Longrightarrow> schedule_locked s = Some (None, s)"
  by (simp add: schedule_locked_def)

lemma find_key_diverges: "- 1 \<in> queue_keys q \<Longrightarrow> find_key q (- 1) = None"
proof (rule ccontr)
  assume full: "- 1 \<in> queue_keys q" and "find_key q (- 1) \<noteq> None"
  then obtain r where "find_key q (- 1) = Some r" by blast
  then have "\<not> ((- 1 :: u64) = - 1 \<and> - 1 \<in> queue_keys q)"
  proof (rule find_key.raw_induct [rotated, where P = "\<lambda>q k _. \<not> (k = - 1 \<and> - 1 \<in> queue_keys q)"])
    fix f :: "(u64 \<times> task_ref) list \<Rightarrow> u64 \<Rightarrow> u64 option" and q k y
    assume ih: "\<And>q k y. f q k = Some y \<Longrightarrow> \<not> (k = - 1 \<and> - 1 \<in> queue_keys q)"
      and step: "(if bt_contains_key q k then f q (saturating_add k 1) else Some k) = Some y"
    show "\<not> (k = - 1 \<and> - 1 \<in> queue_keys q)"
    proof
      assume k: "k = - 1 \<and> - 1 \<in> queue_keys q"
      then have "saturating_add k 1 = - 1" by (simp add: saturating_add_def unat_max_word)
      then show False using step ih [of q "- 1" y] k by (simp add: bt_contains_key_def)
    qed
  qed
  then show False using full by simp
qed

section \<open>The invariant is inductive\<close>

lemma sched_inv_new: "sched_inv (scheduler_new store)"
  by (simp add: sched_inv_def scheduler_new_def)

text \<open>Changes of a task that keep its virtual runtime, and those that only raise that of the current one.\<close>

lemma sched_inv_state:
  "sched_inv s \<Longrightarrow> sched_inv (update_task s t (\<lambda>x. x\<lparr>state := st\<rparr>))"
  by (auto simp: sched_inv_def)

lemma sched_inv_current_vruntime:
  assumes "sched_inv s" and "current s = Some c" and "min_vruntime s \<le> v"
  shows "sched_inv (update_task s c (\<lambda>x. x\<lparr>vruntime := v\<rparr>))"
  using assms by (force simp: sched_inv_def)

lemma sched_inv_ticks: "sched_inv (s\<lparr>current_ticks := n\<rparr>) \<longleftrightarrow> sched_inv s"
  by (simp add: sched_inv_def)

lemma charge_alt:
  "charge s c = update_task s c (\<lambda>t. t\<lparr>vruntime :=
     saturating_add (vruntime (tasks s c)) (tick_increment (priority (tasks s c)))\<rparr>)"
  by (simp add: charge_def update_task_def)

lemma sched_inv_charge: "sched_inv s \<Longrightarrow> current s = Some c \<Longrightarrow> sched_inv (charge s c)"
  unfolding charge_alt
  by (rule sched_inv_current_vruntime)
     (auto simp: sched_inv_def intro: order_trans saturating_add_ge)

lemma sched_inv_after_switch:
  assumes inv: "sched_inv s" and q: "run_queue s = (k, n) # q"
  shows "sched_inv (s\<lparr>run_queue := q, min_vruntime := k, current := Some n, CURRENT_TASK := Some n,
      tasks := (tasks s)(c := (tasks s c)\<lparr>state := Ready\<rparr>, n := (tasks s n)\<lparr>state := Running\<rparr>)\<rparr>)"
  using inv by (auto simp: sched_inv_def q)

text \<open>Every path of the scheduling core, in one lemma.\<close>

lemma schedule_cases:
  assumes inv: "sched_inv s"
  obtains (idle) "schedule_locked s = Some (None, s)" "run_queue s = [] \<or> current s = None"
  | (stay) c where "current s = Some c" "state (tasks s c) \<noteq> Dead" "run_queue s \<noteq> []"
      "schedule_locked s = Some (None, update_task s c (\<lambda>t. t\<lparr>vruntime := min_vruntime s\<rparr>))"
  | (switch) c k n q where "current s = Some c" "state (tasks s c) = Dead" "run_queue s = (k, n) # q"
      "n \<noteq> c" "schedule_locked s = Some (Some (c, n),
        s\<lparr>run_queue := q, min_vruntime := k, current := Some n, CURRENT_TASK := Some n,
          tasks := (tasks s)(c := (tasks s c)\<lparr>state := Ready\<rparr>, n := (tasks s n)\<lparr>state := Running\<rparr>)\<rparr>)"
proof (cases "current s")
  case None
  then show ?thesis using idle by (simp add: schedule_no_current)
next
  case (Some c)
  show ?thesis
  proof (cases "run_queue s")
    case Nil
    then show ?thesis using idle by (simp add: schedule_idle)
  next
    case (Cons p q)
    obtain k n where p: "p = (k, n)" by (cases p)
    show ?thesis
    proof (cases "state (tasks s c) = Dead")
      case True
      have "bt_ok (run_queue s)" "n \<noteq> c" using inv Some Cons p by (auto simp: sched_inv_def)
      then show ?thesis using switch [OF Some True, of k n q] schedule_dead [of s k n q c] Some True Cons p
        by simp
    next
      case False
      then show ?thesis using stay [OF Some False] schedule_live [OF inv Some False] Cons
        by (simp add: update_task_def)
    qed
  qed
qed

lemma schedule_total: "sched_inv s \<Longrightarrow> \<exists>r s'. schedule_locked s = Some (r, s')"
  by (erule schedule_cases) blast+

lemma schedule_inv:
  assumes "sched_inv s" and "schedule_locked s = Some (r, s')"
  shows "sched_inv s'"
  using assms(1)
proof (cases rule: schedule_cases)
  case (stay c)
  then show ?thesis using assms sched_inv_current_vruntime [of s c "min_vruntime s"] by simp
next
  case (switch c k n q)
  then show ?thesis using assms sched_inv_after_switch [of s k n q c] by simp
qed (use assms in simp)

text \<open>
  A new task is put behind the current one, at a key no queued task has. The first hypothesis says
  that the current task's runtime has not saturated.
\<close>

lemma add_task_queue:
  assumes inv: "sched_inv s" and c: "current s = Some c" and new: "t \<notin># held_refs s"
    and k: "find_key (run_queue s) (max (min_vruntime s) (saturating_add (vruntime (tasks s c)) 1)) = Some k"
    and free: "k \<notin> queue_keys (run_queue s)" and gt: "vruntime (tasks s c) < k"
  shows "\<exists>s'. add_task s t = Some s' \<and> sched_inv s' \<and> current s' = Some c
    \<and> mset (run_queue s') = add_mset (k, t) (mset (run_queue s))
    \<and> tasks s' = (tasks s)(t := (tasks s t)\<lparr>vruntime := k\<rparr>)"
proof -
  let ?s = "s\<lparr>run_queue := bt_insert (run_queue s) k t,
      tasks := (tasks s)(t := (tasks s t)\<lparr>vruntime := k\<rparr>)\<rparr>"
  have ok: "bt_ok (run_queue s)" using inv by (simp add: sched_inv_def)
  have add: "add_task s t = Some ?s"
    using insert_task_spec [of s k t] k c by (simp add: add_task_def)
  have tnew: "t \<notin> snd ` set (run_queue s)" "t \<noteq> c" using new c by (auto simp: held_refs_def)
  have ms: "mset (bt_insert (run_queue s) k t) = add_mset (k, t) (mset (run_queue s))"
    using ok free by (intro mset_bt_insert_new) (auto simp: bt_contains_key_def)
  then have st: "set (bt_insert (run_queue s) k t) = insert (k, t) (set (run_queue s))"
    by (metis set_mset_add_mset_insert set_mset_mset)
  have "mset (map snd (bt_insert (run_queue s) k t)) = mset (map snd ((k, t) # run_queue s))"
    by (simp add: ms)
  then have dist: "distinct (map snd (bt_insert (run_queue s) k t))"
    by (rule iffD2 [OF mset_eq_imp_distinct_iff]) (use inv tnew in \<open>auto simp: sched_inv_def\<close>)
  have lt: "min_vruntime s < k" using inv c gt by (auto simp: sched_inv_def)
  have "sched_inv ?s"
    using inv ok dist lt tnew c unfolding sched_inv_def by (auto simp: st bt_ok_insert image_iff)
  then show ?thesis using add ms c by auto
qed

lemma add_task_first:
  assumes "sched_inv s" and "current s = None"
  shows "add_task s t = Some (s\<lparr>current := Some t\<rparr>)" and "sched_inv (s\<lparr>current := Some t\<rparr>)"
  using assms by (auto simp: add_task_def sched_inv_def)

section \<open>Runs of the scheduler\<close>

text \<open>
  The entry points that change the scheduler: a new task is added, the timer ticks, the running task
  yields or exits. An added task is not already held, and the runtime of the current task is far enough
  from saturation that a free key exists behind it.
\<close>

definition runtime_room :: "scheduler \<Rightarrow> bool" where
  "runtime_room s \<longleftrightarrow> (case current s of None \<Rightarrow> True
     | Some c \<Rightarrow> unat (vruntime (tasks s c)) + length (run_queue s) + 2 < 2 ^ 64)"

inductive preempt_step :: "scheduler \<Rightarrow> scheduler \<Rightarrow> bool" where
  step_tick: "tick_now s = Some (r, s') \<Longrightarrow> preempt_step s s'"
| step_yield: "schedule_now s = Some (r, s') \<Longrightarrow> preempt_step s s'"

inductive sched_step :: "scheduler \<Rightarrow> scheduler \<Rightarrow> bool" where
  step_add: "t \<notin># held_refs s \<Longrightarrow> runtime_room s \<Longrightarrow> add_task s t = Some s' \<Longrightarrow> sched_step s s'"
| step_preempt: "preempt_step s s' \<Longrightarrow> sched_step s s'"
| step_exit: "exit_current s = Some (r, s') \<Longrightarrow> sched_step s s'"

lemma add_task_room:
  assumes inv: "sched_inv s" and room: "runtime_room s" and c: "current s = Some c"
    and new: "t \<notin># held_refs s"
  shows "\<exists>k s'. add_task s t = Some s' \<and> sched_inv s' \<and> current s' = Some c
    \<and> vruntime (tasks s c) < k \<and> k \<notin> queue_keys (run_queue s)
    \<and> mset (run_queue s') = add_mset (k, t) (mset (run_queue s))
    \<and> tasks s' = (tasks s)(t := (tasks s t)\<lparr>vruntime := k\<rparr>)"
proof -
  let ?v = "vruntime (tasks s c)" and ?q = "run_queue s"
  have u: "unat (saturating_add ?v 1) = unat ?v + 1"
    using room c by (intro unat_saturating_add_one) (simp add: runtime_room_def)
  have "min_vruntime s \<le> ?v" using inv c by (simp add: sched_inv_def)
  then have start: "max (min_vruntime s) (saturating_add ?v 1) = saturating_add ?v 1"
    using u by (simp add: max_def word_le_nat_alt)
  have "unat (saturating_add ?v 1) + length ?q < 2 ^ 64 - 1"
    using room c u by (simp add: runtime_room_def)
  from find_key_room [OF this] obtain k where k: "find_key ?q (saturating_add ?v 1) = Some k"
    "saturating_add ?v 1 \<le> k" "k \<notin> queue_keys ?q" by blast
  have "?v < k" using u k(2) by (simp add: word_less_nat_alt word_le_nat_alt)
  then show ?thesis using add_task_queue [OF inv c new, of k] k start by auto
qed

lemma add_task_inv:
  assumes "sched_inv s" and "runtime_room s" and "t \<notin># held_refs s" and "add_task s t = Some s'"
  shows "sched_inv s'"
proof (cases "current s")
  case None
  then show ?thesis using assms add_task_first [of s t] by simp
next
  case (Some c)
  then show ?thesis using assms add_task_room [OF assms(1,2) Some assms(3)] by auto
qed

lemma count_tick_inv: "sched_inv s \<Longrightarrow> count_tick s = Some (r, s') \<Longrightarrow> sched_inv s'"
  using schedule_inv [of "s\<lparr>current_ticks := 0\<rparr>" r s']
  by (auto simp: count_tick_def Let_def sched_inv_ticks split: if_splits)

lemma tick_now_inv: "sched_inv s \<Longrightarrow> tick_now s = Some (r, s') \<Longrightarrow> sched_inv s'"
  by (auto simp: tick_now_def split: option.splits intro: count_tick_inv sched_inv_charge)

lemma exit_current_inv: "sched_inv s \<Longrightarrow> exit_current s = Some (r, s') \<Longrightarrow> sched_inv s'"
  by (auto simp: exit_current_def split: option.splits intro: schedule_inv sched_inv_state)

lemma preempt_step_inv: "preempt_step s s' \<Longrightarrow> sched_inv s \<Longrightarrow> sched_inv s'"
  by (induction rule: preempt_step.induct) (auto simp: schedule_now_def intro: tick_now_inv schedule_inv)

lemma sched_step_inv: "sched_step s s' \<Longrightarrow> sched_inv s \<Longrightarrow> sched_inv s'"
  by (induction rule: sched_step.induct) (auto intro: add_task_inv preempt_step_inv exit_current_inv)

lemma sched_reachable_inv: "sched_step\<^sup>*\<^sup>* (scheduler_new store) s \<Longrightarrow> sched_inv s"
  by (induction rule: rtranclp_induct) (auto intro: sched_inv_new sched_step_inv)

text \<open>What a timer tick or a yield does to the scheduler of a live task: its own runtime changes.\<close>

definition same_schedule :: "scheduler \<Rightarrow> scheduler \<Rightarrow> bool" where
  "same_schedule s s' \<longleftrightarrow> current s' = current s \<and> run_queue s' = run_queue s
     \<and> min_vruntime s' = min_vruntime s \<and> CURRENT_TASK s' = CURRENT_TASK s
     \<and> (\<forall>t. state (tasks s' t) = state (tasks s t))
     \<and> (\<forall>t. Some t \<noteq> current s \<longrightarrow> tasks s' t = tasks s t)"

lemma same_schedule_trans: "same_schedule a b \<Longrightarrow> same_schedule b c \<Longrightarrow> same_schedule a c"
  by (simp add: same_schedule_def)

lemma schedule_live_same:
  assumes "sched_inv s" and "current s = Some c" and "state (tasks s c) \<noteq> Dead"
  shows "\<exists>s'. schedule_locked s = Some (None, s') \<and> same_schedule s s'"
  using schedule_live [OF assms] assms(2) by (auto simp: same_schedule_def)

lemma tick_live_same:
  assumes inv: "sched_inv s" and c: "current s = Some c" and live: "state (tasks s c) \<noteq> Dead"
  shows "\<exists>s'. tick_now s = Some (None, s') \<and> same_schedule s s'"
proof -
  let ?z = "(charge s c)\<lparr>current_ticks := 0\<rparr>"
  have z: "sched_inv ?z" "current ?z = Some c" "state (tasks ?z c) \<noteq> Dead"
    using sched_inv_charge [OF inv c] c live by (simp_all add: sched_inv_ticks charge_def)
  have same: "same_schedule s ((charge s c)\<lparr>current_ticks := n\<rparr>)" for n
    using c by (simp add: same_schedule_def charge_def)
  show ?thesis
    using schedule_live_same [OF z] same same_schedule_trans [OF same]
    by (auto simp: tick_now_def c count_tick_def Let_def)
qed

lemma preempt_live_same:
  assumes "preempt_step s s'" and "sched_inv s" and "current s = Some c" and "state (tasks s c) \<noteq> Dead"
  shows "same_schedule s s'"
  using assms(1)
proof cases
  case (step_tick r)
  then show ?thesis using tick_live_same [OF assms(2-4)] by auto
next
  case (step_yield r)
  then show ?thesis using schedule_live_same [OF assms(2-4)] by (auto simp: schedule_now_def)
qed

lemma preempt_run_same:
  assumes "preempt_step\<^sup>*\<^sup>* s s'" and "sched_inv s" and "current s = Some c" and "state (tasks s c) \<noteq> Dead"
  shows "sched_inv s' \<and> same_schedule s s'"
  using assms(1)
proof (induction rule: rtranclp_induct)
  case base
  show ?case using assms by (simp add: same_schedule_def)
next
  case (step y z)
  then have "current y = Some c" "state (tasks y c) \<noteq> Dead" using assms by (simp_all add: same_schedule_def)
  then show ?case using step preempt_live_same [of y z c] preempt_step_inv same_schedule_trans by blast
qed

lemma weight_bounds: "1 \<le> weight p \<and> weight p \<le> 1024"
proof -
  define m where "m = min (max (sint p) 1) 1024"
  have m: "1 \<le> m" "m \<le> 1024" by (simp_all add: m_def)
  then have "unat (word_of_int m :: u64) = nat m"
    by (simp add: unat_eq_nat_uint uint_word_of_int take_bit_int_eq_self)
  then have "unat (weight p) = 1024 div nat m" by (simp add: weight_def unat_div m_def)
  moreover have "1 \<le> 1024 div nat m" using m by (simp add: Suc_le_eq div_greater_zero_iff)
  moreover have "1024 div nat m \<le> 1024" by (rule div_le_dividend)
  ultimately show ?thesis by (simp add: word_le_nat_alt)
qed

lemma tick_increment_bounds: "976 \<le> tick_increment p \<and> tick_increment p \<le> 1000000"
proof -
  have w: "1 \<le> unat (weight p)" "unat (weight p) \<le> 1024"
    using weight_bounds [of p] by (simp_all add: word_le_nat_alt)
  have "unat (tick_increment p) = 1000000 div unat (weight p)" by (simp add: tick_increment_def unat_div)
  moreover have "976 \<le> (1000000 :: nat) div unat (weight p)"
    using div_le_mono2 [of "unat (weight p)" 1024 "1000000 :: nat"] w by simp
  moreover have "(1000000 :: nat) div unat (weight p) \<le> 1000000" by simp
  ultimately show ?thesis by (simp add: word_le_nat_alt)
qed

lemma held_refs_count: "sched_inv s \<Longrightarrow> count (held_refs s) t \<le> 1"
  by (auto simp: sched_inv_def held_refs_def distinct_count_atmost_1 count_eq_zero_iff
      not_in_iff [symmetric] simp flip: mset_map split: option.splits)

lemma same_schedule_held: "same_schedule s s' \<Longrightarrow> held_refs s' = held_refs s"
  by (simp add: same_schedule_def held_refs_def)

lemma schedule_held:
  assumes "sched_inv s" and "schedule_locked s = Some (r, s')"
  shows "held_refs s' = (case r of None \<Rightarrow> held_refs s | Some (c, n) \<Rightarrow> held_refs s - {#c#})"
  using assms(1)
proof (cases rule: schedule_cases)
  case (stay c)
  then show ?thesis using assms by (auto simp: held_refs_def)
next
  case (switch c k n q)
  then show ?thesis using assms by (auto simp: held_refs_def)
qed (use assms in simp)

section \<open>Properties\<close>

text \<open> C5: The next task is chosen only when the running one exits. In every reachable state with a live
  current task, any number of timer ticks and yields leaves the current task, the run queue and
  \<^verbatim>\<open>CURRENT_TASK\<close> as they were, and asks for no context switch: the current task is put back at
  \<^verbatim>\<open>min_vruntime\<close>, below every queued key, and picked again, whatever runtime it was charged.\<close>

theorem live_task_never_preempted:
  assumes "sched_step\<^sup>*\<^sup>* (scheduler_new store) s" and "current s = Some c"
    and "state (tasks s c) \<noteq> Dead" and "preempt_step\<^sup>*\<^sup>* s s'"
  shows "current s' = Some c \<and> run_queue s' = run_queue s \<and> CURRENT_TASK s' = CURRENT_TASK s
    \<and> (\<exists>s''. tick_now s' = Some (None, s'')) \<and> (\<exists>s''. schedule_now s' = Some (None, s''))"
proof -
  have inv: "sched_inv s'" and same: "same_schedule s s'"
    using preempt_run_same [OF assms(4) sched_reachable_inv assms(2,3)] assms(1) by auto
  have c: "current s' = Some c" "state (tasks s' c) \<noteq> Dead" using same assms(2,3) by (auto simp: same_schedule_def)
  show ?thesis using same c tick_live_same [OF inv c] schedule_live_same [OF inv c]
    by (auto simp: same_schedule_def schedule_now_def)
qed

definition demo_store :: "task_ref \<Rightarrow> task" where
  "demo_store r = task_new (of_nat r) 1 0x200000"

definition demo_sched :: scheduler where
  "demo_sched = (scheduler_new demo_store)\<lparr>current := Some 0, run_queue := [(1, 1)],
     tasks := demo_store(1 := (demo_store 1)\<lparr>vruntime := 1\<rparr>)\<rparr>"

lemma demo_add_first:
  "add_task (scheduler_new demo_store) 0 = Some ((scheduler_new demo_store)\<lparr>current := Some 0\<rparr>)"
  by (simp add: add_task_def scheduler_new_def)

lemma demo_add_second:
  "add_task ((scheduler_new demo_store)\<lparr>current := Some 0\<rparr>) 1 = Some demo_sched"
proof -
  have "find_key [] 1 = Some 1" by (simp add: find_key.simps bt_contains_key_def)
  then show ?thesis
    by (simp add: add_task_def scheduler_new_def insert_task_into_queue_def saturating_add_def Let_def
        demo_store_def task_new_def update_task_def demo_sched_def fun_upd_def)
qed

lemma demo_reachable: "sched_step\<^sup>*\<^sup>* (scheduler_new demo_store) demo_sched"
proof -
  have "sched_step (scheduler_new demo_store) ((scheduler_new demo_store)\<lparr>current := Some 0\<rparr>)"
    by (rule step_add [OF _ _ demo_add_first]) (simp_all add: held_refs_def runtime_room_def scheduler_new_def)
  moreover have "sched_step ((scheduler_new demo_store)\<lparr>current := Some 0\<rparr>) demo_sched"
    by (rule step_add [OF _ _ demo_add_second]) (simp_all add: held_refs_def runtime_room_def scheduler_new_def
        demo_store_def task_new_def)
  ultimately show ?thesis by (meson converse_rtranclp_into_rtranclp rtranclp.rtrancl_refl)
qed

lemma demo_sched_simps:
  "current demo_sched = Some 0" "run_queue demo_sched = [(1, 1)]"
  "state (tasks demo_sched 0) = Ready" "vruntime (tasks demo_sched 0) = 0"
  by (simp_all add: demo_sched_def demo_store_def task_new_def)

theorem live_task_never_preempted_witness:
  "current demo_sched = Some 0 \<and> run_queue demo_sched = [(1, 1)]
   \<and> (\<exists>s''. tick_now demo_sched = Some (None, s''))"
  using live_task_never_preempted [OF demo_reachable, of 0 demo_sched] by (simp add: demo_sched_simps)

text \<open> C6: When the current task exits and another is queued, the processor goes to the task of least
  virtual runtime, which leaves the queue, becomes \<^verbatim>\<open>current\<close> and \<^verbatim>\<open>CURRENT_TASK\<close> and is marked running, and
  \<^verbatim>\<open>min_vruntime\<close> advances to its key. The exited task is no longer held, and its state, set to dead by
  \<^verbatim>\<open>exit_current\<close>, is overwritten with ready.\<close>

theorem exit_switches_to_least:
  assumes "sched_step\<^sup>*\<^sup>* (scheduler_new store) s" and "current s = Some c" and "run_queue s = (k, n) # q"
  shows "\<exists>s'. exit_current s = Some (Some (c, n), s') \<and> current s' = Some n \<and> CURRENT_TASK s' = Some n
    \<and> run_queue s' = q \<and> min_vruntime s' = k \<and> (\<forall>(j, t) \<in> set q. k < j) \<and> vruntime (tasks s' n) = k
    \<and> state (tasks s' n) = Running \<and> state (tasks s' c) = Ready \<and> c \<notin># held_refs s'"
proof -
  let ?s = "update_task s c (\<lambda>t. t\<lparr>state := Dead\<rparr>)"
  have inv: "sched_inv s" using sched_reachable_inv assms(1) .
  have n: "n \<noteq> c" "c \<notin> snd ` set q" "vruntime (tasks s n) = k" "bt_ok ((k, n) # q)"
    using inv assms(2,3) by (auto simp: sched_inv_def)
  have "exit_current s = schedule_locked ?s" by (simp add: exit_current_def assms)
  then show ?thesis using schedule_dead [of ?s k n q c] n assms(2,3)
    by (auto simp: held_refs_def update_task_def)
qed

theorem exit_switches_to_least_witness:
  "\<exists>s'. exit_current demo_sched = Some (Some (0, 1), s') \<and> current s' = Some 1 \<and> run_queue s' = []
     \<and> state (tasks s' 0) = Ready"
  using exit_switches_to_least [OF demo_reachable, of 0 1 1 "[]"] by (auto simp: demo_sched_simps)



text \<open>Adding a task while another runs returns, keeps the current task, and queues the new task, and
  only it, at a key that no queued task uses and that lies above the current task's runtime; the task's
  runtime becomes that key and no other task changes.\<close>

lemma add_task_queued_behind_current:
  assumes "sched_step\<^sup>*\<^sup>* (scheduler_new store) s" and "runtime_room s" and "current s = Some c"
    and "t \<notin># held_refs s"
  shows "\<exists>k s'. add_task s t = Some s' \<and> current s' = Some c \<and> vruntime (tasks s c) < k
    \<and> k \<notin> fst ` set (run_queue s) \<and> mset (run_queue s') = add_mset (k, t) (mset (run_queue s))
    \<and> tasks s' = (tasks s)(t := (tasks s t)\<lparr>vruntime := k\<rparr>)"
  using add_task_room [OF sched_reachable_inv assms(2-4)] assms(1) by blast

text \<open>The search for a free key does not end when the largest key is taken: once the current task's
  runtime has saturated at \<^verbatim>\<open>u64::MAX\<close> and a queued task holds that key, \<^verbatim>\<open>add_task\<close> loops forever.\<close>

lemma add_task_hangs_at_saturation:
  assumes "current s = Some c" and "vruntime (tasks s c) = - 1" and "(- 1, t') \<in> set (run_queue s)"
  shows "add_task s t = None"
proof -
  have "- 1 \<in> queue_keys (run_queue s)" using assms(3) by force
  moreover have "max (min_vruntime s) (saturating_add (- 1) 1) = - 1"
    by (simp add: saturating_add_def unat_max_word max_def)
  ultimately show ?thesis using assms(1,2) find_key_diverges
    by (simp add: add_task_def insert_task_into_queue_def)
qed

text \<open> C8: A priority's weight lies between 1 and 1024, so that the division of a tick never fails, and
  each tick charges between 976 and 1,000,000 units: in the range 1 to 1024 a larger priority value means
  a smaller weight and a larger charge.\<close>

theorem tick_charge_bounds:
  "1 \<le> weight p \<and> weight p \<le> 1024 \<and> 976 \<le> tick_increment p \<and> tick_increment p \<le> 1000000"
  using weight_bounds tick_increment_bounds by blast

text \<open>Switching from one task to another and back restores the processor's callee-saved registers
  and stack pointer, and a new kernel thread, when first switched to, starts with its stack pointer on
  the slot that holds its entry address, eight bytes below a 16-byte boundary inside its own stack.\<close>

lemma switch_context_and_back:
  assumes "from \<noteq> to" and "unat base + unat STACK_SIZE < 2 ^ 64"
  shows "(let (cpu1, s1) = switch_context cpu s from to; (cpu2, s2) = switch_context cpu1 s1 to from
      in cpu2 = cpu \<and> ctxt (tasks s2 to) = cpu1)
    \<and> (let (t, (addr, val)) = create_kernel_thread entry base;
           (cpu1, _) = switch_context cpu (s\<lparr>tasks := (tasks s)(to := t)\<rparr>) from to
       in rsp cpu1 = addr \<and> val = entry \<and> base \<le> addr \<and> addr < base + STACK_SIZE \<and> unat addr mod 16 = 8)"
proof -
  have m: "NOT 0x0F = NOT (mask 4 :: u64)" by (simp add: mask_eq_exp_minus_1)
  define top where "top = kernel_stack_new base"
  have b: "unat (base + STACK_SIZE) = unat base + 16384"
    using assms(2) by (simp add: STACK_SIZE_def unat_add_no_wrap)
  then have t: "unat top = (unat base + 16384) - (unat base + 16384) mod 16"
    by (simp only: top_def kernel_stack_new_def m unat_and_not_mask) simp
  have r: "(unat base + 16384) mod 16 < 16" by simp
  define q where "q = (unat base + 16384) div 16"
  have q: "unat top = 16 * q" using t by (simp only: q_def minus_mod_eq_mult_div)
  have lo: "unat base + 16368 < unat top" and hi: "unat top \<le> unat base + 16384" using t r by linarith+
  then have "8 \<le> top" by (simp add: word_le_nat_alt)
  then have a: "unat (top - 8) = unat top - 8" by (simp add: unat_sub)
  also have "\<dots> = 16 * (q - 1) + 8" using q lo by simp
  finally have "unat (top - 8) mod 16 = 8" by simp
  moreover have "base \<le> top - 8" "top - 8 < base + STACK_SIZE"
    using a lo hi b unfolding word_le_nat_alt word_less_nat_alt by linarith+
  moreover have "kernel_stack_top (task_new 0 1 base) = top" by (simp add: task_new_def top_def)
  ultimately show ?thesis using assms(1)
    by (simp add: switch_context_def create_kernel_thread_def Let_def)
qed

end
