(* ===== verification/Cap.thy ===== *)
theory Cap
  imports Prelude
begin

text \<open>
  Capabilities (\<^verbatim>\<open>hammam/src/cap/mod.rs\<close>): rights, attenuation and the per-process table whose indices are the handles
  user space holds. The interface \<open>handle_table\<close> states what a client of a growing table of handles relies on; the
  registry of block devices provides it too.
\<close>

section \<open>Tables of handles\<close>

text \<open>Handles are numbered in the order of registration; \<open>count\<close> counts the registrations so far.\<close>

locale handle_table =
  fixes empty :: 't
    and add :: "'t \<Rightarrow> 'v \<Rightarrow> u32 \<times> 't"
    and get :: "'t \<Rightarrow> u32 \<Rightarrow> 'v option"
    and count :: "'t \<Rightarrow> nat"
  assumes count_empty: "count empty = 0"
    and get_empty: "get empty h = None"
    and add_handle: "count t < 2 ^ 32 \<Longrightarrow> fst (add t v) = of_nat (count t)"
    and count_add: "count (snd (add t v)) = Suc (count t)"
    and get_add: "count t < 2 ^ 32 \<Longrightarrow> get (snd (add t v)) h = (if h = fst (add t v) then Some v else get t h)"
    and get_unused: "count t \<le> unat h \<Longrightarrow> get t h = None"
begin

lemma fresh_handle: "count t < 2 ^ 32 \<Longrightarrow> get t (fst (add t v)) = None"
  using get_unused [of t "of_nat (count t)"] by (simp add: add_handle unat_of_nat_small)

lemma handle_iff: "count t < 2 ^ 32 \<Longrightarrow> h = fst (add t v) \<longleftrightarrow> unat h = count t"
  using unat_of_nat_small [of "count t", where 'a = 32] by (auto simp: add_handle word_unat_eq_iff)

lemma count_add_all: "count (foldl (\<lambda>t v. snd (add t v)) t vs) = count t + length vs"
  by (induction vs arbitrary: t) (simp_all add: count_add)

lemma get_add_all:
  "count t + length vs \<le> 2 ^ 32 \<Longrightarrow> get (foldl (\<lambda>t v. snd (add t v)) t vs) h =
     (if count t \<le> unat h \<and> unat h < count t + length vs then Some (vs ! (unat h - count t)) else get t h)"
proof (induction vs arbitrary: t)
  case (Cons v vs)
  have c: "count t < 2 ^ 32" using Cons.prems by simp
  have IH: "get (foldl (\<lambda>t v. snd (add t v)) (snd (add t v)) vs) h =
     (if Suc (count t) \<le> unat h \<and> unat h < Suc (count t) + length vs then Some (vs ! (unat h - Suc (count t)))
      else if unat h = count t then Some v else get t h)"
    using Cons.IH [of "snd (add t v)"] Cons.prems by (simp add: count_add get_add [OF c] handle_iff [OF c])
  show ?case
    using IH by (auto simp: nth_Cons' Suc_diff_le [symmetric] le_Suc_eq Suc_le_eq)
qed auto

end

section \<open>Capabilities\<close>

datatype cap_kind = Memory | IrqHandler | IoPort | Process

text \<open>\<^verbatim>\<open>Rights\<close>: a set of flags in 32 bits, with \<^verbatim>\<open>contains\<close> and \<^verbatim>\<open>&\<close> of the \<^verbatim>\<open>bitflags\<close> types.\<close>

type_synonym rights = u32

definition READ :: rights where "READ = 1"
definition WRITE :: rights where "WRITE = 2"
definition EXEC :: rights where "EXEC = 4"
definition GRANT :: rights where "GRANT = 8"

definition contains_rights :: "rights \<Rightarrow> rights \<Rightarrow> bool" where
  "contains_rights r required \<longleftrightarrow> r AND required = required"

record capability =
  cap_kind :: cap_kind
  cap_rights :: rights
  object_id :: u64

definition capability_new :: "cap_kind \<Rightarrow> rights \<Rightarrow> u64 \<Rightarrow> capability" where
  "capability_new k r oid = \<lparr>cap_kind = k, cap_rights = r, object_id = oid\<rparr>"

definition capability_object_id :: "capability \<Rightarrow> u64" where
  "capability_object_id c = object_id c"

definition attenuate :: "capability \<Rightarrow> rights \<Rightarrow> capability" where
  "attenuate c new_rights =
     \<lparr>cap_kind = cap_kind c, cap_rights = cap_rights c AND new_rights, object_id = object_id c\<rparr>"

section \<open>The capability table\<close>

type_synonym cap_table = "capability option list"

definition cap_new :: cap_table where
  "cap_new = []"

definition cap_insert :: "cap_table \<Rightarrow> capability \<Rightarrow> u32 \<times> cap_table" where
  "cap_insert t c = (let idx = length t in (of_nat idx, t @ [Some c]))"

definition cap_get :: "cap_table \<Rightarrow> u32 \<Rightarrow> capability option" where
  "cap_get t handle = (if unat handle < length t then t ! unat handle else None)"

text \<open>\<^verbatim>\<open>get_mut\<close> followed by an assignment through the reference; nothing happens if there is none.\<close>

definition cap_get_mut :: "cap_table \<Rightarrow> u32 \<Rightarrow> (capability \<Rightarrow> capability) \<Rightarrow> cap_table" where
  "cap_get_mut t handle f = (case cap_get t handle of None \<Rightarrow> t | Some c \<Rightarrow> t[unat handle := Some (f c)])"

definition revoke :: "cap_table \<Rightarrow> u32 \<Rightarrow> cap_table" where
  "revoke t handle = (if unat handle < length t then t[unat handle := None] else t)"

definition check_rights :: "cap_table \<Rightarrow> u32 \<Rightarrow> rights \<Rightarrow> bool" where
  "check_rights t handle required = (case cap_get t handle of Some c \<Rightarrow> contains_rights (cap_rights c) required | None \<Rightarrow> False)"

definition cap_len :: "cap_table \<Rightarrow> nat" where
  "cap_len t = length (filter (\<lambda>e. e \<noteq> None) t)"

definition cap_is_empty :: "cap_table \<Rightarrow> bool" where
  "cap_is_empty t \<longleftrightarrow> cap_len t = 0"

interpretation caps: handle_table cap_new cap_insert cap_get length
proof
  show "length t < 2 ^ 32 \<Longrightarrow> cap_get (snd (cap_insert t v)) h = (if h = fst (cap_insert t v) then Some v else cap_get t h)" for t v h
    using unat_of_nat_small [of "length t", where 'a = 32]
    by (auto simp: cap_get_def cap_insert_def nth_append word_unat_eq_iff less_Suc_eq)
qed (auto simp: cap_get_def cap_insert_def cap_new_def)

lemma revoke_length [simp]: "length (revoke t h) = length t"
  by (simp add: revoke_def)

lemma cap_get_revoke: "cap_get (revoke t h) g = (if g = h then None else cap_get t g)"
  by (auto simp: cap_get_def revoke_def nth_list_update word_unat_eq_iff)

lemma cap_len_insert: "cap_len (snd (cap_insert t c)) = Suc (cap_len t)"
  by (simp add: cap_len_def cap_insert_def)

lemma cap_len_revoke: "cap_len (revoke t h) = (if cap_get t h = None then cap_len t else cap_len t - 1)"
proof -
  have "cap_len (xs[i := None]) + (if xs ! i = None then 0 else 1) = cap_len xs" if "i < length xs" for xs i
  proof -
    have "cap_len xs = cap_len (take i xs @ xs ! i # drop (Suc i) xs)" using id_take_nth_drop [OF that] by simp
    then show ?thesis using that by (simp add: upd_conv_take_nth_drop cap_len_def)
  qed
  from this [of "unat h" t] show ?thesis by (auto simp: revoke_def cap_get_def)
qed

section \<open>Delegation\<close>

text \<open>What a process can do with its own table: drop a capability, or take an attenuated copy of one it holds.
  The kernel grants the capabilities of the initial table.\<close>

inductive cap_step :: "cap_table \<Rightarrow> cap_table \<Rightarrow> bool" where
  derive: "cap_get t h = Some c \<Longrightarrow> length t < 2 ^ 32 \<Longrightarrow> cap_step t (snd (cap_insert t (attenuate c r)))"
| drop_cap: "cap_step t (revoke t h)"

definition authority :: "cap_table \<Rightarrow> cap_kind \<Rightarrow> u64 \<Rightarrow> rights \<Rightarrow> bool" where
  "authority t k oid r \<longleftrightarrow> (\<exists>h c. cap_get t h = Some c \<and> cap_kind c = k \<and> object_id c = oid \<and> contains_rights (cap_rights c) r)"

lemma attenuate_contains: "contains_rights (cap_rights (attenuate c r)) q \<longleftrightarrow> contains_rights (cap_rights c) q \<and> contains_rights r q"
proof -
  have "(a AND b) AND q = q \<longleftrightarrow> a AND q = q \<and> b AND q = q" for a b :: u32
    by (auto simp: bit_eq_iff bit_and_iff)
  then show ?thesis by (simp add: attenuate_def contains_rights_def)
qed

lemma cap_step_authority:
  assumes "cap_step t t'" and "authority t' k oid q"
  shows "authority t k oid q"
  using assms(1)
proof (cases rule: cap_step.cases)
  case (derive h c r)
  obtain g d where d: "cap_get t' g = Some d" "cap_kind d = k" "object_id d = oid" "contains_rights (cap_rights d) q"
    using assms(2) by (auto simp: authority_def)
  show ?thesis
  proof (cases "d = attenuate c r")
    case True
    then have "cap_kind c = k" "object_id c = oid" using d(2,3) by (simp_all add: attenuate_def)
    then show ?thesis using derive(2) d(4) True attenuate_contains unfolding authority_def by blast
  next
    case False
    then have "cap_get t g = Some d" using d(1) derive(1,3) by (simp add: caps.get_add split: if_splits)
    then show ?thesis using d unfolding authority_def by blast
  qed
next
  case (drop_cap h)
  then show ?thesis using assms(2) by (auto simp: authority_def cap_get_revoke split: if_splits)
qed

lemma cap_step_dead: "cap_step t t' \<Longrightarrow> unat h < length t \<Longrightarrow> cap_get t h = None \<Longrightarrow> unat h < length t' \<and> cap_get t' h = None"
proof (induction rule: cap_step.induct)
  case (derive t g c r)
  then have "h \<noteq> fst (cap_insert t (attenuate c r))" using caps.handle_iff [of t h "attenuate c r"] by simp
  then show ?case using derive by (simp add: caps.get_add caps.count_add)
qed (simp add: cap_get_revoke)

section \<open>Properties\<close>

text \<open> C18: A process cannot gain authority from its own table. Over every sequence of attenuated copies and revocations, a
  right on an object that the table grants in the end was granted at the start; a handle that stopped being valid stays
  invalid, because indices are not reused; and a check succeeds only with a valid handle whose rights include all of
  the required ones.\<close>

theorem authority_never_grows:
  assumes "cap_step\<^sup>*\<^sup>* t t'"
  shows "(authority t' k oid r \<longrightarrow> authority t k oid r)
    \<and> (unat h < length t \<and> cap_get t h = None \<longrightarrow> cap_get t' h = None)
    \<and> (check_rights t' h r \<longleftrightarrow> (\<exists>c. cap_get t' h = Some c \<and> cap_rights c AND r = r))"
proof -
  have "authority t' k oid r \<longrightarrow> authority t k oid r"
    using assms by (induction rule: rtranclp_induct) (auto dest: cap_step_authority)
  moreover have "unat h < length t \<and> cap_get t h = None \<longrightarrow> unat h < length t' \<and> cap_get t' h = None"
    using assms by (induction rule: rtranclp_induct) (auto dest: cap_step_dead)
  ultimately show ?thesis by (auto simp: check_rights_def contains_rights_def split: option.splits)
qed

definition demo_caps :: cap_table where
  "demo_caps = [Some \<lparr>cap_kind = IoPort, cap_rights = 3, object_id = 7\<rparr>]"

theorem authority_never_grows_witness:
  "cap_step\<^sup>*\<^sup>* demo_caps (revoke (snd (cap_insert demo_caps \<lparr>cap_kind = IoPort, cap_rights = 2, object_id = 7\<rparr>)) 0)
   \<and> authority (revoke (snd (cap_insert demo_caps \<lparr>cap_kind = IoPort, cap_rights = 2, object_id = 7\<rparr>)) 0) IoPort 7 WRITE
   \<and> authority demo_caps IoPort 7 WRITE"
proof -
  let ?c = "\<lparr>cap_kind = IoPort, cap_rights = 3, object_id = 7\<rparr>" and ?d = "\<lparr>cap_kind = IoPort, cap_rights = 2, object_id = 7\<rparr>"
  have d: "attenuate ?c 2 = ?d" by (simp add: attenuate_def)
  have s: "cap_step demo_caps (snd (cap_insert demo_caps ?d))"
    using cap_step.derive [of demo_caps 0 ?c 2] by (simp add: d demo_caps_def cap_get_def)
  have run: "cap_step\<^sup>*\<^sup>* demo_caps (revoke (snd (cap_insert demo_caps ?d)) 0)"
    using s cap_step.drop_cap [of "snd (cap_insert demo_caps ?d)" 0] by (meson converse_rtranclp_into_rtranclp r_into_rtranclp)
  have "cap_get (revoke (snd (cap_insert demo_caps ?d)) 0) 1 = Some ?d"
    by (simp add: revoke_def cap_get_def cap_insert_def demo_caps_def)
  then have "authority (revoke (snd (cap_insert demo_caps ?d)) 0) IoPort 7 WRITE"
    unfolding authority_def by (intro exI [of _ 1] exI [of _ ?d]) (simp add: contains_rights_def WRITE_def)
  then show ?thesis using authority_never_grows [OF run, of IoPort 7 WRITE] run by blast
qed

end
