(* ===== verification/Serial.thy ===== *)
theory Serial
  imports Prelude "HOL-Library.Multiset"
begin

text \<open>
  \<^verbatim>\<open>hammam/src/drivers/serial.rs\<close>: the spin lock every global of the kernel is wrapped in, and the driver of the
  16550 serial port. The lock is an interleaving of the atomic steps of its users, for which mutual exclusion is proved;
  the port is a device whose line status register answers each poll with a value of its own choice.
\<close>

section \<open>The spin lock\<close>

record 'a spin_mutex =
  locked :: bool
  cell :: 'a

definition mutex_new :: "'a \<Rightarrow> 'a spin_mutex" where
  "mutex_new d = \<lparr>locked = False, cell = d\<rparr>"

text \<open>One round of the loop of \<^verbatim>\<open>lock\<close>: the compare-and-exchange, and whether it took the lock.\<close>

definition try_lock :: "'a spin_mutex \<Rightarrow> bool \<times> 'a spin_mutex" where
  "try_lock m = (if locked m = False then (True, m\<lparr>locked := True\<rparr>) else (False, m))"

definition deref :: "'a spin_mutex \<Rightarrow> 'a" where
  "deref m = cell m"

definition deref_mut :: "'a spin_mutex \<Rightarrow> ('a \<Rightarrow> 'a) \<Rightarrow> 'a spin_mutex" where
  "deref_mut m f = m\<lparr>cell := f (cell m)\<rparr>"

definition guard_drop :: "'a spin_mutex \<Rightarrow> 'a spin_mutex" where
  "guard_drop m = m\<lparr>locked := False\<rparr>"

text \<open>The loop as its single user sees it: with nobody to drop the guard, a taken lock is never returned.\<close>

partial_function (option) mutex_lock :: "'a spin_mutex \<Rightarrow> 'a spin_mutex option" where
  "mutex_lock m = (case try_lock m of (ok, m') \<Rightarrow> if ok then Some m' else mutex_lock m')"

text \<open>
  The threads (or interrupt handlers) that share a mutex; the multiset holds the thread of every live guard.
\<close>

type_synonym thread = nat
type_synonym 'a shared = "'a spin_mutex \<times> thread multiset"

inductive mutex_step :: "thread \<Rightarrow> 'a shared \<Rightarrow> 'a shared \<Rightarrow> bool" where
  step_acquire: "try_lock m = (True, m') \<Longrightarrow> mutex_step t (m, G) (m', add_mset t G)"
| step_spin: "try_lock m = (False, m') \<Longrightarrow> mutex_step t (m, G) (m', G)"
| step_mutate: "t \<in># G \<Longrightarrow> mutex_step t (m, G) (deref_mut m f, G)"
| step_drop: "t \<in># G \<Longrightarrow> mutex_step t (m, G) (guard_drop m, G - {#t#})"

inductive_cases mutex_stepE: "mutex_step t (m, G) s'"

inductive mutex_run :: "'a \<Rightarrow> 'a shared \<Rightarrow> bool" for d :: 'a where
  run_new: "mutex_run d (mutex_new d, {#})"
| run_step: "mutex_run d s \<Longrightarrow> mutex_step t s s' \<Longrightarrow> mutex_run d s'"

lemmas mutex_defs = try_lock_def deref_mut_def guard_drop_def mutex_new_def

definition mutex_inv :: "'a shared \<Rightarrow> bool" where
  "mutex_inv s \<longleftrightarrow> (case s of (m, G) \<Rightarrow> if locked m then \<exists>t. G = {#t#} else G = {#})"

lemma mutex_step_inv: "mutex_step t s s' \<Longrightarrow> mutex_inv s \<Longrightarrow> mutex_inv s'"
  by (induction rule: mutex_step.induct) (auto simp: mutex_inv_def mutex_defs split: if_splits)

lemma mutex_run_inv: "mutex_run d s \<Longrightarrow> mutex_inv s"
proof (induction rule: mutex_run.induct)
  case run_new
  then show ?case by (simp add: mutex_inv_def mutex_new_def)
next
  case (run_step s t s')
  then show ?case using mutex_step_inv by blast
qed

lemma holder_excludes:
  assumes "mutex_inv (m, G)" and "t \<in># G" and "u \<noteq> t" and "mutex_step u (m, G) (m', G')"
  shows "m' = m \<and> G' = G"
proof -
  have G: "G = {#t#}" "locked m" using assms(1,2) by (auto simp: mutex_inv_def split: if_splits)
  show ?thesis using assms(4) by (rule mutex_stepE) (use G assms(3) in \<open>auto simp: mutex_defs\<close>)
qed

text \<open>
  C23: Whatever the interleaving of lock attempts, mutations and guard drops, at most one guard of a mutex is alive and the
  lock word says whether there is one; while a thread holds it, no step of another thread changes the data, the lock or
  the guard; and once it is dropped the next attempt takes the lock.
\<close>

theorem spin_mutex_excludes:
  assumes "mutex_run d (m, G)"
  shows "size G \<le> 1 \<and> (locked m \<longleftrightarrow> size G = 1) \<and> (G = {#} \<longrightarrow> fst (try_lock m))
    \<and> (\<forall>t u m' G'. t \<in># G \<longrightarrow> u \<noteq> t \<longrightarrow> mutex_step u (m, G) (m', G') \<longrightarrow> m' = m \<and> G' = G)"
proof -
  have inv: "mutex_inv (m, G)" using assms by (rule mutex_run_inv)
  then have "size G \<le> 1" "locked m \<longleftrightarrow> size G = 1" "G = {#} \<longrightarrow> fst (try_lock m)"
    by (auto simp: mutex_inv_def try_lock_def split: if_splits)
  then show ?thesis using holder_excludes [OF inv] by blast
qed

lemma demo_run: "mutex_run (0::nat) (\<lparr>locked = True, cell = 7\<rparr>, {#1#})"
proof -
  have "mutex_run (0::nat) (\<lparr>locked = True, cell = 0\<rparr>, {#1#})"
    using run_step [OF run_new step_acquire, of 0 _ 1] by (simp add: mutex_defs)
  then have "mutex_run (0::nat) (deref_mut \<lparr>locked = True, cell = 0\<rparr> (\<lambda>n. n + 7), {#1#})"
    by (rule run_step [OF _ step_mutate]) simp
  then show ?thesis by (simp add: mutex_defs)
qed

theorem spin_mutex_excludes_witness:
  "\<not> mutex_step 2 (\<lparr>locked = True, cell = 7::nat\<rparr>, {#1#}) (\<lparr>locked = False, cell = 7\<rparr>, {#})"
proof
  let ?m = "\<lparr>locked = True, cell = 7::nat\<rparr>"
  assume "mutex_step 2 (?m, {#1#}) (\<lparr>locked = False, cell = 7\<rparr>, {#})"
  moreover have "1 \<in># {#1 :: nat#}" "(2 :: nat) \<noteq> 1" by simp_all
  ultimately have "\<lparr>locked = False, cell = 7\<rparr> = ?m" using spin_mutex_excludes [OF demo_run] by blast
  then show False by simp
qed

text \<open>A context that locks a mutex it holds already, such as an interrupt handler over the code it interrupted, hangs.\<close>

lemma mutex_lock_free: "\<not> locked m \<Longrightarrow> mutex_lock m = Some (m\<lparr>locked := True\<rparr>)"
  by (subst mutex_lock.simps) (simp add: try_lock_def)

lemma mutex_lock_held_aux: "mutex_lock m = Some m' \<Longrightarrow> \<not> locked m"
  by (erule mutex_lock.raw_induct [where P = "\<lambda>m _. \<not> locked m", rotated])
    (auto simp: try_lock_def split: prod.splits if_splits)

lemma mutex_relock_hangs: "mutex_lock m = Some m' \<Longrightarrow> mutex_lock m' = None"
proof -
  assume a: "mutex_lock m = Some m'"
  then have "m' = m\<lparr>locked := True\<rparr>" using mutex_lock_held_aux [OF a] mutex_lock_free by fastforce
  then show ?thesis using mutex_lock_held_aux [of m'] by (cases "mutex_lock m'") auto
qed

section \<open>The serial port\<close>

text \<open>
  The device: the writes to its ports, oldest first, as offset and value; the answer to the \<open>n\<close>-th read of the line
  status register; and how many such reads there were.
\<close>

record uart =
  port :: u16
  port_log :: "(u16 \<times> u8) list"
  line_status :: "nat \<Rightarrow> u8"
  polls :: nat

definition COM1_BASE :: u16 where
  "COM1_BASE = 0x3F8"

definition outb :: "uart \<Rightarrow> u16 \<Rightarrow> u8 \<Rightarrow> uart" where
  "outb u offset v = u\<lparr>port_log := port_log u @ [(port u + offset, v)]\<rparr>"

definition serial_init :: "uart \<Rightarrow> uart" where
  "serial_init u = fold (\<lambda>(offset, v) u. outb u offset v)
     [(1, 0x00), (3, 0x80), (0, 0x03), (1, 0x00), (3, 0x03), (2, 0xC7), (4, 0x0B)] u"

definition is_transmit_empty :: "uart \<Rightarrow> bool \<times> uart" where
  "is_transmit_empty u = (line_status u (polls u) AND 0x20 \<noteq> 0, u\<lparr>polls := polls u + 1\<rparr>)"

partial_function (option) serial_write_byte :: "uart \<Rightarrow> u8 \<Rightarrow> uart option" where
  "serial_write_byte u b =
     (case is_transmit_empty u of (e, u') \<Rightarrow> if e then Some (outb u' 0 b) else serial_write_byte u' b)"

definition hex_digit :: "u8 \<Rightarrow> u8" where
  "hex_digit n = of_nat (of_char (''0123456789ABCDEF'' ! unat n))"

definition write_hex :: "uart \<Rightarrow> u8 \<Rightarrow> uart option" where
  "write_hex u v =
     do { u1 \<leftarrow> serial_write_byte u (hex_digit (drop_bit 4 v)); serial_write_byte u1 (hex_digit (v AND 0x0F)) }"

primrec serial_write_bytes :: "uart \<Rightarrow> u8 list \<Rightarrow> uart option" where
  "serial_write_bytes u [] = Some u"
| "serial_write_bytes u (b # bs) = do { u' \<leftarrow> serial_write_byte u b; serial_write_bytes u' bs }"

primrec write_str :: "uart \<Rightarrow> u8 list \<Rightarrow> uart option" where
  "write_str u [] = Some u"
| "write_str u (b # bs) =
     do {
       u1 \<leftarrow> (if b = 10 then serial_write_byte u 13 else Some u);
       u2 \<leftarrow> serial_write_byte u1 b;
       write_str u2 bs
     }"

text \<open>A device that is never busy for good.\<close>

definition drains :: "uart \<Rightarrow> bool" where
  "drains u \<longleftrightarrow> (\<forall>n. \<exists>m \<ge> n. line_status u m AND 0x20 \<noteq> 0)"

definition transmitted :: "uart \<Rightarrow> uart \<Rightarrow> u8 list \<Rightarrow> bool" where
  "transmitted u u' bs \<longleftrightarrow> port u' = port u \<and> line_status u' = line_status u
     \<and> port_log u' = port_log u @ map (\<lambda>b. (port u, b)) bs"

lemma transmitted_refl [simp]: "transmitted u u []"
  by (simp add: transmitted_def)

lemma transmitted_trans: "transmitted u v xs \<Longrightarrow> transmitted v w ys \<Longrightarrow> transmitted u w (xs @ ys)"
  by (simp add: transmitted_def)

lemma transmitted_drains: "transmitted u u' bs \<Longrightarrow> drains u \<Longrightarrow> drains u'"
  by (simp add: transmitted_def drains_def)

lemma serial_write_byte_ok:
  assumes "drains u"
  shows "\<exists>u'. serial_write_byte u b = Some u' \<and> transmitted u u' [b]"
proof -
  obtain m where m: "polls u \<le> m" "line_status u m AND 0x20 \<noteq> 0" using assms unfolding drains_def by blast
  then show ?thesis
  proof (induction "m - polls u" arbitrary: u rule: less_induct)
    case less
    show ?case
    proof (cases "line_status u (polls u) AND 0x20 \<noteq> 0")
      case True
      then show ?thesis
        by (subst serial_write_byte.simps) (simp add: is_transmit_empty_def outb_def transmitted_def)
    next
      case False
      then have "polls u < m" using less.prems by (cases "m = polls u") auto
      then obtain u' where "serial_write_byte (u\<lparr>polls := polls u + 1\<rparr>) b = Some u'"
        "transmitted (u\<lparr>polls := polls u + 1\<rparr>) u' [b]"
        using less.hyps [of "u\<lparr>polls := polls u + 1\<rparr>"] less.prems by (auto simp: diff_less_mono2)
      then show ?thesis using False
        by (subst serial_write_byte.simps) (simp add: is_transmit_empty_def transmitted_def)
    qed
  qed
qed

lemma serial_write_bytes_ok: "drains u \<Longrightarrow> \<exists>u'. serial_write_bytes u bs = Some u' \<and> transmitted u u' bs"
proof (induction bs arbitrary: u)
  case (Cons b bs)
  obtain v where v: "serial_write_byte u b = Some v" "transmitted u v [b]"
    using serial_write_byte_ok [OF Cons.prems] by blast
  then obtain w where "serial_write_bytes v bs = Some w" "transmitted v w bs"
    using Cons.IH transmitted_drains Cons.prems by blast
  then show ?case using v transmitted_trans by fastforce
qed simp

lemma serial_write_bytes_append:
  "serial_write_bytes u (xs @ ys) = do { v \<leftarrow> serial_write_bytes u xs; serial_write_bytes v ys }"
  by (induction xs arbitrary: u) (auto split: option.splits bind_splits)

text \<open>The text output is the byte output with every line feed preceded by a carriage return.\<close>

lemma write_str_crlf: "write_str u bs = serial_write_bytes u (concat (map (\<lambda>b. if b = 10 then [13, b] else [b]) bs))"
  by (induction bs arbitrary: u) (auto simp: Option.bind_assoc intro!: Option.bind_cong)

section \<open>The kernel's log\<close>

text \<open>The macros \<^verbatim>\<open>kprint!\<close> and \<^verbatim>\<open>kprintln!\<close>: \<^verbatim>\<open>core::fmt\<close> passes the pieces of the text to \<^verbatim>\<open>write_str\<close>, which never fails. Only the lines that
  reach the wire are the log; the functions modelled elsewhere leave their log lines out.\<close>

primrec kprint :: "uart \<Rightarrow> u8 list list \<Rightarrow> uart option" where
  "kprint u [] = Some u"
| "kprint u (p # ps) = do { u' \<leftarrow> write_str u p; kprint u' ps }"

definition kprintln :: "uart \<Rightarrow> u8 list list \<Rightarrow> uart option" where
  "kprintln u ps = kprint u (ps @ [[10]])"

lemma kprint_concat: "kprint u ps = write_str u (concat ps)"
proof (induction ps arbitrary: u)
  case (Cons p ps)
  then show ?case by (simp add: write_str_crlf serial_write_bytes_append)
qed simp

lemma kprintln_sends:
  assumes "drains u"
  shows "\<exists>u'. kprintln u ps = Some u' \<and> transmitted u u' (concat (map (\<lambda>b. if b = 10 then [13, b] else [b]) (concat ps)) @ [13, 10])"
  using serial_write_bytes_ok [OF assms, of "concat (map (\<lambda>b. if b = 10 then [13, b] else [b]) (concat ps)) @ [13, 10]"]
  by (simp add: kprintln_def kprint_concat write_str_crlf)

end
