(* ===== verification/Process.thy ===== *)
theory Process
  imports Elf Sched Cap Serial
begin

text \<open>
  Processes (\<^verbatim>\<open>hammam/src/process/mod.rs\<close>) and the global state of the kernel they live in: the process table, the
  current process, the process number counter, the two kernel stack pointers of \<^verbatim>\<open>arch/x86_64/gdt.rs\<close> and
  \<^verbatim>\<open>arch/x86_64/syscall.rs\<close>, beside the machine of the loader, the scheduler and the serial port. Shared
  \<^verbatim>\<open>Arc\<close> objects are references into a store; a new object takes the next unused reference.

  The theorem of this theory composes the page allocator, the page tables, the loader and the stack set-up: a process is
  created with its program and its stack in place, or memory has run out.
\<close>

section \<open>State\<close>

record process =
  pid :: u32
  proc_caps :: cap_table
  main_task :: task_ref
  entry :: u64
  user_stack_top :: u64
  exit_code :: i32
  is_zombie :: bool

type_synonym proc_ref = nat

datatype process_error = ElfError | AllocationError | StackAllocationError

record kernel =
  mach :: machine
  sched :: scheduler
  next_task :: task_ref
  procs :: "proc_ref \<Rightarrow> process"
  next_proc :: proc_ref
  PROCESS_TABLE :: "(u32 \<times> proc_ref) list"
  CURRENT_PROCESS :: "proc_ref option"
  NEXT_PID :: u32
  tss_rsp0 :: u64
  SC_KERNEL_RSP :: u64
  stack_words :: "u64 \<Rightarrow> u64"
  uart0 :: uart

definition next_pid :: "kernel \<Rightarrow> u32 \<times> kernel" where
  "next_pid K = (NEXT_PID K, K\<lparr>NEXT_PID := NEXT_PID K + 1\<rparr>)"

definition gdt_set_kernel_stack :: "kernel \<Rightarrow> u64 \<Rightarrow> kernel" where
  "gdt_set_kernel_stack K rsp0 = K\<lparr>tss_rsp0 := rsp0\<rparr>"

definition syscall_set_kernel_stack :: "kernel \<Rightarrow> u64 \<Rightarrow> kernel" where
  "syscall_set_kernel_stack K sp = K\<lparr>SC_KERNEL_RSP := sp\<rparr>"

definition set_space :: "kernel \<Rightarrow> vm \<Rightarrow> kernel" where
  "set_space K v = K\<lparr>mach := (mach K)\<lparr>space := v\<rparr>\<rparr>"

section \<open>Creating a process\<close>

definition USER_STACK_PAGES :: u64 where
  "USER_STACK_PAGES = 16"

definition USER_STACK_VADDR :: u64 where
  "USER_STACK_VADDR = 0x08000000"

definition USER_STACK_END :: u64 where
  "USER_STACK_END = USER_STACK_VADDR + USER_STACK_PAGES * 0x1000"

definition STACK_FLAGS :: page_flags where
  "STACK_FLAGS = PRESENT OR WRITABLE OR USER_ACCESSIBLE"

lemma next_page_closer: "checked_add b 0x1000 = Some (n :: u64) \<Longrightarrow> 2 ^ 64 - unat n < 2 ^ 64 - unat b"
  using checked_add_unat [of b "0x1000" n] unsigned_less [of n, where 'a = nat] by simp

text \<open>The loop \<^verbatim>\<open>while user_stack_bottom < user_stack_vaddr_end\<close>.\<close>

function map_user_stack :: "vm \<Rightarrow> u64 \<Rightarrow> u64 \<Rightarrow> ((process_error + unit) \<times> vm) option" where
  "map_user_stack v user_stack_bottom user_stack_end =
     (if user_stack_bottom < user_stack_end then
        (case allocate (allocator v) 0 of
           None \<Rightarrow> None
         | Some (Inl _, a) \<Rightarrow> Some (Inl StackAllocationError, v\<lparr>allocator := a\<rparr>)
         | Some (Inr f, a) \<Rightarrow>
             (case map_page (v\<lparr>allocator := a\<rparr>) user_stack_bottom f STACK_FLAGS of
                None \<Rightarrow> None
              | Some (Inl _, v') \<Rightarrow> Some (Inl StackAllocationError, v')
              | Some (Inr _, v') \<Rightarrow>
                  (case checked_add user_stack_bottom 0x1000 of
                     None \<Rightarrow> None
                   | Some nxt \<Rightarrow> map_user_stack v' nxt user_stack_end)))
      else Some (Inr (), v))"
  by pat_completeness auto
termination
  by (relation "measure (\<lambda>(v, bottom, e). 2 ^ 64 - unat bottom)") (auto dest: next_page_closer)

declare map_user_stack.simps [simp del]

text \<open>A fresh task, with the first word of its kernel stack and its saved stack pointer set for the first switch to it.\<close>

definition spawn_task :: "u64 \<Rightarrow> u64 \<Rightarrow> u32 \<Rightarrow> kernel \<Rightarrow> (task_ref \<times> kernel) option" where
  "spawn_task trampoline stack_base p K =
     (let t = task_new (ucast p) 1 stack_base; r = next_task K in
      do {
        stack_ptr \<leftarrow> checked_sub (kernel_stack_top t) 8;
        Some (r, K\<lparr>next_task := Suc r, stack_words := (stack_words K)(stack_ptr := trampoline),
          sched := update_task (sched K) r (\<lambda>_. t\<lparr>ctxt := (ctxt t)\<lparr>rsp := stack_ptr\<rparr>, state := Ready\<rparr>)\<rparr>)
      })"

definition from_elf ::
  "(u8 list \<Rightarrow> elf_file option) \<Rightarrow> u64 \<Rightarrow> u64 \<Rightarrow> u32 \<Rightarrow> u8 list \<Rightarrow> kernel \<Rightarrow> ((process_error + process) \<times> kernel) option" where
  "from_elf elf_parse trampoline stack_base p elf_data K =
     do {
       (r, m1) \<leftarrow> elf_load elf_parse elf_data (mach K);
       let K1 = K\<lparr>mach := m1\<rparr>;
       (case r of Inl _ \<Rightarrow> Some (Inl ElfError, K1) | Inr entry_va \<Rightarrow>
         do {
           (q, a) \<leftarrow> allocate (allocator (space (mach K1))) 0;
           let K2 = set_space K1 ((space (mach K1))\<lparr>allocator := a\<rparr>);
           (case q of Inl _ \<Rightarrow> Some (Inl StackAllocationError, K2) | Inr kernel_stack_frame \<Rightarrow>
             do {
               top \<leftarrow> checked_add (start_address kernel_stack_frame) 0x1000;
               let K3 = syscall_set_kernel_stack (gdt_set_kernel_stack K2 top) top;
               (s, v) \<leftarrow> map_user_stack (space (mach K3)) USER_STACK_VADDR USER_STACK_END;
               let K4 = set_space K3 v;
               (case s of Inl e \<Rightarrow> Some (Inl e, K4) | Inr _ \<Rightarrow>
                 do {
                   (task, K5) \<leftarrow> spawn_task trampoline stack_base p K4;
                   Some (Inr \<lparr>pid = p, proc_caps = cap_new, main_task = task, entry = entry_va,
                     user_stack_top = USER_STACK_END, exit_code = 0, is_zombie = False\<rparr>, K5)
                 })
             })
         })
     }"

section \<open>The user stack\<close>

lemma page_steps:
  assumes "unat start + 4096 * j \<le> 2 ^ 48"
  shows "unat (start + of_nat (j * 0x1000) :: u64) = unat start + 4096 * j"
proof -
  have u: "unat (of_nat (j * 0x1000) :: u64) = j * 0x1000" using assms by (intro unat_of_nat_small) simp
  have "unat start + unat (of_nat (j * 0x1000) :: u64) < 2 ^ LENGTH(64)" unfolding u using assms by simp
  then show ?thesis by (simp only: unat_add_no_wrap u mult.commute)
qed

lemma map_user_stack_pages:
  "unat start + 4096 * (i + n) \<le> 2 ^ 48 \<Longrightarrow>
   map_user_stack v (start + of_nat (i * 0x1000)) (start + of_nat ((i + n) * 0x1000)) =
     map_option (\<lambda>(r, v'). (case r of Inl _ \<Rightarrow> Inl StackAllocationError | Inr u \<Rightarrow> Inr u, v'))
       (map_pages v start STACK_FLAGS i n)"
proof (induction n arbitrary: v i)
  case 0
  have "map_user_stack v b b = Some (Inr (), v)" for b by (subst map_user_stack.simps) simp
  then show ?case by (simp only: add_0_right map_pages.simps option.map prod.case sum.case)
next
  case (Suc n)
  let ?b = "start + of_nat (i * 0x1000)" and ?e = "start + of_nat ((i + Suc n) * 0x1000)"
  have u: "unat ?b = unat start + 4096 * i" "unat ?e = unat start + 4096 * (i + Suc n)"
    by (rule page_steps, use Suc.prems in simp)+
  have lt: "?b < ?e" unfolding word_less_nat_alt u by simp
  have ui: "unat (of_nat (i * 0x1000) :: u64) = i * 0x1000" using Suc.prems by (intro unat_of_nat_small) simp
  have a: "checked_add start (of_nat (i * 0x1000)) = Some ?b"
    unfolding checked_add_def ui using Suc.prems by simp
  have nx: "checked_add ?b 0x1000 = Some (start + of_nat (Suc i * 0x1000))"
  proof -
    have "unat ?b + unat (0x1000 :: u64) < 2 ^ LENGTH(64)" unfolding u using Suc.prems by simp
    moreover have "?b + 0x1000 = start + of_nat (Suc i * 0x1000)" by (simp add: algebra_simps)
    ultimately show ?thesis by (simp only: checked_add_def if_True)
  qed
  have IH: "map_user_stack w (start + of_nat (Suc i * 0x1000)) ?e =
     map_option (\<lambda>(r, v'). (case r of Inl _ \<Rightarrow> Inl StackAllocationError | Inr u \<Rightarrow> Inr u, v'))
       (map_pages w start STACK_FLAGS (Suc i) n)" for w
    using Suc.IH [of "Suc i" w] Suc.prems by (simp only: add_Suc_shift)
  note unf = map_user_stack.simps [of v ?b ?e] map_pages.simps(2) [of v start STACK_FLAGS i n]
  show ?case
  proof (cases "allocate (allocator v) 0")
    case None
    then show ?thesis unfolding unf using lt by simp
  next
    case (Some p)
    obtain r al where p: "p = (r, al)" by (cases p)
    show ?thesis
    proof (cases r)
      case (Inl e)
      then show ?thesis unfolding unf using lt Some p by simp
    next
      case (Inr f)
      have both: "map_user_stack v ?b ?e = (case map_page (v\<lparr>allocator := al\<rparr>) ?b f STACK_FLAGS of None \<Rightarrow> None
            | Some (Inl _, v') \<Rightarrow> Some (Inl StackAllocationError, v')
            | Some (Inr _, v') \<Rightarrow> map_user_stack v' (start + of_nat (Suc i * 0x1000)) ?e)"
        "map_pages v start STACK_FLAGS i (Suc n) = (case map_page (v\<lparr>allocator := al\<rparr>) ?b f STACK_FLAGS of None \<Rightarrow> None
            | Some (Inl _, v') \<Rightarrow> Some (Inl MappingError, v')
            | Some (Inr _, v') \<Rightarrow> map_pages v' start STACK_FLAGS (Suc i) n)"
        unfolding unf Some p Inr nx a using lt
        by (simp_all add: Let_def del: of_nat_mult of_nat_Suc split: option.split prod.split sum.split)
      show ?thesis unfolding both IH by (simp del: of_nat_mult of_nat_Suc split: option.split prod.split sum.split)
    qed
  qed
qed

lemma loaded_take_page:
  assumes "loaded v F" and "allocate (allocator v) 0 = Some (Inr f, a)"
  shows "loaded (v\<lparr>allocator := a\<rparr>) F" "unat (start_address f) < 2 ^ 52"
proof -
  note t = vm_inv_take_page [OF loadedD(1) [OF assms(1)] assms(2)]
  show "loaded (v\<lparr>allocator := a\<rparr>) F"
    using assms(1) t unfolding loaded_def by simp
  have "page_no (start_address f) < 2 ^ 40" using t(4) loadedD(1) [OF assms(1)] by (auto simp: vm_inv_def)
  then show "unat (start_address f) < 2 ^ 52" by (simp add: div_less_iff_less_mult)
qed

lemma stack_flags_valid: "valid_flags STACK_FLAGS" "(STACK_FLAGS OR PRESENT) AND NOT HUGE_PAGE = STACK_FLAGS"
  by (simp_all add: STACK_FLAGS_def valid_flags_def all_flags_eq PRESENT_def WRITABLE_def USER_ACCESSIBLE_def HUGE_PAGE_def)

definition stack_pages :: "nat set" where
  "stack_pages = {0x8000 ..< 0x8010}"

lemma map_user_stack_spec:
  assumes "loaded v F"
  shows "\<exists>r v'. map_user_stack v USER_STACK_VADDR USER_STACK_END = Some (r, v') \<and>
    (case r of Inl e \<Rightarrow> e = StackAllocationError \<and> free_page_set (allocator v') = {}
     | Inr _ \<Rightarrow> \<exists>F'. loaded v' F' \<and> (\<forall>m \<in> stack_pages. \<exists>f. F' m = Some (f, STACK_FLAGS))
         \<and> (\<forall>m. m \<notin> stack_pages \<longrightarrow> F' m = F m))"
proof -
  have sb: "USER_STACK_VADDR = 0x08000000 + of_nat (0 * 0x1000)" "USER_STACK_END = 0x08000000 + of_nat ((0 + 16) * 0x1000)"
    by (simp_all add: USER_STACK_VADDR_def USER_STACK_END_def USER_STACK_PAGES_def)
  have pg: "stack_pages = {page_no 0x08000000 + 0 ..< page_no 0x08000000 + 0 + 16}" by (simp add: stack_pages_def)
  have eq: "map_user_stack v USER_STACK_VADDR USER_STACK_END =
     map_option (\<lambda>(r, v'). (case r of Inl _ \<Rightarrow> Inl StackAllocationError | Inr u \<Rightarrow> Inr u, v'))
       (map_pages v 0x08000000 STACK_FLAGS 0 16)"
    unfolding sb by (rule map_user_stack_pages) simp
  obtain r v' where m: "map_pages v 0x08000000 STACK_FLAGS 0 16 = Some (r, v')"
    and c: "case r of Inl e \<Rightarrow> e \<in> {Elf.AllocationError, MappingError} \<and> free_page_set (allocator v') = {}
       | Inr _ \<Rightarrow> \<exists>F'. loaded v' F' \<and> (\<forall>m \<in> stack_pages. \<exists>f. F' m = Some (f, STACK_FLAGS))
           \<and> (\<forall>m. m \<notin> stack_pages \<longrightarrow> F' m = F m)"
    using map_pages_spec [OF stack_flags_valid(1), of "0x08000000" v F 0 16, unfolded stack_flags_valid(2), folded pg] assms
    by fastforce
  show ?thesis using c unfolding eq m by (cases r) auto
qed

section \<open>What creating a process leaves alone\<close>

definition same_processes :: "kernel \<Rightarrow> kernel \<Rightarrow> bool" where
  "same_processes K K' \<longleftrightarrow> procs K' = procs K \<and> next_proc K' = next_proc K \<and> PROCESS_TABLE K' = PROCESS_TABLE K
     \<and> CURRENT_PROCESS K' = CURRENT_PROCESS K \<and> NEXT_PID K' = NEXT_PID K \<and> uart0 K' = uart0 K"

definition ready_task :: "u64 \<Rightarrow> u32 \<Rightarrow> task" where
  "ready_task stack_base p = (let t = task_new (ucast p) 1 stack_base
     in t\<lparr>ctxt := (ctxt t)\<lparr>rsp := kernel_stack_top t - 8\<rparr>, state := Ready\<rparr>)"

lemma spawn_task_spec:
  "spawn_task trampoline base p K = Some (r, K') \<Longrightarrow> same_processes K K' \<and> mach K' = mach K \<and> r = next_task K
     \<and> next_task K' = Suc r \<and> sched K' = update_task (sched K) r (\<lambda>_. ready_task base p)
     \<and> stack_words K' (rsp (ctxt (ready_task base p))) = trampoline
     \<and> tss_rsp0 K' = tss_rsp0 K \<and> SC_KERNEL_RSP K' = SC_KERNEL_RSP K"
  by (auto simp: spawn_task_def same_processes_def ready_task_def Let_def checked_sub_Some bind_intros)

lemma from_elf_frame:
  assumes "from_elf elf_parse trampoline base p dat K = Some (r, K')"
  shows "same_processes K K'"
    "case r of Inl _ \<Rightarrow> sched K' = sched K \<and> next_task K' = next_task K
     | Inr P \<Rightarrow> pid P = p \<and> main_task P = next_task K \<and> next_task K' = Suc (next_task K) \<and> \<not> is_zombie P \<and> exit_code P = 0
         \<and> sched K' = update_task (sched K) (next_task K) (\<lambda>_. ready_task base p)"
  using assms
  by (auto simp: from_elf_def Let_def same_processes_def set_space_def syscall_set_kernel_stack_def gdt_set_kernel_stack_def
      split: sum.splits prod.splits bind_splits dest!: spawn_task_spec)

lemma placed_keep:
  assumes "placed dat k F off ph" and "ram k' = ram k" and "\<forall>m. m \<notin> S \<longrightarrow> F' m = F m" and "seg_pages off ph \<inter> S = {}"
  shows "placed dat k' F' off ph"
proof -
  have eq: "F' m = F m" if "m \<in> seg_pages off ph" for m using assms(3,4) that by blast
  then have "vmem k' F' x = vmem k F x"
    if "seg_start off ph \<le> unat x" "unat x < seg_start off ph + unat (mem_size ph)" for x
    unfolding vmem_def assms(2) using segment_page [OF that] eq by simp
  then show ?thesis using assms(1) eq unfolding placed_def by simp
qed

lemma stack_view:
  assumes "loaded v F" and "\<forall>m \<in> stack_pages. \<exists>f. F m = Some (f, STACK_FLAGS)"
    and "0x08000000 \<le> unat x" and "unat x < 0x08010000"
  shows "map_option snd (page_view v x) = Some STACK_FLAGS"
proof -
  have "page_no x \<in> stack_pages" using assms(3,4) by (auto simp: stack_pages_def)
  then show ?thesis using assms(2) loadedD(4) [OF assms(1)] by fastforce
qed

lemma from_elf_stages:
  assumes run: "elf_load elf_parse dat (mach K) = Some (Inr en, k1)" and F: "loaded (space k1) F" and base: "8 \<le> kernel_stack_new base"
  shows "\<exists>r K'. from_elf elf_parse trampoline base p dat K = Some (r, K') \<and>
    (case r of
       Inl e \<Rightarrow> free_page_set (allocator (space (mach K'))) = {} \<and> sched K' = sched K
     | Inr P \<Rightarrow> entry P = en \<and> user_stack_top P = 0x08010000 \<and> ram (mach K') = ram k1 \<and> tss_rsp0 K' = SC_KERNEL_RSP K'
         \<and> tasks (sched K') (main_task P) = ready_task base p \<and> stack_words K' (rsp (ctxt (ready_task base p))) = trampoline
         \<and> (\<exists>F'. loaded (space (mach K')) F' \<and> (\<forall>m \<in> stack_pages. \<exists>f. F' m = Some (f, STACK_FLAGS))
              \<and> (\<forall>m. m \<notin> stack_pages \<longrightarrow> F' m = F m)))"
proof -
  note unf = from_elf_def set_space_def syscall_set_kernel_stack_def gdt_set_kernel_stack_def
  have binv: "buddy_invar (allocator (space k1))" using loadedD(1) [OF F] by (simp add: vm_inv_def)
  then obtain q a where qa: "allocate (allocator (space k1)) 0 = Some (q, a)" using buddy.alloc_total by blast
  show ?thesis
  proof (cases q)
    case (Inl e)
    then have "a = allocator (space k1)" "free_page_set (allocator (space k1)) = {}"
      using allocate_page_error [OF binv, of e a] qa by simp_all
    then show ?thesis using run qa Inl by (simp add: unf)
  next
    case (Inr f)
    have al: "allocate (allocator (space k1)) 0 = Some (Inr f, a)" using qa Inr by simp
    have top: "checked_add (start_address f) 0x1000 = Some (start_address f + 0x1000)"
      using loaded_take_page(2) [OF F al] by (simp add: checked_add_def)
    obtain s v where sv: "map_user_stack ((space k1)\<lparr>allocator := a\<rparr>) USER_STACK_VADDR USER_STACK_END = Some (s, v)"
      and sc: "case s of Inl e \<Rightarrow> e = StackAllocationError \<and> free_page_set (allocator v) = {}
        | Inr _ \<Rightarrow> \<exists>F'. loaded v F' \<and> (\<forall>m \<in> stack_pages. \<exists>f. F' m = Some (f, STACK_FLAGS))
            \<and> (\<forall>m. m \<notin> stack_pages \<longrightarrow> F' m = F m)" using map_user_stack_spec [OF loaded_take_page(1) [OF F al]] by blast
    have ks: "checked_sub (kernel_stack_top (task_new (ucast p) 1 base)) 8 = Some (kernel_stack_new base - 8)"
      using base by (simp add: checked_sub_def task_new_def)
    have ue: "USER_STACK_END = 0x08010000" by (simp add: USER_STACK_END_def USER_STACK_VADDR_def USER_STACK_PAGES_def)
    show ?thesis
      using run al top sv sc ks
      by (cases s) (simp_all add: unf spawn_task_def ready_task_def Let_def update_task_def task_new_def ue)
  qed
qed

section \<open>A process is built\<close>

text \<open>Files the loader can place beside a stack: segments in user space, inside the file, on pages of their own, no relocation.\<close>

definition loadable :: "u8 list \<Rightarrow> elf_file \<Rightarrow> bool" where
  "loadable dat elf \<longleftrightarrow> (let off = load_offset_of elf; L = loads (program_iter elf) in
     (\<forall>ph \<in> set L. seg_ok dat off ph \<and> seg_pages off ph \<inter> stack_pages = {}) \<and> apart off L
     \<and> unat (entry_point elf) + unat off < 2 ^ 64 \<and> (off = 0 \<or> \<not> (\<exists>ph \<in> set (program_iter elf). ph_type ph = Some Dynamic)))"

text \<open>What a new process's memory holds: every byte of every segment with the segment's permissions, and the user stack.\<close>

definition image_of :: "u8 list \<Rightarrow> elf_file \<Rightarrow> machine \<Rightarrow> bool" where
  "image_of dat elf m \<longleftrightarrow> vm_inv (space m)
     \<and> (\<forall>ph \<in> set (loads (program_iter elf)). \<forall>x.
          seg_start (load_offset_of elf) ph \<le> unat x \<and> unat x < seg_start (load_offset_of elf) ph + unat (mem_size ph) \<longrightarrow>
          read_byte m x = Some (seg_byte dat ph (unat x - seg_start (load_offset_of elf) ph))
          \<and> map_option snd (page_view (space m) x) = Some (segment_flags ph))
     \<and> (\<forall>x. 0x08000000 \<le> unat x \<and> unat x < 0x08010000 \<longrightarrow> map_option snd (page_view (space m) x) = Some STACK_FLAGS)"

text \<open>Creating a process composes the allocator, the page tables and the loader: it returns, with the program and its stack
  in place and the new task ready to enter the trampoline, or because no page is free.\<close>

lemma from_elf_builds_process:
  assumes "elf_parse dat = Some elf" and "vm_inv (space (mach K))" and "loadable dat elf" and "8 \<le> kernel_stack_new base"
  shows "\<exists>r K'. from_elf elf_parse tramp base p dat K = Some (r, K') \<and>
    (case r of
       Inl e \<Rightarrow> free_page_set (allocator (space (mach K'))) = {} \<and> sched K' = sched K
     | Inr P \<Rightarrow> entry P = entry_point elf + load_offset_of elf \<and> user_stack_top P = 0x08010000 \<and> image_of dat elf (mach K')
         \<and> tss_rsp0 K' = SC_KERNEL_RSP K' \<and> tasks (sched K') (main_task P) = ready_task base p
         \<and> stack_words K' (rsp (ctxt (ready_task base p))) = tramp)"
proof -
  let ?off = "load_offset_of elf" and ?L = "loads (program_iter elf)"
  have ok: "\<forall>ph \<in> set ?L. seg_ok dat ?off ph" and ap: "\<forall>ph \<in> set ?L. seg_pages ?off ph \<inter> stack_pages = {}"
    and rest: "apart ?off ?L" "unat (entry_point elf) + unat ?off < 2 ^ 64"
      "?off = 0 \<or> \<not> (\<exists>ph \<in> set (program_iter elf). ph_type ph = Some Dynamic)"
    using assms(3) unfolding loadable_def Let_def by blast+
  obtain r k1 where run: "elf_load elf_parse dat (mach K) = Some (r, k1)"
    and c: "case r of Inl e \<Rightarrow> e \<in> {Elf.AllocationError, MappingError} \<and> free_page_set (allocator (space k1)) = {}
     | Inr en \<Rightarrow> en = entry_point elf + ?off
         \<and> (\<exists>F'. loaded (space k1) F' \<and> (\<forall>ph \<in> set ?L. placed dat k1 F' ?off ph))"
    using elf_load_spec [of elf_parse dat elf, OF assms(1) loaded_empty [OF assms(2)] ok rest] by blast
  show ?thesis
  proof (cases r)
    case (Inl e)
    then show ?thesis using run c by (simp add: from_elf_def)
  next
    case (Inr en)
    then obtain F where F: "loaded (space k1) F" "\<forall>ph \<in> set ?L. placed dat k1 F ?off ph" and en: "en = entry_point elf + ?off"
      using c by auto
    obtain r' K' where r': "from_elf elf_parse tramp base p dat K = Some (r', K')"
      and c': "case r' of
       Inl e \<Rightarrow> free_page_set (allocator (space (mach K'))) = {} \<and> sched K' = sched K
     | Inr P \<Rightarrow> entry P = en \<and> user_stack_top P = 0x08010000 \<and> ram (mach K') = ram k1 \<and> tss_rsp0 K' = SC_KERNEL_RSP K'
         \<and> tasks (sched K') (main_task P) = ready_task base p \<and> stack_words K' (rsp (ctxt (ready_task base p))) = tramp
         \<and> (\<exists>F'. loaded (space (mach K')) F' \<and> (\<forall>m \<in> stack_pages. \<exists>f. F' m = Some (f, STACK_FLAGS))
              \<and> (\<forall>m. m \<notin> stack_pages \<longrightarrow> F' m = F m))"
      using from_elf_stages [OF _ F(1) assms(4), of elf_parse dat K en tramp p] run Inr by blast
    show ?thesis
    proof (cases r')
      case (Inl e)
      then show ?thesis using r' c' by simp
    next
      case P: (Inr P)
      then obtain F' where F': "loaded (space (mach K')) F'" "\<forall>m \<in> stack_pages. \<exists>f. F' m = Some (f, STACK_FLAGS)"
        "\<forall>m. m \<notin> stack_pages \<longrightarrow> F' m = F m" and rm: "ram (mach K') = ram k1" using c' by auto
      have pl: "placed dat (mach K') F' ?off ph" if t: "ph \<in> set ?L" for ph
        by (rule placed_keep [OF _ rm F'(3)]) (use F(2) ap t in blast)+
      show ?thesis using r' c' P en loadedD(1) [OF F'(1)] placed_reads [OF F'(1) pl] stack_view [OF F'(1,2)]
        by (auto simp: image_of_def)
    qed
  qed
qed

definition demo_kernel :: kernel where
  "demo_kernel = \<lparr>mach = demo_machine, sched = scheduler_new (\<lambda>_. task_new 0 1 0), next_task = 0,
     procs = (\<lambda>_. \<lparr>pid = 0, proc_caps = cap_new, main_task = 0, entry = 0, user_stack_top = 0, exit_code = 0, is_zombie = False\<rparr>),
     next_proc = 0, PROCESS_TABLE = [], CURRENT_PROCESS = None, NEXT_PID = 2, tss_rsp0 = 0, SC_KERNEL_RSP = 0,
     stack_words = (\<lambda>_. 0), uart0 = \<lparr>port = COM1_BASE, port_log = [], line_status = (\<lambda>_. 0x20), polls = 0\<rparr>\<rparr>"

end
