(* ===== verification/UserPtr.thy ===== *)
theory UserPtr
  imports Paging
begin

text \<open>
  Validation of user pointers (\<^verbatim>\<open>hammam/src/mm/userptr.rs\<close>, through the \<^verbatim>\<open>AddressSpace\<close> wrapper of
  \<^verbatim>\<open>sched/task.rs\<close>): the range check against the user half of the address space and the loop that looks up every
  page of the range. The theory proves that the loop ends, that no arithmetic overflows, and that a slice is
  handed out exactly when each of its bytes is mapped (and writable, for the mutable variant).
\<close>

datatype user_ptr_error = BadAddress | NotMapped | NotWritable | OverflowDetected

fun user_ptr_error_code :: "user_ptr_error \<Rightarrow> i64" where
  "user_ptr_error_code BadAddress = - 14"
| "user_ptr_error_code NotMapped = - 14"
| "user_ptr_error_code NotWritable = - 13"
| "user_ptr_error_code OverflowDetected = - 22"

definition USER_MAX :: u64 where
  "USER_MAX = 0x0000800000000000"

text \<open>A slice over user memory, or the empty one.\<close>

datatype user_slice = Empty | Raw u64 u64

text \<open>
  The loop \<^verbatim>\<open>while page <= last_page { check; page += 0x1000; }\<close>, with the check of one page as a parameter.
\<close>

function check_pages ::
  "(u64 \<Rightarrow> user_ptr_error + unit) \<Rightarrow> u64 \<Rightarrow> u64 \<Rightarrow> (user_ptr_error + unit) option" where
  "check_pages chk page last_page =
     (if page \<le> last_page then
        (case chk page of
           Inl e \<Rightarrow> Some (Inl e)
         | Inr _ \<Rightarrow>
             (case checked_add page 0x1000 of
                None \<Rightarrow> None
              | Some page' \<Rightarrow> check_pages chk page' last_page))
      else Some (Inr ()))"
  by pat_completeness auto
termination
proof (relation "measure (\<lambda>(chk, page, last). 2 ^ 64 - unat page)")
  fix chk page last r u and page' :: u64
  assume "checked_add page 0x1000 = Some page'"
  then have "unat page' = unat page + 4096" using checked_add_unat by fastforce
  moreover have "unat page' < 2 ^ 64" using unsigned_less [of page', where 'a = nat] by simp
  ultimately show "((chk, page', last), chk, page, last) \<in> measure (\<lambda>(chk, page, last). 2 ^ 64 - unat page)"
    by simp
qed simp

declare check_pages.simps [simp del]

definition check_mapped :: "vm \<Rightarrow> u64 \<Rightarrow> user_ptr_error + unit" where
  "check_mapped v page = (case translate v page of None \<Rightarrow> Inl NotMapped | Some _ \<Rightarrow> Inr ())"

definition check_writable :: "vm \<Rightarrow> u64 \<Rightarrow> user_ptr_error + unit" where
  "check_writable v page = (case translate_flags v page of None \<Rightarrow> Inl NotMapped
     | Some fl \<Rightarrow> if contains fl WRITABLE then Inr () else Inl NotWritable)"

definition validate_with ::
  "(u64 \<Rightarrow> user_ptr_error + unit) \<Rightarrow> u64 \<Rightarrow> u64 \<Rightarrow> (user_ptr_error + user_slice) option" where
  "validate_with chk ptr len =
     (if ptr = 0 then Some (Inl BadAddress)
      else if len = 0 then Some (Inr Empty)
      else (case checked_add ptr len of
              None \<Rightarrow> Some (Inl BadAddress)
            | Some end_addr \<Rightarrow>
                if USER_MAX < end_addr then Some (Inl BadAddress)
                else do {
                  let first_page = ptr AND NOT 0xFFF;
                  e1 \<leftarrow> checked_sub end_addr 1;
                  let last_page = e1 AND NOT 0xFFF;
                  r \<leftarrow> check_pages chk first_page last_page;
                  Some (case r of Inl e \<Rightarrow> Inl e | Inr _ \<Rightarrow> Inr (Raw ptr len))
                }))"

definition validate_user_slice :: "vm \<Rightarrow> u64 \<Rightarrow> u64 \<Rightarrow> (user_ptr_error + user_slice) option" where
  "validate_user_slice aspace ptr len = validate_with (check_mapped aspace) ptr len"

definition validate_user_slice_mut :: "vm \<Rightarrow> u64 \<Rightarrow> u64 \<Rightarrow> (user_ptr_error + user_slice) option" where
  "validate_user_slice_mut aspace ptr len = validate_with (check_writable aspace) ptr len"

section \<open>The page loop\<close>

definition page_addr :: "nat \<Rightarrow> u64" where
  "page_addr k = of_nat (4096 * k)"

lemma unat_page: "i < 2 ^ 52 \<Longrightarrow> unat (page_addr i) = 4096 * i"
  unfolding page_addr_def by (rule unat_of_nat_small) simp

lemma page_addr_unat: "page_addr (unat a div 4096) = a AND NOT 0xFFF"
proof -
  have "unat a div 4096 < 2 ^ 52" using unsigned_less [of a, where 'a = nat] by (simp add: div_less_iff_less_mult)
  then have "unat (page_addr (unat a div 4096)) = 4096 * (unat a div 4096)" by (rule unat_page)
  also have "\<dots> = unat (a AND NOT (mask 12))"
    by (simp only: unat_and_not_mask) (simp add: minus_mod_eq_mult_div)
  finally show ?thesis by (simp only: word_unat_eq_iff mask_consts)
qed

lemmas page_base = page_addr_unat [symmetric, simplified]

lemma check_pages_spec:
  assumes "j < 2 ^ 35"
  shows "i \<le> j + 1 \<Longrightarrow> \<exists>r. check_pages chk (page_addr i) (page_addr j) = Some r \<and>
    (case r of Inr _ \<Rightarrow> \<forall>k \<in> {i..j}. chk (page_addr k) = Inr ()
     | Inl e \<Rightarrow> \<exists>k \<in> {i..j}. chk (page_addr k) = Inl e)"
proof (induction "j + 1 - i" arbitrary: i)
  case 0
  then have "i = j + 1" by simp
  have "unat (page_addr i) = 4096 * i" "unat (page_addr j) = 4096 * j"
    using unat_page [of i] unat_page [of j] assms 0 by simp_all
  then have "\<not> (page_addr i) \<le> page_addr j" using \<open>i = j + 1\<close> unfolding word_le_nat_alt by simp
  then show ?case using \<open>i = j + 1\<close> by (subst check_pages.simps) (simp only: if_False, auto)
next
  case (Suc n)
  then have ij: "i \<le> j" by simp
  let ?p = "page_addr i" and ?l = "page_addr j"
  have u: "unat ?p = 4096 * i" "unat ?l = 4096 * j" using assms ij by (auto intro!: unat_page)
  have le: "?p \<le> ?l" unfolding word_le_nat_alt u using ij by simp
  have nx: "checked_add ?p 0x1000 = Some (page_addr (Suc i))"
  proof -
    have "unat ?p + unat (0x1000 :: u64) < 2 ^ 64" unfolding u(1) using assms ij by simp
    moreover have "?p + 0x1000 = page_addr (Suc i)" by (simp add: page_addr_def)
    ultimately show ?thesis by (simp add: checked_add_def)
  qed
  have IH: "\<exists>r. check_pages chk (page_addr (Suc i)) ?l = Some r \<and>
      (case r of Inr _ \<Rightarrow> \<forall>k \<in> {Suc i..j}. chk (page_addr k) = Inr ()
       | Inl e \<Rightarrow> \<exists>k \<in> {Suc i..j}. chk (page_addr k) = Inl e)"
    by (rule Suc.hyps(1)) (use Suc.hyps(2) ij in auto)
  have sp: "{i..j} = insert i {Suc i..j}" using ij by auto
  show ?case
  proof (cases "chk ?p")
    case (Inl e)
    then show ?thesis unfolding check_pages.simps [of chk ?p ?l] sp using le by simp
  next
    case (Inr x)
    then have "check_pages chk ?p ?l = check_pages chk (page_addr (Suc i)) ?l"
      unfolding check_pages.simps [of chk ?p ?l] nx using le by (simp only: if_True sum.case option.case)
    then show ?thesis using IH Inr unfolding sp by (auto split: sum.splits)
  qed
qed

text \<open>Addresses and pages of a range.\<close>

lemma range_pages:
  fixes P :: "nat \<Rightarrow> bool"
  assumes "0 < n"
  shows "(\<forall>k \<in> {x div 4096 .. (x + n - 1) div 4096}. P k) \<longleftrightarrow> (\<forall>b. x \<le> b \<and> b < x + n \<longrightarrow> P (b div 4096))"
proof (intro iffI allI impI ballI)
  fix b assume *: "\<forall>k \<in> {x div 4096 .. (x + n - 1) div 4096}. P k" "x \<le> b \<and> b < x + n"
  then have "x div 4096 \<le> b div 4096" "b div 4096 \<le> (x + n - 1) div 4096" by (auto intro!: div_le_mono)
  with *(1) show "P (b div 4096)" by auto
next
  fix k assume *: "\<forall>b. x \<le> b \<and> b < x + n \<longrightarrow> P (b div 4096)" "k \<in> {x div 4096 .. (x + n - 1) div 4096}"
  let ?b = "max x (4096 * k)"
  have "4096 * k \<le> x + n - 1" using *(2) mult_le_mono2 [of k "(x + n - 1) div 4096" 4096] times_div_less_eq_dividend
    by (meson atLeastAtMost_iff le_trans)
  moreover have "?b div 4096 = k" using *(2) by (simp add: max_div_nat max_absorb2)
  ultimately show "P k" using *(1) [rule_format, of ?b] assms by simp
qed

lemma validate_with_spec:
  "\<exists>r. validate_with chk ptr len = Some r \<and>
    (if ptr = 0 then r = Inl BadAddress
     else if len = 0 then r = Inr Empty
     else if 2 ^ 47 < unat ptr + unat len then r = Inl BadAddress
     else (case r of
         Inr s \<Rightarrow> s = Raw ptr len \<and> (\<forall>b. unat ptr \<le> b \<and> b < unat ptr + unat len \<longrightarrow> chk (page_addr (b div 4096)) = Inr ())
       | Inl e \<Rightarrow> \<exists>b. unat ptr \<le> b \<and> b < unat ptr + unat len \<and> chk (page_addr (b div 4096)) = Inl e))"
proof (cases "ptr = 0 \<or> len = 0 \<or> 2 ^ 47 < unat ptr + unat len")
  case True
  have "unat USER_MAX = 2 ^ 47" by (simp add: USER_MAX_def)
  then show ?thesis using True
    by (auto simp: validate_with_def checked_add_def word_less_nat_alt unat_add_no_wrap)
next
  case False
  let ?x = "unat ptr" and ?n = "unat len"
  have nz: "0 < ?n" "0 < ?x" using False by (auto simp: unat_gt_0)
  have lim: "?x + ?n \<le> 2 ^ 47" using False by simp
  have add: "checked_add ptr len = Some (ptr + len)" using lim by (simp add: checked_add_def)
  have ue: "unat (ptr + len) = ?x + ?n" using lim by (intro unat_add_no_wrap) simp
  have nm: "\<not> USER_MAX < ptr + len" unfolding word_less_nat_alt ue using lim by (simp add: USER_MAX_def)
  have sub: "checked_sub (ptr + len) 1 = Some (ptr + len - 1)" using ue nz by (simp add: checked_sub_def word_le_nat_alt)
  have u1: "unat (ptr + len - 1) = ?x + ?n - 1" using checked_sub_unat [OF sub] ue by simp
  let ?i = "?x div 4096" and ?j = "(?x + ?n - 1) div 4096"
  have "?j < 2 ^ 35" using lim nz by (simp add: div_less_iff_less_mult)
  moreover have "?i \<le> ?j + 1" using nz by (intro le_SucI [unfolded Suc_eq_plus1] div_le_mono) simp
  ultimately obtain r where r: "check_pages chk (page_addr ?i) (page_addr ?j) = Some r"
    "case r of Inr _ \<Rightarrow> \<forall>k \<in> {?i..?j}. chk (page_addr k) = Inr ()
      | Inl e \<Rightarrow> \<exists>k \<in> {?i..?j}. chk (page_addr k) = Inl e"
    using check_pages_spec by blast
  have v: "validate_with chk ptr len = Some (case r of Inl e \<Rightarrow> Inl e | Inr _ \<Rightarrow> Inr (Raw ptr len))"
    using False nm r(1) by (simp add: validate_with_def add sub page_base u1 Let_def)
  show ?thesis
  proof (cases r)
    case (Inr u)
    then show ?thesis using v r(2) False range_pages [OF nz(1), of ?x "\<lambda>k. chk (page_addr k) = Inr ()"] by simp
  next
    case (Inl e)
    then show ?thesis using v r(2) False range_pages [OF nz(1), of ?x "\<lambda>k. chk (page_addr k) \<noteq> Inl e"] by auto
  qed
qed

section \<open>Lookups depend on the page only\<close>

lemma drop_bit_page: "12 \<le> n \<Longrightarrow> drop_bit n (a AND NOT (mask 12)) = drop_bit n (a :: u64)"
  by (rule bit_word_eqI) (auto simp: bit_simps dest: bit_imp_le_length)

lemma page_indices:
  "pml4_index (a AND NOT (mask 12)) = pml4_index a" "pdpt_index (a AND NOT (mask 12)) = pdpt_index a"
  "pd_index (a AND NOT (mask 12)) = pd_index a" "pt_index (a AND NOT (mask 12)) = pt_index a"
  by (simp_all only: pml4_index_def pdpt_index_def pd_index_def pt_index_def drop_bit_page)

lemma translate_page: "translate v (a AND NOT 0xFFF) = None \<longleftrightarrow> translate v a = None"
  unfolding mask_consts translate_view page_view_def view_def view_entry_def page_indices
  by (simp split: option.split)

lemma translate_flags_page: "translate_flags v (a AND NOT 0xFFF) = translate_flags v a"
  unfolding mask_consts translate_flags_def page_indices by (rule refl)

lemma byte_page:
  assumes "unat ptr + unat len \<le> 2 ^ 47" and "unat ptr \<le> b" and "b < unat ptr + unat len"
  shows "page_addr (b div 4096) = of_nat b AND NOT 0xFFF"
proof -
  have "unat (of_nat b :: u64) = b" using assms by (intro unat_of_nat_small) simp
  then show ?thesis using page_addr_unat [of "of_nat b"] by simp
qed

lemma check_mapped_page: "check_mapped v (a AND NOT 0xFFF) = (if translate v a = None then Inl NotMapped else Inr ())"
  using translate_page [of v a] by (auto simp: check_mapped_def split: option.splits)

lemma check_writable_page:
  "check_writable v (a AND NOT 0xFFF) = (case translate_flags v a of None \<Rightarrow> Inl NotMapped
     | Some fl \<Rightarrow> if contains fl WRITABLE then Inr () else Inl NotWritable)"
  by (simp only: check_writable_def translate_flags_page)

text \<open>The outcome for one byte decides the outcome for the range.\<close>

lemma validate_cases:
  assumes chk: "\<And>a. chk (a AND NOT 0xFFF) = chk' a"
  obtains (null) "ptr = 0" "validate_with chk ptr len = Some (Inl BadAddress)"
  | (empty) "ptr \<noteq> 0" "len = 0" "validate_with chk ptr len = Some (Inr Empty)"
  | (range) "ptr \<noteq> 0" "len \<noteq> 0" "2 ^ 47 < unat ptr + unat len" "validate_with chk ptr len = Some (Inl BadAddress)"
  | (ok) "ptr \<noteq> 0" "len \<noteq> 0" "unat ptr + unat len \<le> 2 ^ 47" "validate_with chk ptr len = Some (Inr (Raw ptr len))"
      "\<forall>b. unat ptr \<le> b \<and> b < unat ptr + unat len \<longrightarrow> chk' (of_nat b) = Inr ()"
  | (bad) e b where "ptr \<noteq> 0" "len \<noteq> 0" "unat ptr + unat len \<le> 2 ^ 47" "validate_with chk ptr len = Some (Inl e)"
      "unat ptr \<le> b" "b < unat ptr + unat len" "chk' (of_nat b) = Inl e"
proof -
  have pg: "chk (page_addr (b div 4096)) = chk' (of_nat b)"
    if "unat ptr + unat len \<le> 2 ^ 47" "unat ptr \<le> b" "b < unat ptr + unat len" for b
    using byte_page [OF that] chk [of "of_nat b"] by (simp only:)
  obtain r where r: "validate_with chk ptr len = Some r" and
    R: "if ptr = 0 then r = Inl BadAddress
     else if len = 0 then r = Inr Empty
     else if 2 ^ 47 < unat ptr + unat len then r = Inl BadAddress
     else (case r of
         Inr s \<Rightarrow> s = Raw ptr len \<and> (\<forall>b. unat ptr \<le> b \<and> b < unat ptr + unat len \<longrightarrow> chk (page_addr (b div 4096)) = Inr ())
       | Inl e \<Rightarrow> \<exists>b. unat ptr \<le> b \<and> b < unat ptr + unat len \<and> chk (page_addr (b div 4096)) = Inl e)"
    using validate_with_spec [of chk ptr len] by blast
  consider "ptr = 0" | "ptr \<noteq> 0" "len = 0" | "ptr \<noteq> 0" "len \<noteq> 0" "2 ^ 47 < unat ptr + unat len"
    | "ptr \<noteq> 0" "len \<noteq> 0" "unat ptr + unat len \<le> 2 ^ 47" by linarith
  then show ?thesis
  proof cases
    case 4
    show ?thesis
    proof (cases r)
      case (Inl e)
      then obtain b where "unat ptr \<le> b" "b < unat ptr + unat len" "chk (page_addr (b div 4096)) = Inl e"
        using R 4 by auto
      then show ?thesis using bad [of e b] 4 r Inl pg by simp
    next
      case (Inr s)
      then show ?thesis using ok 4 r R pg by auto
    qed
  qed (use R r null empty range in auto)
qed

lemma validate_user_slice_eq:
  "validate_user_slice v ptr len = Some
    (if ptr = 0 then Inl BadAddress
     else if len = 0 then Inr Empty
     else if 2 ^ 47 < unat ptr + unat len then Inl BadAddress
     else if \<exists>b. unat ptr \<le> b \<and> b < unat ptr + unat len \<and> translate v (of_nat b) = None then Inl NotMapped
     else Inr (Raw ptr len))"
  by (rule validate_cases [of "check_mapped v", OF check_mapped_page, of ptr len])
     (auto simp: validate_user_slice_def split: if_splits)

section \<open>Properties\<close>

text \<open> C11: \<^verbatim>\<open>validate_user_slice\<close> returns for every pointer and length, without overflow or panic. It refuses
  null, wrapping ranges and ranges that leave the lower \<open>2 ^ 47\<close> bytes with \<^verbatim>\<open>BadAddress\<close>; otherwise it hands out
  the slice exactly when every single byte of the range is mapped and answers \<^verbatim>\<open>NotMapped\<close> when one is not.\<close>

theorem validate_user_slice_correct:
  "validate_user_slice v ptr len = Some
    (if ptr = 0 then Inl BadAddress
     else if len = 0 then Inr Empty
     else if 2 ^ 47 < unat ptr + unat len then Inl BadAddress
     else if \<exists>b. unat ptr \<le> b \<and> b < unat ptr + unat len \<and> translate v (of_nat b) = None then Inl NotMapped
     else Inr (Raw ptr len))"
  by (rule validate_user_slice_eq)

text \<open>\<^verbatim>\<open>validate_user_slice_mut\<close> hands out a slice of positive length only when every byte of it lies in the
  lower half, is mapped and carries the writable bit; an error other than \<^verbatim>\<open>BadAddress\<close> names a byte that is not
  mapped or not writable. It returns for every pointer and length.\<close>

lemma validate_user_slice_mut_correct:
  "\<exists>r. validate_user_slice_mut v ptr len = Some r \<and>
    (case r of
       Inr Empty \<Rightarrow> ptr \<noteq> 0 \<and> len = 0
     | Inr (Raw p n) \<Rightarrow> p = ptr \<and> n = len \<and> len \<noteq> 0 \<and> ptr \<noteq> 0 \<and> unat ptr + unat len \<le> 2 ^ 47
         \<and> (\<forall>b. unat ptr \<le> b \<and> b < unat ptr + unat len \<longrightarrow>
              (\<exists>fl. translate_flags v (of_nat b) = Some fl \<and> contains fl WRITABLE))
     | Inl BadAddress \<Rightarrow> ptr = 0 \<or> 2 ^ 47 < unat ptr + unat len
     | Inl NotMapped \<Rightarrow> \<exists>b. unat ptr \<le> b \<and> b < unat ptr + unat len \<and> translate_flags v (of_nat b) = None
     | Inl NotWritable \<Rightarrow> \<exists>b fl. unat ptr \<le> b \<and> b < unat ptr + unat len
         \<and> translate_flags v (of_nat b) = Some fl \<and> \<not> contains fl WRITABLE
     | Inl OverflowDetected \<Rightarrow> False)"
  by (rule validate_cases [of "check_writable v", OF check_writable_page, of ptr len])
     (auto simp: validate_user_slice_mut_def split: if_splits option.splits user_ptr_error.splits)

lemma demo_byte_unmapped: "translate_flags demo_mapped (of_nat 0x405000) = None"
  by (simp add: translate_flags_def descend_child get_table_def demo_mapped_def demo_vm_def active_pml4_def
      demo_tables_def pml4_index_def pdpt_index_def pd_index_def pt_index_def contains_flag_bits flags_def
      from_bits_truncate_def all_flags_eq FRAME_MASK_def)

end
