(* ===== verification/Vfs.thy ===== *)
theory Vfs
  imports Prelude
begin

text \<open>
  The virtual file system layer (\<^verbatim>\<open>hammam/src/vfs/mod.rs\<close>): path normalisation, the mount table with its
  longest-prefix search, and path resolution through the \<^verbatim>\<open>Vnode\<close> interface. A string is the list of its
  UTF-8 bytes; the only character the code looks for, the slash, never occurs inside a multi-byte sequence.
\<close>

section \<open>Types\<close>

datatype file_kind = Regular | Directory | SymLink

record file_stat =
  st_size :: u64
  st_kind :: file_kind

datatype io_error = NotFound | NotADirectory | NotAFile | PermissionDenied | InvalidOffset | Io

fun io_error_message :: "io_error \<Rightarrow> string" where
  "io_error_message NotFound = ''File not found''"
| "io_error_message NotADirectory = ''Not a directory''"
| "io_error_message NotAFile = ''Not a file''"
| "io_error_message PermissionDenied = ''Permission denied''"
| "io_error_message InvalidOffset = ''Invalid offset''"
| "io_error_message Io = ''I/O error''"

text \<open>
  The \<^verbatim>\<open>Vnode\<close> trait: its methods as functions of the node. \<^verbatim>\<open>read\<close> answers the bytes it stores at the start of the
  buffer, whose length is its last argument.
\<close>

record 'v vnode_ops =
  vn_read :: "'v \<Rightarrow> u64 \<Rightarrow> nat \<Rightarrow> (io_error + u8 list) option"
  vn_write :: "'v \<Rightarrow> u64 \<Rightarrow> u8 list \<Rightarrow> io_error + usize"
  vn_stat :: "'v \<Rightarrow> io_error + file_stat"
  vn_lookup :: "'v \<Rightarrow> string \<Rightarrow> io_error + 'v"
  vn_readdir :: "'v \<Rightarrow> io_error + string list"

record 'v vfs_mount =
  mountpoint :: string
  mount_root :: 'v

type_synonym 'v vfs_tree = "'v vfs_mount list"

definition slash :: char where
  "slash = CHR ''/''"

section \<open>Path normalisation\<close>

fun norm_loop :: "string \<Rightarrow> bool \<Rightarrow> string \<Rightarrow> string" where
  "norm_loop normalized prev_was_slash [] = normalized"
| "norm_loop normalized prev_was_slash (ch # rest) =
     (if ch = slash then
        norm_loop (if \<not> prev_was_slash \<or> normalized = [] then normalized @ [ch] else normalized) True rest
      else norm_loop (normalized @ [ch]) False rest)"

definition pop_trailing :: "string \<Rightarrow> string" where
  "pop_trailing s = (if 1 < length s \<and> last s = slash then butlast s else s)"

definition normalize_path :: "string \<Rightarrow> string" where
  "normalize_path path =
     (let n = pop_trailing (norm_loop [] False path)
      in if n = [] then [slash] else if hd n \<noteq> slash then slash # n else n)"

text \<open>\<^verbatim>\<open>str::split\<close> at slashes.\<close>

fun split_slash :: "string \<Rightarrow> string list" where
  "split_slash [] = [[]]"
| "split_slash (c # cs) =
     (if c = slash then [] # split_slash cs
      else (case split_slash cs of [] \<Rightarrow> [[c]] | s # ss \<Rightarrow> (c # s) # ss))"

definition starts_with :: "string \<Rightarrow> string \<Rightarrow> bool" where
  "starts_with s p \<longleftrightarrow> take (length p) s = p"

section \<open>The mount table\<close>

definition tree_new :: "'v vfs_tree" where
  "tree_new = []"

definition mount :: "'v vfs_tree \<Rightarrow> string \<Rightarrow> 'v \<Rightarrow> 'v vfs_tree" where
  "mount t path r = t @ [\<lparr>mountpoint = path, mount_root = r\<rparr>]"

fun find_mount_loop :: "string \<Rightarrow> 'v vfs_mount list \<Rightarrow> 'v vfs_mount option \<Rightarrow> nat \<Rightarrow> 'v vfs_mount option" where
  "find_mount_loop path [] best_match best_len = best_match"
| "find_mount_loop path (m # ms) best_match best_len =
     (if starts_with path (mountpoint m) \<and> best_len < length (mountpoint m)
      then find_mount_loop path ms (Some m) (length (mountpoint m))
      else find_mount_loop path ms best_match best_len)"

definition find_mount_point :: "'v vfs_tree \<Rightarrow> string \<Rightarrow> 'v vfs_mount option" where
  "find_mount_point t path = find_mount_loop path t None 0"

fun walk_components :: "('v \<Rightarrow> string \<Rightarrow> io_error + 'v) \<Rightarrow> 'v \<Rightarrow> string list \<Rightarrow> io_error + 'v" where
  "walk_components lookup_child v [] = Inr v"
| "walk_components lookup_child v (c # cs) =
     (if c = [] then walk_components lookup_child v cs
      else (case lookup_child v c of Inl e \<Rightarrow> Inl e | Inr w \<Rightarrow> walk_components lookup_child w cs))"

definition lookup :: "'v vnode_ops \<Rightarrow> 'v vfs_tree \<Rightarrow> string \<Rightarrow> io_error + 'v" where
  "lookup ops t path =
     (let normalized_path = normalize_path path in
      case find_mount_point t normalized_path of
        None \<Rightarrow> Inl NotFound
      | Some m \<Rightarrow>
          let remaining_path = (if mountpoint m = [slash] then drop 1 normalized_path
                                else drop (length (mountpoint m)) normalized_path)
          in if remaining_path = [] \<or> remaining_path = [slash] then Inr (mount_root m)
             else walk_components (vn_lookup ops) (mount_root m) (split_slash remaining_path))"

definition mount_count :: "'v vfs_tree \<Rightarrow> nat" where
  "mount_count t = length t"

definition list_mounts :: "'v vfs_tree \<Rightarrow> string list" where
  "list_mounts t = map mountpoint t"

definition vfs_read :: "'v vnode_ops \<Rightarrow> 'v vfs_tree \<Rightarrow> string \<Rightarrow> u64 \<Rightarrow> nat \<Rightarrow> (io_error + u8 list) option" where
  "vfs_read ops t path offset n =
     (case lookup ops t path of Inl e \<Rightarrow> Some (Inl e) | Inr v \<Rightarrow> vn_read ops v offset n)"

definition vfs_write :: "'v vnode_ops \<Rightarrow> 'v vfs_tree \<Rightarrow> string \<Rightarrow> u64 \<Rightarrow> u8 list \<Rightarrow> io_error + usize" where
  "vfs_write ops t path offset buf =
     (case lookup ops t path of Inl e \<Rightarrow> Inl e | Inr v \<Rightarrow> vn_write ops v offset buf)"

definition vfs_stat :: "'v vnode_ops \<Rightarrow> 'v vfs_tree \<Rightarrow> string \<Rightarrow> io_error + file_stat" where
  "vfs_stat ops t path = (case lookup ops t path of Inl e \<Rightarrow> Inl e | Inr v \<Rightarrow> vn_stat ops v)"

section \<open>Components of a path\<close>

definition components :: "string \<Rightarrow> string list" where
  "components p = filter (\<lambda>c. c \<noteq> []) (split_slash p)"

definition join :: "string list \<Rightarrow> string" where
  "join cs = concat (map (\<lambda>c. slash # c) cs)"

definition good_name :: "string \<Rightarrow> bool" where
  "good_name c \<longleftrightarrow> c \<noteq> [] \<and> slash \<notin> set c"

lemma split_slash_nonempty [simp]: "split_slash p \<noteq> []"
  by (induction p) (auto split: list.split)

lemma split_slash_no_slash: "c \<in> set (split_slash p) \<Longrightarrow> slash \<notin> set c"
  by (induction p arbitrary: c) (auto split: list.splits if_splits)

lemma components_good: "c \<in> set (components p) \<Longrightarrow> good_name c"
  using split_slash_no_slash by (auto simp: components_def good_name_def)

lemma components_Nil [simp]: "components [] = []"
  by (simp add: components_def)

lemma components_slash [simp]: "components (slash # p) = components p"
  by (simp add: components_def)

lemma split_slash_append: "slash \<notin> set c \<Longrightarrow> split_slash (c @ slash # p) = c # split_slash p"
  by (induction c) auto

lemma split_slash_single: "slash \<notin> set c \<Longrightarrow> split_slash c = [c]"
  by (induction c) auto

lemma components_append: "good_name c \<Longrightarrow> components (c @ slash # p) = c # components p"
  by (simp add: components_def split_slash_append good_name_def)

lemma components_single: "good_name c \<Longrightarrow> components c = [c]"
  by (simp add: components_def split_slash_single good_name_def)

lemma join_Cons: "join (c # cs) = slash # c @ join cs"
  by (simp add: join_def)

lemma join_Nil [simp]: "join [] = []"
  by (simp add: join_def)

lemma join_eq_Nil [simp]: "join cs = [] \<longleftrightarrow> cs = []"
  by (cases cs) (auto simp: join_Cons)

lemma components_name_join: "good_name c \<Longrightarrow> components (c @ join cs) = c # components (join cs)"
  by (cases cs) (simp_all add: components_single join_Cons components_append)

lemma components_join: "\<forall>c \<in> set cs. good_name c \<Longrightarrow> components (join cs) = cs"
  by (induction cs) (simp_all add: join_Cons components_name_join)

lemma path_split:
  obtains (name) "slash \<notin> set p" | (more) c q where "slash \<notin> set c" "p = c @ slash # q"
  by (metis split_list_first)

text \<open>What the loop keeps: it drops every slash that follows another.\<close>

fun squeeze :: "bool \<Rightarrow> string \<Rightarrow> string" where
  "squeeze prev [] = []"
| "squeeze prev (c # cs) = (if c = slash then (if prev then [] else [slash]) @ squeeze True cs else c # squeeze False cs)"

lemma norm_loop_squeeze: "(acc = [] \<longrightarrow> \<not> prev) \<Longrightarrow> norm_loop acc prev p = acc @ squeeze prev p"
  by (induction p arbitrary: acc prev) auto

lemma squeeze_name: "slash \<notin> set c \<Longrightarrow> squeeze b (c @ p) = c @ squeeze (if c = [] then b else False) p"
  by (induction c arbitrary: b) auto

lemma squeeze_False: "squeeze False p = (if p \<noteq> [] \<and> hd p = slash then [slash] else []) @ squeeze True p"
  by (cases p) auto

text \<open>After the leading slash, the squeezed path is the joined components and at most one trailing slash.\<close>

lemma squeeze_join:
  "slash # squeeze True p = (if components p = [] then [slash]
     else join (components p) @ (if last p = slash then [slash] else []))"
proof (induction "length p" arbitrary: p rule: less_induct)
  case less
  show ?case
  proof (cases p rule: path_split)
    case name
    then have "squeeze True p = p" using squeeze_name [OF name, of True "[]"] by simp
    moreover have "components p = (if p = [] then [] else [p])"
      using name components_single [of p] by (auto simp: good_name_def)
    moreover have "p \<noteq> [] \<Longrightarrow> last p \<noteq> slash" using name last_in_set by metis
    ultimately show ?thesis by (auto simp: join_Cons)
  next
    case (more c q)
    then have IH: "slash # squeeze True q = (if components q = [] then [slash]
        else join (components q) @ (if last q = slash then [slash] else []))" by (intro less) simp
    have lq: "components q \<noteq> [] \<Longrightarrow> q \<noteq> []" by auto
    have tr: "components q = [] \<Longrightarrow> last (slash # q) = slash"
    proof (cases q rule: rev_cases)
      case (snoc ys y)
      assume e: "components q = []"
      show ?thesis
      proof (rule ccontr)
        assume "last (slash # q) \<noteq> slash"
        then have "y \<noteq> slash" using snoc by simp
        moreover have "split_slash q \<noteq> []" by simp
        ultimately have "\<exists>c \<in> set (split_slash (ys @ [y])). c \<noteq> []"
          by (induction ys) (auto split: list.splits)
        then show False using e snoc by (auto simp: components_def filter_empty_conv)
      qed
    qed simp
    show ?thesis
    proof (cases "c = []")
      case True
      then show ?thesis using IH more lq by auto
    next
      case False
      then have g: "good_name c" using more by (simp add: good_name_def)
      have "squeeze True p = c @ slash # squeeze True q"
        using more False squeeze_name [OF more(1), of True "slash # q"] by simp
      then show ?thesis using IH more g components_append [OF g, of q] tr lq by (auto simp: join_Cons)
    qed
  qed
qed

lemma last_join: "cs \<noteq> [] \<Longrightarrow> \<forall>c \<in> set cs. good_name c \<Longrightarrow> last (join cs) \<noteq> slash"
proof (induction cs)
  case (Cons c cs)
  then show ?case
    by (cases "cs = []") (auto simp: join_Cons good_name_def dest: last_in_set)
qed simp

definition path_of :: "string list \<Rightarrow> string" where
  "path_of cs = (if cs = [] then [slash] else join cs)"

lemma pop_trailing_squeeze:
  "pop_trailing (slash # squeeze True p) = path_of (components p)"
proof (cases "components p = []")
  case True
  then show ?thesis using squeeze_join [of p] by (simp add: path_of_def pop_trailing_def)
next
  case False
  have g: "\<forall>c \<in> set (components p). good_name c" using components_good by blast
  have l: "last (join (components p)) \<noteq> slash" using last_join [OF False g] .
  have n: "join (components p) \<noteq> []" using False by simp
  show ?thesis using False l n squeeze_join [of p] by (auto simp: path_of_def pop_trailing_def neq_Nil_conv)
qed

lemma norm_loop_start: "norm_loop [] False p = (if p \<noteq> [] \<and> hd p = slash then [slash] else []) @ squeeze True p"
  by (simp add: norm_loop_squeeze squeeze_False)

lemma squeeze_relative:
  assumes "p \<noteq> []" and "hd p \<noteq> slash"
  shows "components p \<noteq> []" and "pop_trailing (squeeze True p) = tl (join (components p))"
    and "hd (tl (join (components p))) \<noteq> slash" and "tl (join (components p)) \<noteq> []"
proof -
  show c: "components p \<noteq> []"
  proof (cases p rule: path_split)
    case name
    then show ?thesis using components_single [of p] assms(1) by (auto simp: good_name_def)
  next
    case (more c q)
    then show ?thesis using components_append [of c q] assms(2) by (cases c) (auto simp: good_name_def)
  qed
  obtain c cs where cc: "components p = c # cs" using c by (cases "components p") auto
  have g: "\<forall>c \<in> set (components p). good_name c" using components_good by blast
  then have cg: "c \<noteq> []" "hd c \<noteq> slash" using cc by (auto simp: good_name_def neq_Nil_conv)
  then show "hd (tl (join (components p))) \<noteq> slash" "tl (join (components p)) \<noteq> []" by (auto simp: cc join_Cons)
  have l: "last (join (components p)) \<noteq> slash" using last_join [OF c g] .
  have sq: "squeeze True p = tl (join (components p)) @ (if last p = slash then [slash] else [])"
    using squeeze_join [of p] c by (cases "join (components p)") auto
  have "last (tl (join (components p))) \<noteq> slash"
    using l cg by (simp add: cc join_Cons)
  then show "pop_trailing (squeeze True p) = tl (join (components p))"
    using sq cg by (auto simp: pop_trailing_def cc join_Cons butlast_append)
qed

lemma normalize_path_components: "normalize_path p = path_of (components p)"
proof (cases "p \<noteq> [] \<and> hd p \<noteq> slash")
  case True
  have "slash # tl (join (components p)) = join (components p)"
    using squeeze_relative(1) [of p] True by (cases "components p") (auto simp: join_Cons)
  then show ?thesis using True squeeze_relative [of p]
    by (simp add: normalize_path_def norm_loop_start path_of_def)
next
  case False
  have n: "pop_trailing (norm_loop [] False p) = (if p = [] then [] else path_of (components p))"
    using False pop_trailing_squeeze [of p] by (auto simp: norm_loop_start pop_trailing_def)
  have "path_of (components p) \<noteq> []" "hd (path_of (components p)) = slash"
    by (auto simp: path_of_def join_def neq_Nil_conv)
  then show ?thesis using n by (auto simp: normalize_path_def path_of_def)
qed

lemma components_path_of: "\<forall>c \<in> set cs. good_name c \<Longrightarrow> components (path_of cs) = cs"
  by (simp add: path_of_def components_join)

section \<open>The longest mount point\<close>

definition mount_matches :: "string \<Rightarrow> 'v vfs_mount \<Rightarrow> bool" where
  "mount_matches path m \<longleftrightarrow> starts_with path (mountpoint m)"

lemma find_mount_loop_spec:
  assumes "case b of None \<Rightarrow> n = 0 | Some m \<Rightarrow> n = length (mountpoint m) \<and> 0 < n"
  shows "case find_mount_loop path ms b n of
      None \<Rightarrow> b = None \<and> (\<forall>m \<in> set ms. mount_matches path m \<longrightarrow> mountpoint m = [])
    | Some r \<Rightarrow> n \<le> length (mountpoint r) \<and> 0 < length (mountpoint r) \<and> (b = Some r \<or> r \<in> set ms \<and> mount_matches path r)
        \<and> (\<forall>m \<in> set ms. mount_matches path m \<longrightarrow> length (mountpoint m) \<le> length (mountpoint r))"
  using assms
proof (induction ms arbitrary: b n)
  case Nil
  then show ?case by (cases b) auto
next
  case (Cons m ms)
  show ?case
  proof (cases "starts_with path (mountpoint m) \<and> n < length (mountpoint m)")
    case True
    then have "0 < length (mountpoint m)" by linarith
    then show ?thesis using True Cons.IH [where b = "Some m" and n = "length (mountpoint m)"]
      by (fastforce simp: mount_matches_def split: option.splits)
  next
    case False
    have "mount_matches path m \<Longrightarrow> length (mountpoint m) \<le> n" using False by (simp add: mount_matches_def)
    then show ?thesis using Cons.IH [OF Cons.prems] False Cons.prems by (auto split: option.splits)
  qed
qed

section \<open>Resolution in one file system\<close>

text \<open>
  The contract of a file system tree: the nodes sit at lists of names, and looking up a name in the node
  of a path gives the node of the extended path, or an error if there is none.
\<close>

locale tree_fs =
  fixes lookup_child :: "'fs \<Rightarrow> 'v \<Rightarrow> string \<Rightarrow> io_error + 'v"
    and node :: "'fs \<Rightarrow> string list \<Rightarrow> 'v option"
    and invar :: "'fs \<Rightarrow> bool"
  assumes lookup_node: "invar fs \<Longrightarrow> node fs ps = Some v \<Longrightarrow> good_name c \<Longrightarrow>
      (case node fs (ps @ [c]) of Some w \<Rightarrow> lookup_child fs v c = Inr w | None \<Rightarrow> \<exists>e. lookup_child fs v c = Inl e)"
    and node_parent: "invar fs \<Longrightarrow> node fs (ps @ [c]) \<noteq> None \<Longrightarrow> node fs ps \<noteq> None"
begin

lemma node_prefix: "invar fs \<Longrightarrow> node fs (ps @ cs) \<noteq> None \<Longrightarrow> node fs ps \<noteq> None"
proof (induction cs rule: rev_induct)
  case (snoc c cs)
  then show ?case using node_parent [of fs "ps @ cs" c] by auto
qed simp

lemma walk_node:
  "invar fs \<Longrightarrow> node fs ps = Some v \<Longrightarrow> \<forall>c \<in> set cs. good_name c \<Longrightarrow>
    (case node fs (ps @ cs) of Some w \<Rightarrow> walk_components (lookup_child fs) v cs = Inr w
     | None \<Rightarrow> \<exists>e. walk_components (lookup_child fs) v cs = Inl e)"
proof (induction cs arbitrary: ps v)
  case (Cons c cs)
  have g: "good_name c" "c \<noteq> []" using Cons.prems by (auto simp: good_name_def)
  note L = lookup_node [OF Cons.prems(1,2) g(1)]
  show ?case
  proof (cases "node fs (ps @ [c])")
    case None
    then have "node fs (ps @ c # cs) = None"
      using node_prefix [OF Cons.prems(1), of "ps @ [c]" cs] by (cases "node fs (ps @ c # cs)") simp_all
    then show ?thesis using L None g by auto
  next
    case (Some w)
    then show ?thesis using L g Cons.IH [OF Cons.prems(1) Some] Cons.prems by (auto split: option.splits)
  qed
qed simp

text \<open>Two spellings of a path with the same components lead to the same node.\<close>

lemma walk_path:
  "invar fs \<Longrightarrow> node fs [] = Some r \<Longrightarrow>
    (case node fs (components path) of Some w \<Rightarrow> walk_components (lookup_child fs) r (components path) = Inr w
     | None \<Rightarrow> \<exists>e. walk_components (lookup_child fs) r (components path) = Inl e)"
  using walk_node [of fs "[]" r "components path"] components_good by simp

end

lemma walk_components_filter:
  "walk_components f v cs = walk_components f v (filter (\<lambda>c. c \<noteq> []) cs)"
  by (induction cs arbitrary: v) (auto split: sum.split)

lemma lookup_single_mount:
  "lookup ops [\<lparr>mountpoint = [slash], mount_root = r\<rparr>] path =
     walk_components (vn_lookup ops) r (components path)"
proof -
  let ?m = "\<lparr>mountpoint = [slash], mount_root = r\<rparr>" and ?n = "normalize_path path"
  have h: "?n \<noteq> []" "hd ?n = slash" by (auto simp: normalize_path_components path_of_def join_def neq_Nil_conv)
  then have f: "find_mount_point [?m] ?n = Some ?m"
    by (cases ?n) (auto simp: find_mount_point_def starts_with_def)
  have g: "\<forall>c \<in> set (components path). good_name c" using components_good by blast
  show ?thesis
  proof (cases "components path = []")
    case True
    then have "?n = [slash]" by (simp add: normalize_path_components path_of_def)
    then show ?thesis using f True by (simp add: lookup_def Let_def)
  next
    case False
    then obtain c cs where cc: "components path = c # cs" by (cases "components path") auto
    then have n: "drop 1 ?n = c @ join cs" by (simp add: normalize_path_components path_of_def join_Cons)
    have gc: "good_name c" using g cc by simp
    then have ne: "c @ join cs \<noteq> []" "c @ join cs \<noteq> [slash]" by (auto simp: good_name_def append_eq_Cons_conv)
    have "walk_components (vn_lookup ops) r (split_slash (c @ join cs)) = walk_components (vn_lookup ops) r (components path)"
      unfolding walk_components_filter [of "vn_lookup ops" r "split_slash (c @ join cs)"] components_def [symmetric]
      using components_name_join [OF gc, of cs] components_join [of cs] g cc by simp
    then show ?thesis using f n ne by (auto simp: lookup_def Let_def)
  qed
qed

section \<open>Properties\<close>

text \<open> C14: \<^verbatim>\<open>normalize_path\<close> gives the canonical spelling of a path: a slash in front of each nonempty component, or
  a single slash if there is none. The result keeps the components, normalising it again changes nothing, and two
  paths have the same normal form exactly when they have the same components.\<close>

theorem normalize_path_canonical:
  "normalize_path p = (if components p = [] then ''/'' else concat (map (\<lambda>c. CHR ''/'' # c) (components p)))
   \<and> components (normalize_path p) = components p
   \<and> normalize_path (normalize_path p) = normalize_path p
   \<and> (normalize_path p = normalize_path q \<longleftrightarrow> components p = components q)"
proof -
  have g: "\<forall>c \<in> set (components x). good_name c" for x using components_good by blast
  have c: "components (normalize_path x) = components x" for x
    using components_path_of [OF g] by (simp add: normalize_path_components)
  have "normalize_path p = normalize_path q \<longleftrightarrow> components p = components q"
    using c [of p] c [of q] normalize_path_components by metis
  then show ?thesis using c [of p] normalize_path_components [of p] components_path_of [OF g, of p]
    by (auto simp: normalize_path_components path_of_def join_def slash_def)
qed

text \<open> C15: Mount points are found by longest string prefix. \<^verbatim>\<open>find_mount_point\<close> answers a mount whose mount point is a
  prefix of the path and at least as long as every other such mount point, and answers none only if no nonempty mount
  point is a prefix. With a file system mounted at the root alone, \<^verbatim>\<open>lookup\<close> resolves exactly the components of
  the path one after the other from its root node.\<close>

theorem lookup_longest_mount:
  "(case find_mount_point t path of
      None \<Rightarrow> \<forall>m \<in> set t. starts_with path (mountpoint m) \<longrightarrow> mountpoint m = []
    | Some r \<Rightarrow> r \<in> set t \<and> starts_with path (mountpoint r)
        \<and> (\<forall>m \<in> set t. starts_with path (mountpoint m) \<longrightarrow> length (mountpoint m) \<le> length (mountpoint r)))
   \<and> lookup ops (mount tree_new ''/'' r0) path = walk_components (vn_lookup ops) r0 (components path)"
  using find_mount_loop_spec [where b = None and n = 0 and path = path and ms = t] lookup_single_mount [of ops r0 path]
  by (auto simp: find_mount_point_def mount_matches_def mount_def tree_new_def slash_def split: option.splits)

definition demo_ops :: "nat vnode_ops" where
  "demo_ops = \<lparr>vn_read = (\<lambda>v off n. Some (Inr [])), vn_write = (\<lambda>v off buf. Inl PermissionDenied),
     vn_stat = (\<lambda>v. Inr \<lparr>st_size = 0, st_kind = Directory\<rparr>), vn_lookup = (\<lambda>v c. Inr (10 * v + length c)),
     vn_readdir = (\<lambda>v. Inr [])\<rparr>"

definition demo_mounts :: "nat vfs_tree" where
  "demo_mounts = mount (mount tree_new ''/'' 1) ''/home'' 2"

theorem lookup_longest_mount_witness:
  "find_mount_point demo_mounts ''/home/a'' = Some \<lparr>mountpoint = ''/home'', mount_root = 2\<rparr>
   \<and> length ''/'' \<le> length ''/home'' \<and> lookup demo_ops (mount tree_new ''/'' 5) ''/home/a'' = Inr 541"
proof -
  have f: "find_mount_point demo_mounts ''/home/a'' = Some \<lparr>mountpoint = ''/home'', mount_root = 2\<rparr>"
    by (simp add: demo_mounts_def mount_def tree_new_def find_mount_point_def starts_with_def)
  show ?thesis using lookup_longest_mount [of demo_mounts "''/home/a''" demo_ops 5] f
    by (simp add: components_def slash_def demo_ops_def)
qed

text \<open>A path below another mount's name is sent to the wrong file system: the prefix need not end at a slash.\<close>

lemma mount_prefix_not_component:
  "lookup ops [\<lparr>mountpoint = ''/'', mount_root = r\<rparr>, \<lparr>mountpoint = ''/home'', mount_root = h\<rparr>] ''/homework''
     = (case vn_lookup ops h ''work'' of Inl e \<Rightarrow> Inl e | Inr v \<Rightarrow> Inr v)"
  by (simp add: lookup_def find_mount_point_def starts_with_def slash_def normalize_path_def pop_trailing_def
      split: sum.split)

end
