(* ===== verification/Initramfs.thy ===== *)
theory Initramfs
  imports Vfs Btree "HOL-Library.List_Lexorder" "HOL-Library.Char_ord"
begin

text \<open>
  The initial RAM file system (\<^verbatim>\<open>hammam/src/vfs/initramfs.rs\<close>): the parser of CPIO newc archives, the directory
  structure computed from the path names, and the \<^verbatim>\<open>Vnode\<close> operations; and the archive writer of
  \<^verbatim>\<open>hammam/src/userspace_blob.rs\<close> that produces the archive the kernel boots from. Positions in the archive are
  natural numbers: an archive is shorter than \<open>2 ^ 63\<close> bytes and the sizes added to a position fit 32 bits,
  so that no \<^verbatim>\<open>usize\<close> sum of the parser wraps.
\<close>

section \<open>Text\<close>

text \<open>\<^verbatim>\<open>str::from_utf8\<close>: well-formed UTF-8 (no overlong forms, no surrogates, at most U+10FFFF).\<close>

abbreviation cont :: "nat \<Rightarrow> bool" where
  "cont b \<equiv> 0x80 \<le> b \<and> b \<le> 0xBF"

fun utf8_valid :: "nat list \<Rightarrow> bool" where
  "utf8_valid [] \<longleftrightarrow> True"
| "utf8_valid (a # bs) \<longleftrightarrow>
     (if a < 0x80 then utf8_valid bs
      else if 0xC2 \<le> a \<and> a \<le> 0xDF then (case bs of b # r \<Rightarrow> cont b \<and> utf8_valid r | _ \<Rightarrow> False)
      else if 0xE0 \<le> a \<and> a \<le> 0xEF then
        (case bs of b # c # r \<Rightarrow>
           cont b \<and> cont c \<and> (a = 0xE0 \<longrightarrow> 0xA0 \<le> b) \<and> (a = 0xED \<longrightarrow> b \<le> 0x9F) \<and> utf8_valid r | _ \<Rightarrow> False)
      else if 0xF0 \<le> a \<and> a \<le> 0xF4 then
        (case bs of b # c # d # r \<Rightarrow>
           cont b \<and> cont c \<and> cont d \<and> (a = 0xF0 \<longrightarrow> 0x90 \<le> b) \<and> (a = 0xF4 \<longrightarrow> b \<le> 0x8F) \<and> utf8_valid r | _ \<Rightarrow> False)
      else False)"

definition to_str :: "u8 list \<Rightarrow> string" where
  "to_str bs = map (\<lambda>b. char_of (unat b)) bs"

definition from_utf8 :: "u8 list \<Rightarrow> string option" where
  "from_utf8 bs = (if utf8_valid (map unat bs) then Some (to_str bs) else None)"

definition to_digit :: "char \<Rightarrow> nat option" where
  "to_digit c = (let n = of_char c :: nat in
     if 48 \<le> n \<and> n \<le> 57 then Some (n - 48)
     else if 97 \<le> n \<and> n \<le> 102 then Some (n - 87)
     else if 65 \<le> n \<and> n \<le> 70 then Some (n - 55)
     else None)"

fun parse_digits :: "nat \<Rightarrow> string \<Rightarrow> nat option" where
  "parse_digits acc [] = Some acc"
| "parse_digits acc (c # cs) =
     (case to_digit c of None \<Rightarrow> None
      | Some d \<Rightarrow> if acc * 16 + d < 2 ^ 32 then parse_digits (acc * 16 + d) cs else None)"

text \<open>\<^verbatim>\<open>u32::from_str_radix(s, 16)\<close>\<close>

definition from_str_radix :: "string \<Rightarrow> nat option" where
  "from_str_radix s =
     (case s of [] \<Rightarrow> None
      | c # cs \<Rightarrow> if c = CHR ''+'' then (if cs = [] then None else parse_digits 0 cs) else parse_digits 0 s)"

definition hex8 :: "u8 list \<Rightarrow> nat" where
  "hex8 b = (let s = (case from_utf8 b of None \<Rightarrow> ''0'' | Some s \<Rightarrow> s)
             in case from_str_radix s of None \<Rightarrow> 0 | Some n \<Rightarrow> n)"

definition align4 :: "nat \<Rightarrow> nat" where
  "align4 x = (x + 3) div 4 * 4"

section \<open>The parser\<close>

record init_entry =
  kind :: file_kind
  data :: "u8 list"
  children :: "string list"

type_synonym entry_map = "(string \<times> init_entry) list"

record initramfs_fs =
  fs_root :: init_entry
  all_entries :: entry_map

text \<open>A slice expression, which panics when its range is not inside the bytes.\<close>

definition slice :: "u8 list \<Rightarrow> nat \<Rightarrow> nat \<Rightarrow> u8 list option" where
  "slice bs a b = (if a \<le> b \<and> b \<le> length bs then Some (take (b - a) (drop a bs)) else None)"

definition bytes :: "string \<Rightarrow> u8 list" where
  "bytes s = map (\<lambda>c. of_nat (of_char c)) s"

lemma length_bytes [simp]: "length (bytes s) = length s"
  by (simp add: bytes_def)

definition dir_entry :: init_entry where
  "dir_entry = \<lparr>kind = Directory, data = [], children = []\<rparr>"

function parse_loop :: "u8 list \<Rightarrow> nat \<Rightarrow> entry_map \<Rightarrow> entry_map option" where
  "parse_loop dat pos entries =
     (if length dat < pos + 110 then Some entries
      else do {
        magic \<leftarrow> slice dat pos (pos + 6);
        if magic \<noteq> bytes ''070701'' then Some entries
        else do {
          nb \<leftarrow> slice dat (pos + 94) (pos + 102);
          fb \<leftarrow> slice dat (pos + 54) (pos + 62);
          mb \<leftarrow> slice dat (pos + 14) (pos + 22);
          let namesize = hex8 nb;
          let filesize = hex8 fb;
          let mode = hex8 mb;
          let name_start = pos + 110;
          if length dat < name_start + namesize then Some entries
          else do {
            name_bytes \<leftarrow> (if namesize = 0 then None else slice dat name_start (name_start + namesize - 1));
            let name = (case from_utf8 name_bytes of None \<Rightarrow> [] | Some s \<Rightarrow> s);
            if name = ''TRAILER!!!'' then Some entries
            else let data_start = align4 (name_start + namesize);
                     data_end = data_start + filesize
                 in if length dat < data_end then Some entries
                    else do {
                      content \<leftarrow> slice dat data_start data_end;
                      let k = (if (of_nat mode AND 0xF000 :: u32) = 0x4000 then Directory else Regular);
                      parse_loop dat (align4 data_end)
                        (bt_insert entries name \<lparr>kind = k, data = content, children = []\<rparr>)
                    }
          }
        }
      })"
  by pat_completeness auto
termination
  by (relation "measure (\<lambda>(dat, pos, _). length dat - pos)") (auto simp: align4_def)

declare parse_loop.simps [simp del]

definition add_dir :: "entry_map \<times> string \<Rightarrow> string \<Rightarrow> entry_map \<times> string" where
  "add_dir st component = (case st of (entries, current) \<Rightarrow>
     if component = [] then (entries, current)
     else let current' = current @ [slash] @ component
          in (if bt_contains_key entries current' then entries else bt_insert entries current' dir_entry, current'))"

definition create_dirs_of :: "string \<Rightarrow> entry_map \<Rightarrow> entry_map" where
  "create_dirs_of path entries =
     (if path = ''/'' \<or> path = ''TRAILER!!!'' then entries
      else fst (foldl add_dir (entries, []) (drop 1 (split_slash path))))"

definition create_parent_dirs :: "entry_map \<Rightarrow> entry_map" where
  "create_parent_dirs entries = fold create_dirs_of (map fst entries) entries"

text \<open>The slices of the two name functions start at most one byte after a prefix that has been tested.\<close>

definition is_child_of :: "string \<Rightarrow> string \<Rightarrow> bool" where
  "is_child_of path parent_path =
     (if parent_path = ''/'' then starts_with path [slash] \<and> slash \<notin> set (drop 1 path)
      else if \<not> starts_with path parent_path then False
      else if length path \<le> length parent_path then False
      else count_list (drop (length parent_path) path) slash = 1
           \<and> starts_with (drop (length parent_path) path) [slash])"

definition get_relative_name :: "string \<Rightarrow> string \<Rightarrow> string" where
  "get_relative_name path parent_path =
     (if parent_path = ''/'' then drop 1 path
      else if starts_with path parent_path \<and> length parent_path < length path then
        (let relative = drop (length parent_path + 1) path
         in if slash \<notin> set relative then relative else [])
      else [])"

definition compute_children :: "entry_map \<Rightarrow> string \<Rightarrow> string list" where
  "compute_children entries parent_path =
     concat (map (\<lambda>key. if is_child_of key parent_path
                          then (let relative = get_relative_name key parent_path
                                in if relative \<noteq> [] then [relative] else [])
                          else []) (map fst entries))"

definition set_children :: "string \<times> string list \<Rightarrow> entry_map \<Rightarrow> entry_map" where
  "set_children pc entries =
     map (\<lambda>(q, e). if q = fst pc then (q, e\<lparr>children := snd pc\<rparr>) else (q, e)) entries"

definition build_fs :: "entry_map \<Rightarrow> initramfs_fs" where
  "build_fs parsed =
     (let entries = create_parent_dirs parsed;
          dir_children = map (\<lambda>(p, e). (p, compute_children entries p)) (filter (\<lambda>(p, e). kind e = Directory) entries);
          entries2 = fold set_children dir_children entries
      in \<lparr>fs_root = \<lparr>kind = Directory, data = [],
            children = (case bt_get entries2 ''/'' of None \<Rightarrow> [] | Some e \<Rightarrow> children e)\<rparr>,
          all_entries = entries2\<rparr>)"

definition parse :: "u8 list \<Rightarrow> initramfs_fs option" where
  "parse dat =
     do {
       entries \<leftarrow> parse_loop dat 0 (bt_insert [] ''/'' dir_entry);
       Some (build_fs entries)
     }"

section \<open>Nodes\<close>

fun init_norm_loop :: "string \<Rightarrow> bool \<Rightarrow> string \<Rightarrow> string" where
  "init_norm_loop normalized prev_was_slash [] = normalized"
| "init_norm_loop normalized prev_was_slash (ch # rest) =
     (if ch = slash then
        init_norm_loop (if \<not> prev_was_slash then normalized @ [ch] else normalized) True rest
      else init_norm_loop (normalized @ [ch]) False rest)"

definition init_normalize_path :: "string \<Rightarrow> string" where
  "init_normalize_path path =
     (let n = init_norm_loop [] False path in pop_trailing (if n = [] then [slash] else n))"

record init_vnode =
  vn_entry :: init_entry
  vn_path :: string

definition lookup_path :: "initramfs_fs \<Rightarrow> string \<Rightarrow> io_error + init_vnode" where
  "lookup_path fs path =
     (let normalized = init_normalize_path path in
      if normalized = ''/'' then Inr \<lparr>vn_entry = fs_root fs, vn_path = ''/''\<rparr>
      else (case bt_get (all_entries fs) normalized of
              Some e \<Rightarrow> Inr \<lparr>vn_entry = e, vn_path = normalized\<rparr>
            | None \<Rightarrow> Inl NotFound))"

definition init_read :: "init_vnode \<Rightarrow> u64 \<Rightarrow> nat \<Rightarrow> (io_error + u8 list) option" where
  "init_read v offset buf_len =
     (if kind (vn_entry v) \<noteq> Regular then Some (Inl NotAFile)
      else if length (data (vn_entry v)) < unat offset then Some (Inr [])
      else do {
        let available = length (data (vn_entry v)) - unat offset;
        let to_read = min available buf_len;
        bs \<leftarrow> slice (data (vn_entry v)) (unat offset) (unat offset + to_read);
        Some (Inr bs)
      })"

definition init_write :: "init_vnode \<Rightarrow> u64 \<Rightarrow> u8 list \<Rightarrow> io_error + usize" where
  "init_write v offset buf = Inl PermissionDenied"

definition init_stat :: "init_vnode \<Rightarrow> io_error + file_stat" where
  "init_stat v = Inr \<lparr>st_size = of_nat (length (data (vn_entry v))), st_kind = kind (vn_entry v)\<rparr>"

definition init_lookup :: "initramfs_fs \<Rightarrow> init_vnode \<Rightarrow> string \<Rightarrow> io_error + init_vnode" where
  "init_lookup fs v name =
     (if kind (vn_entry v) \<noteq> Directory then Inl NotADirectory
      else let full_path = (if vn_path v = ''/'' then ''/'' @ name else vn_path v @ ''/'' @ name)
           in if name \<notin> set (children (vn_entry v)) then Inl NotFound
              else lookup_path fs full_path)"

definition init_readdir :: "init_vnode \<Rightarrow> io_error + string list" where
  "init_readdir v = (if kind (vn_entry v) \<noteq> Directory then Inl NotAFile else Inr (children (vn_entry v)))"

definition init_ops :: "initramfs_fs \<Rightarrow> init_vnode vnode_ops" where
  "init_ops fs = \<lparr>vn_read = init_read, vn_write = init_write, vn_stat = init_stat,
     vn_lookup = init_lookup fs, vn_readdir = init_readdir\<rparr>"

section \<open>The archive writer\<close>

definition blob_hex8 :: "usize \<Rightarrow> u8 list" where
  "blob_hex8 v = map (\<lambda>i. let nibble = drop_bit (4 * (7 - i)) v AND 0xF
                           in if nibble < 10 then 48 + ucast nibble else 97 + ucast nibble - 10) [0..<8]"

function blob_align4 :: "u8 list \<Rightarrow> u8 list" where
  "blob_align4 buf = (if length buf mod 4 \<noteq> 0 then blob_align4 (buf @ [0]) else buf)"
  by pat_completeness auto
termination
proof (relation "measure (\<lambda>buf. (4 - length buf mod 4) mod 4)")
  fix buf :: "u8 list"
  assume "length buf mod 4 \<noteq> 0"
  moreover have "length buf mod 4 < 4" by simp
  ultimately consider "length buf mod 4 = 1" | "length buf mod 4 = 2" | "length buf mod 4 = 3" by linarith
  then have "(4 - Suc (length buf) mod 4) mod 4 < (4 - length buf mod 4) mod 4" by cases (simp_all add: mod_Suc)
  then show "(buf @ [0], buf) \<in> measure (\<lambda>buf. (4 - length buf mod 4) mod 4)" by simp
qed simp

declare blob_align4.simps [simp del]

definition append_cpio_entry :: "u8 list \<Rightarrow> u8 list \<Rightarrow> u8 list \<Rightarrow> u8 list" where
  "append_cpio_entry cpio name dat =
     (let name_with_nul = name @ [0];
          c1 = cpio @ bytes ''07070100000000'' @ bytes ''000081a4'' @ bytes ''00000000000000000000000100000000''
               @ blob_hex8 (of_nat (length dat)) @ bytes ''00000000000000000000000000000000''
               @ blob_hex8 (of_nat (length name_with_nul)) @ bytes ''00000000'' @ name_with_nul
      in blob_align4 (blob_align4 c1 @ dat))"

definition append_cpio_trailer :: "u8 list \<Rightarrow> u8 list" where
  "append_cpio_trailer cpio = append_cpio_entry cpio (bytes ''TRAILER!!!'') []"

text \<open>The two executables are build products; they are parameters. The unit file is given in the source.\<close>

definition NET_SERVER_SERVICE :: "u8 list" where
  "NET_SERVER_SERVICE = concat (map (\<lambda>l. bytes l @ [10])
     [''[Unit]'', ''Description=PINDOS Network Stack'', [], ''[Service]'', ''Type=simple'',
      ''ExecStart=/usr/bin/net-server'', ''Restart=on-failure''])"

definition build_initramfs :: "u8 list \<Rightarrow> u8 list \<Rightarrow> u8 list" where
  "build_initramfs dealduck_elf net_server_elf =
     append_cpio_trailer
       (append_cpio_entry
         (append_cpio_entry
           (append_cpio_entry [] (bytes ''/init'') dealduck_elf)
           (bytes ''/usr/bin/net-server'') net_server_elf)
         (bytes ''/etc/pindos/system/net-server.service'') NET_SERVER_SERVICE)"

section \<open>Hexadecimal fields\<close>

definition hexdig :: "nat \<Rightarrow> u8" where
  "hexdig n = (if n < 10 then 48 + of_nat n else 87 + of_nat n)"

lemma unat_hexdig: "n < 16 \<Longrightarrow> unat (hexdig n) = (if n < 10 then 48 + n else 87 + n)"
proof -
  assume n: "n < 16"
  have "hexdig n = of_nat (if n < 10 then 48 + n else 87 + n)" by (simp add: hexdig_def)
  then show ?thesis using n unat_of_nat_small [of "if n < 10 then 48 + n else 87 + n", where 'a = 8] by simp
qed

lemma hexdig_char:
  assumes "n < 16"
  shows "to_digit (char_of (unat (hexdig n))) = Some n" and "unat (hexdig n) < 128"
    and "char_of (unat (hexdig n)) \<noteq> CHR ''+''"
proof -
  note u = unat_hexdig [OF assms]
  have m: "of_char (char_of (unat (hexdig n)) :: char) = unat (hexdig n)" using assms by (simp add: u of_char_of)
  show "to_digit (char_of (unat (hexdig n))) = Some n" using assms by (auto simp: to_digit_def m u Let_def)
  show "unat (hexdig n) < 128" using assms by (simp add: u)
  show "char_of (unat (hexdig n)) \<noteq> CHR ''+''"
  proof
    assume "char_of (unat (hexdig n)) = CHR ''+''"
    then have "unat (hexdig n) = of_char (CHR ''+'')" using m by simp
    then show False using u by (auto split: if_splits)
  qed
qed

lemma hexdig_nibble:
  assumes "w < (16 :: u64)"
  shows "(if w < 10 then 48 + ucast w else 97 + ucast w - 10) = hexdig (unat w)"
proof -
  have "ucast w = (of_nat (unat w) :: u8)" by simp
  moreover have "w < 10 \<longleftrightarrow> unat w < 10" by (simp add: word_less_nat_alt)
  ultimately show ?thesis by (simp add: hexdig_def)
qed

definition digits :: "nat \<Rightarrow> nat \<Rightarrow> nat list" where
  "digits n v = map (\<lambda>i. v div 16 ^ (n - 1 - i) mod 16) [0..<n]"

lemma digits_Suc: "digits (Suc n) v = digits n (v div 16) @ [v mod 16]"
proof -
  have "v div 16 ^ (n - i) mod 16 = v div 16 div 16 ^ (n - 1 - i) mod 16" if "i < n" for i
  proof -
    have "n - i = Suc (n - 1 - i)" using that by simp
    then have "(16 :: nat) ^ (n - i) = 16 * 16 ^ (n - 1 - i)" by simp
    then show ?thesis by (simp only: div_mult2_eq)
  qed
  then show ?thesis by (simp add: digits_def)
qed

lemma digits_value: "foldl (\<lambda>a d. a * 16 + d) 0 (digits n v) = v mod 16 ^ n"
proof (induction n arbitrary: v)
  case (Suc n)
  have "v mod 16 ^ Suc n = 16 * (v div 16 mod 16 ^ n) + v mod 16" by (simp add: mod_mult2_eq)
  then show ?case using Suc by (simp add: digits_Suc)
qed (simp add: digits_def)

lemma digits_lt: "d \<in> set (digits n v) \<Longrightarrow> d < 16"
  by (auto simp: digits_def)

lemma foldl_digits_ge: "a \<le> foldl (\<lambda>a d. a * 16 + d) a (ds :: nat list)"
proof (induction ds arbitrary: a)
  case (Cons d ds)
  show ?case using Cons [of "a * 16 + d"] by simp
qed simp

lemma parse_digits_hex:
  "\<forall>d \<in> set ds. d < 16 \<Longrightarrow> foldl (\<lambda>a d. a * 16 + d) acc ds < 2 ^ 32 \<Longrightarrow>
     parse_digits acc (to_str (map hexdig ds)) = Some (foldl (\<lambda>a d. a * 16 + d) acc ds)"
proof (induction ds arbitrary: acc)
  case (Cons d ds)
  have "acc * 16 + d < 2 ^ 32" using foldl_digits_ge [of "acc * 16 + d" ds] Cons.prems by simp
  then show ?case using Cons by (simp add: to_str_def hexdig_char)
qed (simp add: to_str_def)

lemma utf8_ascii: "\<forall>b \<in> set bs. b < 128 \<Longrightarrow> utf8_valid bs"
  by (induction bs) auto

lemma hex8_digits:
  assumes "v < 2 ^ 32"
  shows "hex8 (map hexdig (digits 8 v)) = v"
proof -
  let ?ds = "digits 8 v"
  have lt: "\<forall>d \<in> set ?ds. d < 16" using digits_lt by blast
  have val: "foldl (\<lambda>a d. a * 16 + d) 0 ?ds = v" using assms by (simp add: digits_value)
  have "utf8_valid (map unat (map hexdig ?ds))" using lt hexdig_char(2) by (intro utf8_ascii) auto
  then have u: "from_utf8 (map hexdig ?ds) = Some (to_str (map hexdig ?ds))" by (simp add: from_utf8_def)
  obtain d ds where dd: "?ds = d # ds" by (auto simp: digits_def upt_rec)
  have "from_str_radix (to_str (map hexdig ?ds)) = parse_digits 0 (to_str (map hexdig ?ds))"
    using lt hexdig_char(3) by (simp add: from_str_radix_def dd to_str_def)
  also have "\<dots> = Some v" using parse_digits_hex [OF lt, of 0] val assms by simp
  finally show ?thesis using u by (simp add: hex8_def)
qed

lemma blob_hex8_digits: "blob_hex8 v = map hexdig (digits 8 (unat v))"
proof -
  have "(let nibble = drop_bit (4 * (7 - i)) v AND 0xF
         in if nibble < 10 then 48 + ucast nibble else 97 + ucast nibble - 10)
      = hexdig (unat v div 16 ^ (7 - i) mod 16)" for i
  proof -
    let ?w = "drop_bit (4 * (7 - i)) v AND 0xF"
    have m: "(0xF :: u64) = mask 4" by (simp add: mask_eq_exp_minus_1)
    have "?w \<le> 0xF" by (rule word_and_le1)
    then have "?w < 16" by (simp add: word_less_nat_alt word_le_nat_alt)
    moreover have "unat ?w = unat v div 16 ^ (7 - i) mod 16"
      unfolding m by (simp only: unat_and_mask unat_drop_bit_eq) (simp add: drop_bit_eq_div power_mult)
    ultimately show ?thesis using hexdig_nibble [of ?w] by (simp add: Let_def)
  qed
  then show ?thesis by (simp add: blob_hex8_def digits_def)
qed

lemma length_blob_hex8 [simp]: "length (blob_hex8 v) = 8"
  by (simp add: blob_hex8_def)

lemma hex8_blob_hex8: "n < 2 ^ 32 \<Longrightarrow> hex8 (blob_hex8 (of_nat n)) = n"
proof -
  assume n: "n < 2 ^ 32"
  have "unat (of_nat n :: usize) = n" by (rule unat_of_nat_small) (use n in simp)
  then show ?thesis using hex8_digits [OF n] by (simp add: blob_hex8_digits)
qed

section \<open>Padding and slices\<close>

lemma align4_alt: "align4 x = (if x mod 4 = 0 then x else x - x mod 4 + 4)"
proof -
  define q r where "q = x div 4" and "r = x mod 4"
  have x: "x = 4 * q + r" and r: "r < 4" by (simp_all add: q_def r_def)
  consider "r = 0" | "r = 1" | "r = 2" | "r = 3" using r by linarith
  then have "(x + 3) div 4 * 4 = (if r = 0 then x else x - r + 4)" unfolding x by cases simp_all
  then show ?thesis by (simp add: align4_def r_def)
qed

lemma align4_ge: "x \<le> align4 x"
  by (simp add: align4_def)

lemma align4_mod [simp]: "align4 x mod 4 = 0"
  by (simp add: align4_def)

lemma align4_Suc: "x mod 4 \<noteq> 0 \<Longrightarrow> align4 (Suc x) = align4 x"
proof -
  assume "x mod 4 \<noteq> 0"
  then consider "x mod 4 = 1" | "x mod 4 = 2" | "x mod 4 = 3" using mod_less_divisor [of 4 x] by linarith
  then show ?thesis using mod_less_eq_dividend [of x 4] by cases (simp_all add: align4_alt mod_Suc)
qed

lemma blob_align4_pad: "\<exists>k. blob_align4 buf = buf @ replicate k 0 \<and> length buf + k = align4 (length buf)"
proof (induction buf rule: blob_align4.induct)
  case (1 buf)
  show ?case
  proof (cases "length buf mod 4 = 0")
    case True
    then show ?thesis by (simp add: blob_align4.simps [of buf] align4_alt)
  next
    case False
    then obtain k where k: "blob_align4 (buf @ [0]) = buf @ [0] @ replicate k 0" "length buf + 1 + k = align4 (Suc (length buf))"
      using 1 by auto
    then show ?thesis using False align4_Suc [OF False]
      by (intro exI [of _ "Suc k"]) (simp add: blob_align4.simps [of buf])
  qed
qed

lemma slice_at: "bs = pre @ x @ post \<Longrightarrow> a = length pre \<Longrightarrow> b = a + length x \<Longrightarrow> slice bs a b = Some x"
  by (simp add: slice_def)

section \<open>Parsing what the writer wrote\<close>

definition reg_entry :: "u8 list \<Rightarrow> init_entry" where
  "reg_entry d = \<lparr>kind = Regular, data = d, children = []\<rparr>"

definition file_ok :: "u8 list \<times> u8 list \<Rightarrow> bool" where
  "file_ok f \<longleftrightarrow> utf8_valid (map unat (fst f)) \<and> length (fst f) + 1 < 2 ^ 32 \<and> length (snd f) < 2 ^ 32"

text \<open>The shape of an appended entry, and of the archive that contains it.\<close>

lemma append_cpio_entry_shape:
  assumes "length cpio mod 4 = 0"
  obtains p1 p2 where
    "append_cpio_entry cpio name dat = cpio @ bytes ''07070100000000'' @ bytes ''000081a4''
       @ bytes ''00000000000000000000000100000000'' @ blob_hex8 (of_nat (length dat))
       @ bytes ''00000000000000000000000000000000'' @ blob_hex8 (of_nat (length name + 1)) @ bytes ''00000000''
       @ name @ [0] @ p1 @ dat @ p2"
    "length cpio + 110 + length name + 1 + length p1 = align4 (length cpio + 110 + length name + 1)"
    "length (append_cpio_entry cpio name dat) = align4 (length cpio + 110 + length name + 1 + length p1 + length dat)"
proof -
  define c where "c = cpio @ bytes ''07070100000000'' @ bytes ''000081a4'' @ bytes ''00000000000000000000000100000000''
     @ blob_hex8 (of_nat (length dat)) @ bytes ''00000000000000000000000000000000''
     @ blob_hex8 (of_nat (length (name @ [0]))) @ bytes ''00000000'' @ name @ [0]"
  have lc: "length c = length cpio + 110 + length name + 1" by (simp add: c_def)
  obtain k where k: "blob_align4 c = c @ replicate k 0" "length c + k = align4 (length c)"
    using blob_align4_pad by blast
  obtain j where j: "blob_align4 (blob_align4 c @ dat) = (blob_align4 c @ dat) @ replicate j 0"
    "length (blob_align4 c @ dat) + j = align4 (length (blob_align4 c @ dat))" using blob_align4_pad by blast
  have "append_cpio_entry cpio name dat = blob_align4 (blob_align4 c @ dat)"
    unfolding append_cpio_entry_def Let_def c_def by (rule refl)
  then have e: "append_cpio_entry cpio name dat = c @ replicate k 0 @ dat @ replicate j 0" using j(1) k(1) by simp
  then have l: "length (append_cpio_entry cpio name dat) = align4 (length c + k + length dat)"
    using j(2) k(1) by (simp add: add.assoc)
  show ?thesis
  proof (rule that [of "replicate k 0" "replicate j 0"])
    show "length cpio + 110 + length name + 1 + length (replicate k (0 :: u8)) = align4 (length cpio + 110 + length name + 1)"
      using k(2) unfolding lc by simp
    show "length (append_cpio_entry cpio name dat) =
        align4 (length cpio + 110 + length name + 1 + length (replicate k (0 :: u8)) + length dat)"
      using l unfolding lc by simp
  qed (use e in \<open>simp add: c_def\<close>)
qed

lemma bytes_mode: "(of_nat (hex8 (bytes ''000081a4'')) AND 0xF000 :: u32) \<noteq> 0x4000"
proof -
  have "bytes ''000081a4'' = map hexdig (digits 8 0x81a4)" by (simp add: bytes_def digits_def hexdig_def upt_rec)
  then have "hex8 (bytes ''000081a4'') = 0x81a4" using hex8_digits [of "0x81a4"] by simp
  then show ?thesis by simp
qed

lemma parse_loop_header:
  assumes "pos + 110 \<le> length dat" "slice dat pos (pos + 6) = Some (bytes ''070701'')"
    "slice dat (pos + 94) (pos + 102) = Some nb" "slice dat (pos + 54) (pos + 62) = Some fb"
    "slice dat (pos + 14) (pos + 22) = Some mb" "ne = pos + 110 + hex8 nb" "ne \<le> length dat" "hex8 nb \<noteq> 0"
    "slice dat (pos + 110) (ne - 1) = Some name_bytes" "from_utf8 name_bytes = Some nm"
  shows "parse_loop dat pos m = (if nm = ''TRAILER!!!'' then Some m
    else if length dat < align4 ne + hex8 fb then Some m
    else do {
      content \<leftarrow> slice dat (align4 ne) (align4 ne + hex8 fb);
      parse_loop dat (align4 (align4 ne + hex8 fb)) (bt_insert m nm
        \<lparr>kind = (if (of_nat (hex8 mb) AND 0xF000 :: u32) = 0x4000 then Directory else Regular), data = content, children = []\<rparr>)
    })"
proof -
  have c: "\<not> length dat < pos + 110" "\<not> length dat < pos + 110 + hex8 nb" using assms(1,6,7) by auto
  show ?thesis
    unfolding parse_loop.simps [of dat pos m] assms(2-5) Let_def Option.bind.simps
    using c assms(8-10) unfolding assms(6) by (simp only: if_False if_True simp_thms option.case Option.bind.simps)
qed

text \<open>The fields of an entry in an archive, at the position where it was appended.\<close>

lemma parse_entry:
  assumes al: "length cpio mod 4 = 0" and ok: "file_ok (name, dat)"
  shows "parse_loop (append_cpio_entry cpio name dat @ post) (length cpio) m =
    (if to_str name = ''TRAILER!!!'' then Some m
     else parse_loop (append_cpio_entry cpio name dat @ post) (length (append_cpio_entry cpio name dat))
       (bt_insert m (to_str name) (reg_entry dat)))"
proof -
  let ?pos = "length cpio"
  obtain p1 p2 where sh: "append_cpio_entry cpio name dat = cpio @ bytes ''07070100000000'' @ bytes ''000081a4''
       @ bytes ''00000000000000000000000100000000'' @ blob_hex8 (of_nat (length dat))
       @ bytes ''00000000000000000000000000000000'' @ blob_hex8 (of_nat (length name + 1)) @ bytes ''00000000''
       @ name @ [0] @ p1 @ dat @ p2"
    and p1: "?pos + 110 + length name + 1 + length p1 = align4 (?pos + 110 + length name + 1)"
    and la: "length (append_cpio_entry cpio name dat) = align4 (?pos + 110 + length name + 1 + length p1 + length dat)"
    using append_cpio_entry_shape [OF al] by blast
  define X where "X = append_cpio_entry cpio name dat @ post"
  have X: "X = cpio @ bytes ''070701'' @ bytes ''00000000'' @ bytes ''000081a4''
       @ bytes ''00000000000000000000000100000000'' @ blob_hex8 (of_nat (length dat))
       @ bytes ''00000000000000000000000000000000'' @ blob_hex8 (of_nat (length name + 1)) @ bytes ''00000000''
       @ name @ [0] @ p1 @ dat @ p2 @ post"
    unfolding X_def sh by (simp add: bytes_def)
  have len: "length X = ?pos + 110 + length name + 1 + length p1 + length dat + length p2 + length post"
    unfolding X by simp
  have magic: "slice X ?pos (?pos + 6) = Some (bytes ''070701'')"
    by (rule slice_at [where pre = cpio]) (simp_all add: X)
  have nb: "slice X (?pos + 94) (?pos + 102) = Some (blob_hex8 (of_nat (length name + 1)))"
    by (rule slice_at [where pre = "cpio @ bytes ''070701'' @ bytes ''00000000'' @ bytes ''000081a4''
       @ bytes ''00000000000000000000000100000000'' @ blob_hex8 (of_nat (length dat))
       @ bytes ''00000000000000000000000000000000''"]) (simp_all add: X)
  have fb: "slice X (?pos + 54) (?pos + 62) = Some (blob_hex8 (of_nat (length dat)))"
    by (rule slice_at [where pre = "cpio @ bytes ''070701'' @ bytes ''00000000'' @ bytes ''000081a4''
       @ bytes ''00000000000000000000000100000000''"]) (simp_all add: X)
  have mb: "slice X (?pos + 14) (?pos + 22) = Some (bytes ''000081a4'')"
    by (rule slice_at [where pre = "cpio @ bytes ''070701'' @ bytes ''00000000''"]) (simp_all add: X)
  have nm: "slice X (?pos + 110) (?pos + 110 + length name) = Some name"
    by (rule slice_at [where pre = "cpio @ bytes ''070701'' @ bytes ''00000000'' @ bytes ''000081a4''
       @ bytes ''00000000000000000000000100000000'' @ blob_hex8 (of_nat (length dat))
       @ bytes ''00000000000000000000000000000000'' @ blob_hex8 (of_nat (length name + 1)) @ bytes ''00000000''"])
      (simp_all add: X)
  let ?ds = "align4 (?pos + 110 + length name + 1)"
  have dt: "slice X ?ds (?ds + length dat) = Some dat"
    by (rule slice_at [where pre = "cpio @ bytes ''070701'' @ bytes ''00000000'' @ bytes ''000081a4''
       @ bytes ''00000000000000000000000100000000'' @ blob_hex8 (of_nat (length dat))
       @ bytes ''00000000000000000000000000000000'' @ blob_hex8 (of_nat (length name + 1)) @ bytes ''00000000''
       @ name @ [0] @ p1"]) (use p1 in \<open>simp_all add: X\<close>)
  have n1: "hex8 (blob_hex8 (of_nat (length name + 1))) = length name + 1"
    and f1: "hex8 (blob_hex8 (of_nat (length dat))) = length dat"
    using ok by (intro hex8_blob_hex8; simp add: file_ok_def)+
  have u: "from_utf8 name = Some (to_str name)" using ok by (simp add: from_utf8_def file_ok_def)
  have c: "?pos + 110 \<le> length X" "?pos + 110 + length name + 1 \<le> length X" "\<not> length X < ?ds + length dat"
    using len p1 by linarith+
  have ne: "?pos + 110 + length name + 1 = ?pos + 110 + hex8 (blob_hex8 (of_nat (length name + 1)))"
    "hex8 (blob_hex8 (of_nat (length name + 1))) \<noteq> 0" unfolding n1 by simp_all
  have nm': "slice X (?pos + 110) (?pos + 110 + length name + 1 - 1) = Some name"
    unfolding add_diff_cancel_right' by (rule nm)
  note P = parse_loop_header [OF c(1) magic nb fb mb ne(1) c(2) ne(2) nm' u, unfolded f1]
  have "parse_loop X ?pos m = (if to_str name = ''TRAILER!!!'' then Some m
    else parse_loop X (align4 (?ds + length dat)) (bt_insert m (to_str name) (reg_entry dat)))"
    unfolding P dt using c(3) bytes_mode by (simp only: if_False Option.bind.simps reg_entry_def)
  then show ?thesis unfolding X_def [symmetric] la p1 .
qed

lemma append_cpio_entry_prefix:
  assumes "length c mod 4 = 0"
  shows "length (append_cpio_entry c n d) mod 4 = 0" and "\<exists>suf. append_cpio_entry c n d = c @ suf"
  using append_cpio_entry_shape [OF assms, of n d] align4_mod by metis+

definition append_files :: "u8 list \<Rightarrow> (u8 list \<times> u8 list) list \<Rightarrow> u8 list" where
  "append_files c files = foldl (\<lambda>c (n, d). append_cpio_entry c n d) c files"

lemma append_files_Cons [simp]: "append_files c ((n, d) # files) = append_files (append_cpio_entry c n d) files"
  by (simp add: append_files_def)

lemma append_files_Nil [simp]: "append_files c [] = c"
  by (simp add: append_files_def)

lemma append_files_prefix:
  "length c mod 4 = 0 \<Longrightarrow> length (append_files c files) mod 4 = 0 \<and> (\<exists>suf. append_files c files = c @ suf)"
proof (induction files arbitrary: c)
  case (Cons f files)
  obtain n d where f: "f = (n, d)" by (cases f)
  show ?case using Cons.IH [OF append_cpio_entry_prefix(1) [OF Cons.prems], of n d]
      append_cpio_entry_prefix(2) [OF Cons.prems, of n d] f by auto
qed simp

lemma to_str_bytes [simp]: "to_str (bytes s) = s"
proof -
  have "unat (of_nat (of_char c) :: u8) = of_char c" for c :: char
    by (rule unat_of_nat_small) simp
  then show ?thesis by (simp add: to_str_def bytes_def o_def)
qed

lemma file_ok_ascii:
  assumes "\<forall>c \<in> set s. of_char c < (128 :: nat)" and "length s + 1 < 2 ^ 32" and "length d < 2 ^ 32"
  shows "file_ok (bytes s, d)"
proof -
  have "unat (of_nat (of_char c) :: u8) = of_char c" for c :: char
    by (rule unat_of_nat_small) simp
  then have "utf8_valid (map unat (bytes s))" using assms(1) by (intro utf8_ascii) (auto simp: bytes_def)
  then show ?thesis using assms(2,3) by (simp add: file_ok_def)
qed

definition insert_files :: "(u8 list \<times> u8 list) list \<Rightarrow> entry_map \<Rightarrow> entry_map" where
  "insert_files files m = fold (\<lambda>(n, d) m. bt_insert m (to_str n) (reg_entry d)) files m"

lemma parse_archive:
  assumes "length c mod 4 = 0" and "\<forall>f \<in> set files. file_ok f \<and> to_str (fst f) \<noteq> ''TRAILER!!!''"
  shows "parse_loop (append_cpio_trailer (append_files c files)) (length c) m = Some (insert_files files m)"
  using assms
proof (induction files arbitrary: c m)
  case Nil
  have "file_ok (bytes ''TRAILER!!!'', [])" by (rule file_ok_ascii) simp_all
  then show ?case using parse_entry [OF Nil(1), of "bytes ''TRAILER!!!''" "[]" "[]" m]
    by (simp add: append_cpio_trailer_def insert_files_def)
next
  case (Cons f files)
  obtain n d where f: "f = (n, d)" by (cases f)
  let ?c = "append_cpio_entry c n d"
  have al: "length ?c mod 4 = 0" using append_cpio_entry_prefix(1) [OF Cons.prems(1)] .
  have fa: "length (append_files ?c files) mod 4 = 0" "\<exists>suf. append_files ?c files = ?c @ suf"
    using append_files_prefix [OF al] by blast+
  then obtain post where post: "append_cpio_trailer (append_files ?c files) = ?c @ post"
    using append_cpio_entry_prefix(2) [OF fa(1)] unfolding append_cpio_trailer_def by fastforce
  have "parse_loop (?c @ post) (length c) m = parse_loop (?c @ post) (length ?c) (bt_insert m (to_str n) (reg_entry d))"
    using parse_entry [OF Cons.prems(1), of n d post m] Cons.prems(2) f by simp
  also have "\<dots> = Some (insert_files files (bt_insert m (to_str n) (reg_entry d)))"
    using Cons.IH [OF al, of "bt_insert m (to_str n) (reg_entry d)"] Cons.prems(2) post by simp
  finally show ?case using f post by (simp add: insert_files_def)
qed

section \<open>Directories\<close>

lemma init_normalize_join:
  assumes "cs \<noteq> []" and "\<forall>c \<in> set cs. good_name c"
  shows "init_normalize_path (join cs) = join cs"
proof -
  have "init_norm_loop acc prev p = acc @ squeeze prev p" for acc prev p
    by (induction p arbitrary: acc prev) auto
  then have "init_norm_loop [] False (join cs) = slash # squeeze True (join cs)"
    using assms(1) by (cases cs) (simp_all add: squeeze_False join_Cons)
  then show ?thesis using pop_trailing_squeeze [of "join cs"] assms
    by (simp add: init_normalize_path_def components_join path_of_def)
qed

lemma join_snoc: "join (cs @ [c]) = join cs @ slash # c"
  by (simp add: join_def)

lemma join_not_root: "cs \<noteq> [] \<Longrightarrow> \<forall>c \<in> set cs. good_name c \<Longrightarrow> join cs \<noteq> [slash]"
  by (cases cs) (auto simp: join_Cons good_name_def)

lemma join_inj: "\<forall>c \<in> set as. good_name c \<Longrightarrow> \<forall>c \<in> set bs. good_name c \<Longrightarrow> join as = join bs \<Longrightarrow> as = bs"
  using components_join by metis

text \<open>The children of a directory are the names that extend its path to a key.\<close>

lemma child_iff:
  assumes "\<forall>c \<in> set ps. good_name c"
  shows "is_child_of key (path_of ps) \<and> get_relative_name key (path_of ps) = n \<and> n \<noteq> []
    \<longleftrightarrow> good_name n \<and> key = join (ps @ [n])"
proof (cases "ps = []")
  case True
  then show ?thesis
    by (cases key) (auto simp: path_of_def is_child_of_def get_relative_name_def starts_with_def good_name_def
        join_Cons slash_def)
next
  case False
  let ?d = "join ps"
  have d: "path_of ps = ?d" "?d \<noteq> ''/''" using False join_not_root [OF False assms] by (auto simp: path_of_def slash_def)
  show ?thesis
  proof
    assume *: "is_child_of key (path_of ps) \<and> get_relative_name key (path_of ps) = n \<and> n \<noteq> []"
    then have s: "starts_with key ?d" "count_list (drop (length ?d) key) slash = 1"
      "starts_with (drop (length ?d) key) [slash]"
      by (auto simp: d is_child_of_def split: if_splits)
    then obtain r where k: "key = ?d @ slash # r"
      by (metis append_take_drop_id length_Cons list.size(3) starts_with_def append_Cons append_Nil)
    have "slash \<notin> set r" using s(2) k by (auto simp: count_list_0_iff [symmetric])
    moreover from this have "n = r" using * k by (auto simp: d get_relative_name_def starts_with_def)
    ultimately show "good_name n \<and> key = join (ps @ [n])" using * k by (simp add: good_name_def join_snoc)
  next
    assume *: "good_name n \<and> key = join (ps @ [n])"
    then have "slash \<notin> set n" "n \<noteq> []" by (auto simp: good_name_def)
    then show "is_child_of key (path_of ps) \<and> get_relative_name key (path_of ps) = n \<and> n \<noteq> []"
      using * by (auto simp: d is_child_of_def get_relative_name_def starts_with_def join_snoc count_list_0_iff)
  qed
qed

lemma compute_children_iff:
  assumes "\<forall>c \<in> set ps. good_name c"
  shows "n \<in> set (compute_children m (path_of ps)) \<longleftrightarrow> good_name n \<and> bt_get m (join (ps @ [n])) \<noteq> None"
proof -
  have "n \<in> set (compute_children m (path_of ps)) \<longleftrightarrow>
      (\<exists>key \<in> fst ` set m. is_child_of key (path_of ps) \<and> get_relative_name key (path_of ps) = n \<and> n \<noteq> [])"
    by (auto simp: compute_children_def Let_def split: if_splits)
  also have "\<dots> \<longleftrightarrow> good_name n \<and> join (ps @ [n]) \<in> fst ` set m" unfolding child_iff [OF assms] by (auto simp: image_iff)
  also have "join (ps @ [n]) \<in> fst ` set m \<longleftrightarrow> bt_get m (join (ps @ [n])) \<noteq> None"
    unfolding bt_contains_key_get [symmetric] bt_contains_key_def by (rule refl)
  finally show ?thesis .
qed

lemma get_set_children:
  "bt_get (set_children (p, c) m) q = map_option (\<lambda>e. if q = p then e\<lparr>children := c\<rparr> else e) (bt_get m q)"
  unfolding bt_get_def set_children_def by (induction m) auto

lemma get_fold_set_children:
  assumes "\<forall>(p, c) \<in> set pcs. c = f p"
  shows "bt_get (fold set_children pcs m) q =
    map_option (\<lambda>e. if q \<in> fst ` set pcs then e\<lparr>children := f q\<rparr> else e) (bt_get m q)"
  using assms
proof (induction pcs arbitrary: m)
  case (Cons pc pcs)
  obtain p c where pc: "pc = (p, c)" by (cases pc)
  have IH: "bt_get (fold set_children pcs (set_children (p, c) m)) q =
    map_option (\<lambda>e. if q \<in> fst ` set pcs then e\<lparr>children := f q\<rparr> else e) (bt_get (set_children (p, c) m) q)"
    using Cons by simp
  show ?case using IH Cons.prems
    by (auto simp: get_set_children pc option.map_comp o_def intro!: option.map_cong)
qed (simp add: option.map_ident)

definition final_entry :: "entry_map \<Rightarrow> string \<Rightarrow> init_entry \<Rightarrow> init_entry" where
  "final_entry m q e = (if kind e = Directory then e\<lparr>children := compute_children m q\<rparr> else e)"

text \<open>Entries with the same key as a directory do not occur: keys are distinct in an ordered map.\<close>

lemma build_fs_get:
  assumes "bt_ok (create_parent_dirs m)"
  shows "bt_get (all_entries (build_fs m)) q =
    map_option (final_entry (create_parent_dirs m) q) (bt_get (create_parent_dirs m) q)"
proof -
  let ?m = "create_parent_dirs m"
  let ?pcs = "map (\<lambda>(p, e). (p, compute_children ?m p)) (filter (\<lambda>(p, e). kind e = Directory) ?m)"
  have f: "\<forall>(p, c) \<in> set ?pcs. c = compute_children ?m p" by auto
  have mem: "q \<in> fst ` set ?pcs \<longleftrightarrow> kind e = Directory" if "bt_get ?m q = Some e" for e
  proof -
    have "(q, e') \<in> set ?m \<longleftrightarrow> e' = e" for e' using that bt_get_Some_set [OF assms, of q e'] by auto
    moreover have "q \<in> fst ` set ?pcs \<longleftrightarrow> (\<exists>e'. (q, e') \<in> set ?m \<and> kind e' = Directory)"
      by (auto simp: image_iff simp del: filter.simps)
    ultimately show ?thesis by simp
  qed
  have "all_entries (build_fs m) = fold set_children ?pcs ?m" by (simp add: build_fs_def Let_def)
  then have "bt_get (all_entries (build_fs m)) q =
      map_option (\<lambda>e. if q \<in> fst ` set ?pcs then e\<lparr>children := compute_children ?m q\<rparr> else e) (bt_get ?m q)"
    using get_fold_set_children [OF f, of ?m q] by simp
  then show ?thesis using mem by (cases "bt_get ?m q") (auto simp: final_entry_def)
qed

lemma build_fs_root:
  "fs_root (build_fs m) = \<lparr>kind = Directory, data = [],
     children = (case bt_get (all_entries (build_fs m)) ''/'' of None \<Rightarrow> [] | Some e \<Rightarrow> children e)\<rparr>"
  by (simp add: build_fs_def Let_def)

section \<open>Parent directories\<close>

definition ancestors :: "string \<Rightarrow> string list \<Rightarrow> string set" where
  "ancestors cur cs = {cur @ join (take n cs) | n. 0 < n \<and> n \<le> length cs}"

lemma ancestors_Nil [simp]: "ancestors cur [] = {}"
  by (auto simp: ancestors_def)

lemma ancestors_Cons: "ancestors cur (c # cs) = insert (cur @ slash # c) (ancestors (cur @ slash # c) cs)"
proof (intro set_eqI iffI)
  fix x assume "x \<in> ancestors cur (c # cs)"
  then obtain n where n: "x = cur @ join (take n (c # cs))" "0 < n" "n \<le> length (c # cs)" by (auto simp: ancestors_def)
  then obtain k where k: "n = Suc k" by (cases n) auto
  then show "x \<in> insert (cur @ slash # c) (ancestors (cur @ slash # c) cs)"
    using n by (cases "k = 0") (auto simp: ancestors_def join_Cons intro!: exI [of _ k])
next
  fix x assume "x \<in> insert (cur @ slash # c) (ancestors (cur @ slash # c) cs)"
  then consider "x = cur @ slash # c" | k where "x = cur @ slash # c @ join (take k cs)" "0 < k" "k \<le> length cs"
    by (auto simp: ancestors_def)
  then show "x \<in> ancestors cur (c # cs)"
  proof cases
    case 1
    then show ?thesis by (auto simp: ancestors_def join_Cons intro!: exI [of _ 1])
  next
    case (2 k)
    then show ?thesis by (auto simp: ancestors_def join_Cons intro!: exI [of _ "Suc k"])
  qed
qed

definition with_dirs :: "string set \<Rightarrow> init_entry option \<Rightarrow> string \<Rightarrow> init_entry option" where
  "with_dirs A o1 q = (case o1 of Some e \<Rightarrow> Some e | None \<Rightarrow> if q \<in> A then Some dir_entry else None)"

lemma with_dirs_twice: "with_dirs A (with_dirs B o1 q) q = with_dirs (A \<union> B) o1 q"
  by (auto simp: with_dirs_def split: option.splits)

lemma with_dirs_empty [simp]: "with_dirs {} o1 q = o1"
  by (simp add: with_dirs_def split: option.split)

lemma add_dir_fold:
  assumes "bt_ok m"
  shows "bt_ok (fst (foldl add_dir (m, cur) comps)) \<and> (\<forall>q. bt_get (fst (foldl add_dir (m, cur) comps)) q =
    with_dirs (ancestors cur (filter (\<lambda>c. c \<noteq> []) comps)) (bt_get m q) q)"
  using assms
proof (induction comps arbitrary: m cur)
  case (Cons c comps)
  show ?case
  proof (cases "c = []")
    case True
    then show ?thesis using Cons by (simp add: add_dir_def)
  next
    case False
    let ?cur = "cur @ [slash] @ c"
    let ?m = "if bt_contains_key m ?cur then m else bt_insert m ?cur dir_entry"
    have ok: "bt_ok ?m" using Cons.prems by (simp add: bt_ok_insert)
    have g: "bt_get ?m q = with_dirs {?cur} (bt_get m q) q" for q
      using Cons.prems by (auto simp: bt_get_insert with_dirs_def bt_contains_key_get split: option.splits)
    have st: "foldl add_dir (m, cur) (c # comps) = foldl add_dir (?m, ?cur) comps"
      using False by (simp add: add_dir_def Let_def)
    have an: "ancestors cur (filter (\<lambda>c. c \<noteq> []) (c # comps)) = ancestors ?cur (filter (\<lambda>c. c \<noteq> []) comps) \<union> {?cur}"
      using False ancestors_Cons [of cur c "filter (\<lambda>c. c \<noteq> []) comps"] by auto
    show ?thesis using Cons.IH [OF ok, of ?cur] unfolding st an g with_dirs_twice .
  qed
qed simp

definition needed_dirs :: "string set \<Rightarrow> string set" where
  "needed_dirs K = (\<Union>k \<in> K - {''/'', ''TRAILER!!!''}. ancestors [] (filter (\<lambda>c. c \<noteq> []) (drop 1 (split_slash k))))"

lemma create_parent_dirs_spec:
  assumes "bt_ok m"
  shows "bt_ok (create_parent_dirs m) \<and>
    (\<forall>q. bt_get (create_parent_dirs m) q = with_dirs (needed_dirs (fst ` set m)) (bt_get m q) q)"
proof -
  have step: "bt_ok (create_dirs_of k n) \<and> (\<forall>q. bt_get (create_dirs_of k n) q = with_dirs (needed_dirs {k}) (bt_get n q) q)"
    if "bt_ok n" for k n
    using add_dir_fold [OF that, of "[]" "drop 1 (split_slash k)"] that
    by (auto simp: create_dirs_of_def needed_dirs_def with_dirs_def split: option.split)
  have "bt_ok n \<Longrightarrow> bt_ok (fold create_dirs_of ks n) \<and>
      (\<forall>q. bt_get (fold create_dirs_of ks n) q = with_dirs (needed_dirs (set ks)) (bt_get n q) q)" for ks n
  proof (induction ks arbitrary: n)
    case (Cons k ks)
    have u: "needed_dirs (set (k # ks)) = needed_dirs (set ks) \<union> needed_dirs {k}" by (auto simp: needed_dirs_def)
    show ?case using Cons.IH [of "create_dirs_of k n"] step [OF Cons.prems, of k] unfolding u
      by (simp add: with_dirs_twice)
  qed (auto simp: needed_dirs_def with_dirs_def split: option.split)
  from this [OF assms, of "map fst m"] show ?thesis by (simp add: create_parent_dirs_def)
qed

lemma needed_dirs_join:
  assumes "cs \<noteq> []" and "\<forall>c \<in> set cs. good_name c" and "join cs \<in> K" and "0 < n" and "n \<le> length cs"
  shows "join (take n cs) \<in> needed_dirs K"
proof -
  have "split_slash (join cs) = [] # split_slash (tl (join cs))" using assms(1) by (cases cs) (auto simp: join_Cons)
  then have "filter (\<lambda>c. c \<noteq> []) (drop 1 (split_slash (join cs))) = components (join cs)" by (simp add: components_def)
  then have f: "filter (\<lambda>c. c \<noteq> []) (drop 1 (split_slash (join cs))) = cs" using components_join [OF assms(2)] by simp
  have "join cs \<noteq> ''/''" using join_not_root [OF assms(1,2)] by (simp add: slash_def)
  moreover have "join cs \<noteq> ''TRAILER!!!''" using assms(1) by (cases cs) (auto simp: join_Cons slash_def)
  ultimately show ?thesis using assms(3-5) f by (auto simp: needed_dirs_def ancestors_def intro!: bexI [of _ "join cs"])
qed

section \<open>The file system as a tree\<close>

definition fs_wf :: "initramfs_fs \<Rightarrow> bool" where
  "fs_wf fs \<longleftrightarrow> (\<exists>m. bt_ok m \<and> (\<forall>(p, e) \<in> set m. children e = []) \<and> fs = build_fs m)"

definition is_dir :: "initramfs_fs \<Rightarrow> string \<Rightarrow> bool" where
  "is_dir fs q \<longleftrightarrow> (case bt_get (all_entries fs) q of None \<Rightarrow> False | Some e \<Rightarrow> kind e = Directory)"

text \<open>The node at a list of names: it has an entry and all its ancestors are directories.\<close>

definition init_node :: "initramfs_fs \<Rightarrow> string list \<Rightarrow> init_vnode option" where
  "init_node fs ps =
     (if ps = [] then Some \<lparr>vn_entry = fs_root fs, vn_path = ''/''\<rparr>
      else if (\<forall>c \<in> set ps. good_name c) \<and> (\<forall>n < length ps. is_dir fs (path_of (take n ps)))
      then map_option (\<lambda>e. \<lparr>vn_entry = e, vn_path = join ps\<rparr>) (bt_get (all_entries fs) (join ps))
      else None)"

lemma fs_wf_children:
  assumes wf: "fs_wf fs"
  shows "\<forall>c \<in> set ps. good_name c \<Longrightarrow> bt_get (all_entries fs) (path_of ps) = Some e \<Longrightarrow> kind e = Directory \<Longrightarrow>
      n \<in> set (children e) \<longleftrightarrow> good_name n \<and> bt_get (all_entries fs) (join (ps @ [n])) \<noteq> None"
    and "bt_get (all_entries fs) q = Some e \<Longrightarrow> kind e \<noteq> Directory \<Longrightarrow> children e = []"
proof -
  obtain m where m: "bt_ok m" "\<forall>(p, e) \<in> set m. children e = []" "fs = build_fs m" using wf by (auto simp: fs_wf_def)
  let ?D = "create_parent_dirs m"
  have D: "bt_ok ?D" "\<forall>q. bt_get ?D q = with_dirs (needed_dirs (fst ` set m)) (bt_get m q) q"
    using create_parent_dirs_spec [OF m(1)] by auto
  note G = build_fs_get [OF D(1), folded m(3)]
  show "n \<in> set (children e) \<longleftrightarrow> good_name n \<and> bt_get (all_entries fs) (join (ps @ [n])) \<noteq> None"
    if ps: "\<forall>c \<in> set ps. good_name c" and e: "bt_get (all_entries fs) (path_of ps) = Some e" "kind e = Directory"
  proof -
    obtain e0 where e0: "e = final_entry ?D (path_of ps) e0" using e(1) by (auto simp: G)
    then have "children e = compute_children ?D (path_of ps)" using e(2) by (auto simp: final_entry_def split: if_splits)
    then show ?thesis using compute_children_iff [OF ps, of n ?D] by (simp add: G)
  qed
  show "children e = []" if e: "bt_get (all_entries fs) q = Some e" "kind e \<noteq> Directory"
  proof -
    obtain e0 where e0: "bt_get ?D q = Some e0" "e = final_entry ?D q e0" using e(1) by (auto simp: G)
    then have "e = e0" using e(2) by (auto simp: final_entry_def split: if_splits)
    moreover have "children e0 = []"
      using e0(1) D(2) m(1,2) by (auto simp: with_dirs_def dir_entry_def bt_get_Some_set split: option.splits if_splits)
    ultimately show ?thesis by simp
  qed
qed

lemma fs_wf_root:
  assumes "fs_wf fs"
  shows "kind (fs_root fs) = Directory"
    and "n \<in> set (children (fs_root fs)) \<longleftrightarrow> good_name n \<and> is_dir fs ''/'' \<and> bt_get (all_entries fs) (join [n]) \<noteq> None"
proof -
  obtain m where m: "fs = build_fs m" using assms by (auto simp: fs_wf_def)
  then show "kind (fs_root fs) = Directory" by (simp add: build_fs_root)
  have c: "children (fs_root fs) = (case bt_get (all_entries fs) ''/'' of None \<Rightarrow> [] | Some e \<Rightarrow> children e)"
    using m by (simp add: build_fs_root)
  show "n \<in> set (children (fs_root fs)) \<longleftrightarrow> good_name n \<and> is_dir fs ''/'' \<and> bt_get (all_entries fs) (join [n]) \<noteq> None"
  proof (cases "bt_get (all_entries fs) ''/''")
    case None
    then show ?thesis using c by (simp add: is_dir_def)
  next
    case (Some e)
    then have p: "bt_get (all_entries fs) (path_of []) = Some e" by (simp add: path_of_def slash_def)
    show ?thesis using c Some fs_wf_children(1) [OF assms, of "[]" e n] p fs_wf_children(2) [OF assms Some]
      by (cases "kind e = Directory") (auto simp: is_dir_def)
  qed
qed

lemma lookup_path_join:
  assumes "cs \<noteq> []" and "\<forall>c \<in> set cs. good_name c"
  shows "lookup_path fs (join cs) = (case bt_get (all_entries fs) (join cs) of
    Some e \<Rightarrow> Inr \<lparr>vn_entry = e, vn_path = join cs\<rparr> | None \<Rightarrow> Inl NotFound)"
  using init_normalize_join [OF assms] join_not_root [OF assms] by (simp add: lookup_path_def slash_def Let_def)

interpretation init: tree_fs init_lookup init_node fs_wf
proof (unfold_locales, goal_cases)
  case (1 fs ps v c)
  show ?case
  proof (cases "ps = []")
    case True
    then have v: "v = \<lparr>vn_entry = fs_root fs, vn_path = ''/''\<rparr>" using 1(2) by (simp add: init_node_def)
    have fp: "''/'' @ c = join [c]" by (simp add: join_Cons slash_def)
    have g: "\<forall>d \<in> set [c]. good_name d" using 1(3) by simp
    note R = fs_wf_root [OF 1(1)]
    show ?thesis
      using True v R(1) R(2) [of c] 1(3) lookup_path_join [OF _ g, of fs] fp
      by (auto simp: init_node_def init_lookup_def path_of_def slash_def split: option.split)
  next
    case False
    then have ps: "\<forall>d \<in> set ps. good_name d" "\<forall>n < length ps. is_dir fs (path_of (take n ps))"
      and e: "bt_get (all_entries fs) (join ps) = Some (vn_entry v)" and vp: "vn_path v = join ps"
      using 1(2) by (auto simp: init_node_def split: if_splits)
    have pp: "path_of ps = join ps" using False by (simp add: path_of_def)
    have nr: "join ps \<noteq> ''/''" using join_not_root [OF False ps(1)] by (simp add: slash_def)
    have fp: "join ps @ ''/'' @ c = join (ps @ [c])" by (simp add: join_snoc slash_def)
    have g: "\<forall>d \<in> set (ps @ [c]). good_name d" using ps(1) 1(3) by auto
    have anc: "(\<forall>n < length (ps @ [c]). is_dir fs (path_of (take n (ps @ [c])))) \<longleftrightarrow> kind (vn_entry v) = Directory"
      using ps(2) e pp by (auto simp: is_dir_def less_Suc_eq)
    show ?thesis
    proof (cases "kind (vn_entry v) = Directory")
      case True
      note C = fs_wf_children(1) [OF 1(1) ps(1) e [folded pp] True, of c]
      have N: "init_node fs (ps @ [c]) =
          map_option (\<lambda>e. \<lparr>vn_entry = e, vn_path = join (ps @ [c])\<rparr>) (bt_get (all_entries fs) (join (ps @ [c])))"
        unfolding init_node_def using g anc True by (simp del: length_append)
      show ?thesis unfolding N using C 1(3) True vp nr lookup_path_join [OF _ g, of fs] fp
        by (auto simp: init_lookup_def split: option.split)
    next
      case False
      then have "\<not> (\<forall>n < length (ps @ [c]). is_dir fs (path_of (take n (ps @ [c]))))" using anc by blast
      then have "init_node fs (ps @ [c]) = None" unfolding init_node_def by (simp only: simp_thms if_False append_is_Nil_conv list.distinct)
      then show ?thesis using False by (simp add: init_lookup_def)
    qed
  qed
next
  case (2 fs ps c)
  show ?case
  proof (cases "ps = []")
    case False
    have c: "(\<forall>d \<in> set (ps @ [c]). good_name d)" "\<forall>n < length (ps @ [c]). is_dir fs (path_of (take n (ps @ [c])))"
      using 2(2) by (auto simp: init_node_def split: if_splits)
    have d: "is_dir fs (path_of (take n ps))" if "n \<le> length ps" for n using c(2) [rule_format, of n] that by simp
    then have "is_dir fs (join ps)" using d [of "length ps"] False by (simp add: path_of_def)
    then show ?thesis using False c(1) d by (auto simp: init_node_def is_dir_def split: option.splits)
  qed (simp add: init_node_def)
qed

section \<open>Archives of files\<close>

text \<open>Files as component lists with contents, and the archive the writer makes of them.\<close>

type_synonym file_spec = "string list \<times> u8 list"

definition archive :: "file_spec list \<Rightarrow> u8 list" where
  "archive files = append_cpio_trailer (append_files [] (map (\<lambda>(cs, d). (bytes (join cs), d)) files))"

definition files_ok :: "file_spec list \<Rightarrow> bool" where
  "files_ok files \<longleftrightarrow>
     (\<forall>(cs, d) \<in> set files. cs \<noteq> [] \<and> (\<forall>c \<in> set cs. good_name c) \<and> file_ok (bytes (join cs), d))
     \<and> distinct (map fst files)
     \<and> (\<forall>(cs, d) \<in> set files. \<forall>n < length cs. take n cs \<notin> fst ` set files)"

lemma file_ok_bytes_trailer: "cs \<noteq> [] \<Longrightarrow> to_str (bytes (join cs)) \<noteq> ''TRAILER!!!''"
  by (cases cs) (auto simp: join_Cons slash_def)

definition raw_files :: "file_spec list \<Rightarrow> (u8 list \<times> u8 list) list" where
  "raw_files files = map (\<lambda>(cs, d). (bytes (join cs), d)) files"

lemma insert_raw_Nil [simp]: "insert_files (raw_files []) m = m"
  by (simp add: insert_files_def raw_files_def)

lemma insert_raw_Cons [simp]:
  "insert_files (raw_files ((cs, d) # files)) m = insert_files (raw_files files) (bt_insert m (join cs) (reg_entry d))"
  by (simp add: insert_files_def raw_files_def)

lemma insert_raw_ok: "bt_ok m \<Longrightarrow> bt_ok (insert_files (raw_files files) m)"
proof (induction files arbitrary: m)
  case (Cons f files)
  then show ?case by (cases f) (simp add: bt_ok_insert)
qed simp

lemma insert_raw_plain:
  "bt_ok m \<Longrightarrow> \<forall>(p, e) \<in> set m. children e = [] \<Longrightarrow>
     \<forall>(p, e) \<in> set (insert_files (raw_files files) m). children e = []"
proof (induction files arbitrary: m)
  case (Cons f files)
  obtain cs d where f: "f = (cs, d)" by (cases f)
  have "\<forall>(p, e) \<in> set (bt_insert m (join cs) (reg_entry d)). children e = []"
    using Cons.prems by (auto simp: set_bt_insert reg_entry_def)
  then show ?case using Cons.IH [of "bt_insert m (join cs) (reg_entry d)"] Cons.prems(1) f by (simp add: bt_ok_insert)
qed simp

lemma insert_raw_other:
  "bt_ok m \<Longrightarrow> q \<notin> join ` fst ` set files \<Longrightarrow> bt_get (insert_files (raw_files files) m) q = bt_get m q"
proof (induction files arbitrary: m)
  case (Cons f files)
  then show ?case by (cases f) (simp add: bt_ok_insert bt_get_insert)
qed simp

lemma insert_raw_file:
  assumes "bt_ok m" and "distinct (map fst files)" and "\<forall>(cs, d) \<in> set files. \<forall>c \<in> set cs. good_name c"
    and "(cs, d) \<in> set files"
  shows "bt_get (insert_files (raw_files files) m) (join cs) = Some (reg_entry d)"
  using assms
proof (induction files arbitrary: m)
  case (Cons f files)
  obtain as x where f: "f = (as, x)" by (cases f)
  let ?m = "bt_insert m (join as) (reg_entry x)"
  have ok: "bt_ok ?m" using Cons.prems(1) by (simp add: bt_ok_insert)
  show ?case
  proof (cases "(cs, d) = (as, x)")
    case True
    have "join as \<notin> join ` fst ` set files"
    proof
      assume "join as \<in> join ` fst ` set files"
      then obtain bs y where b: "(bs, y) \<in> set files" "join as = join bs" by auto
      then have "as = bs" using join_inj [of as bs] Cons.prems(3) f by auto
      then show False using b(1) Cons.prems(2) f by (force simp: image_iff)
    qed
    then show ?thesis using insert_raw_other [OF ok] Cons.prems(1) True f by (simp add: bt_get_insert)
  next
    case False
    then show ?thesis using Cons.IH [OF ok] Cons.prems f by auto
  qed
qed simp

lemma parse_archive_node:
  assumes ok: "files_ok files"
  shows "\<exists>fs. parse (archive files) = Some fs \<and> fs_wf fs
    \<and> (\<forall>(cs, d) \<in> set files. init_node fs cs = Some \<lparr>vn_entry = reg_entry d, vn_path = join cs\<rparr>)"
proof -
  let ?raw = "raw_files files"
  define M where "M = insert_files ?raw [(''/'', dir_entry)]"
  have g: "\<forall>(cs, d) \<in> set files. \<forall>c \<in> set cs. good_name c" and di: "distinct (map fst files)"
    and ne: "\<And>cs d. (cs, d) \<in> set files \<Longrightarrow> cs \<noteq> []" using ok by (auto simp: files_ok_def)
  have b: "bt_ok [(''/'', dir_entry)]" by simp
  have pl: "\<forall>(p, e) \<in> set [(''/'', dir_entry)]. children e = []" by (simp add: dir_entry_def)
  have "\<forall>f \<in> set ?raw. file_ok f \<and> to_str (fst f) \<noteq> ''TRAILER!!!''"
    using ok file_ok_bytes_trailer by (force simp: files_ok_def raw_files_def)
  then have p: "parse (archive files) = Some (build_fs M)"
    using parse_archive [of "[]" ?raw "[(''/'', dir_entry)]"] by (simp add: parse_def archive_def M_def raw_files_def)
  have MO: "bt_ok M" unfolding M_def by (rule insert_raw_ok [OF b])
  have wf: "fs_wf (build_fs M)" using MO insert_raw_plain [OF b pl] unfolding fs_wf_def M_def by blast
  have D: "bt_ok (create_parent_dirs M)"
    "\<forall>q. bt_get (create_parent_dirs M) q = with_dirs (needed_dirs (fst ` set M)) (bt_get M q) q"
    using create_parent_dirs_spec [OF MO] by auto
  note G = build_fs_get [OF D(1)]
  have nr: "''/'' \<notin> join ` fst ` set files"
  proof
    assume "''/'' \<in> join ` fst ` set files"
    then obtain bs y where "(bs, y) \<in> set files" "join bs = [slash]" by (auto simp: slash_def)
    then show False using join_not_root [of bs] ne g by auto
  qed
  have "bt_get M ''/'' = bt_get [(''/'', dir_entry)] ''/''" unfolding M_def by (rule insert_raw_other [OF b nr])
  then have "bt_get M ''/'' = Some dir_entry" by (simp add: bt_get_def)
  then have root: "is_dir (build_fs M) ''/''"
    by (simp add: is_dir_def G D(2) with_dirs_def final_entry_def dir_entry_def)
  have "init_node (build_fs M) cs = Some \<lparr>vn_entry = reg_entry d, vn_path = join cs\<rparr>" if f: "(cs, d) \<in> set files" for cs d
  proof -
    have gc: "\<forall>c \<in> set cs. good_name c" and nc: "cs \<noteq> []" using f g ne by auto
    have Mg: "bt_get M (join cs) = Some (reg_entry d)" unfolding M_def by (rule insert_raw_file [OF b di g f])
    have e: "bt_get (all_entries (build_fs M)) (join cs) = Some (reg_entry d)"
      using Mg by (simp add: G D(2) with_dirs_def final_entry_def reg_entry_def)
    have key: "join cs \<in> fst ` set M" using Mg MO by (force simp: bt_get_Some_set)
    have "is_dir (build_fs M) (path_of (take n cs))" if n: "n < length cs" for n
    proof (cases "n = 0")
      case True
      then show ?thesis using root by (simp add: path_of_def slash_def)
    next
      case False
      have gt: "\<forall>c \<in> set (take n cs). good_name c" using gc by (meson in_set_takeD)
      have "join (take n cs) \<notin> join ` fst ` set files"
      proof
        assume "join (take n cs) \<in> join ` fst ` set files"
        then obtain bs y where bs: "(bs, y) \<in> set files" "join (take n cs) = join bs" by auto
        then have "take n cs = bs" using join_inj [OF gt, of bs] g by auto
        then show False using ok f n bs(1) by (force simp: files_ok_def)
      qed
      then have "bt_get M (join (take n cs)) = bt_get [(''/'', dir_entry)] (join (take n cs))"
        unfolding M_def by (rule insert_raw_other [OF b])
      moreover have "join (take n cs) \<noteq> ''/''" 
        using join_not_root [OF _ gt] nc False by (simp add: slash_def)
      ultimately have "bt_get M (join (take n cs)) = None" by (simp add: bt_get_def)
      moreover have "join (take n cs) \<in> needed_dirs (fst ` set M)"
        using needed_dirs_join [OF nc gc key, of n] n False by simp
      ultimately have "is_dir (build_fs M) (join (take n cs))"
        by (simp add: is_dir_def G D(2) with_dirs_def final_entry_def dir_entry_def)
      then show ?thesis using nc False by (simp add: path_of_def)
    qed
    then show ?thesis using nc gc e by (simp add: init_node_def)
  qed
  then show ?thesis using p wf by blast
qed

lemma lookup_path_root: "lookup_path fs ''/'' = Inr \<lparr>vn_entry = fs_root fs, vn_path = ''/''\<rparr>"
  by (simp add: lookup_path_def init_normalize_path_def pop_trailing_def slash_def)

lemma archive_lookup:
  assumes "files_ok files"
  shows "\<exists>fs root. parse (archive files) = Some fs \<and> lookup_path fs ''/'' = Inr root
    \<and> (\<forall>(cs, d) \<in> set files. \<forall>path. components path = cs \<longrightarrow>
         lookup (init_ops fs) (mount tree_new ''/'' root) path = Inr \<lparr>vn_entry = reg_entry d, vn_path = join cs\<rparr>)"
proof -
  obtain fs where fs: "parse (archive files) = Some fs" "fs_wf fs"
    "\<forall>(cs, d) \<in> set files. init_node fs cs = Some \<lparr>vn_entry = reg_entry d, vn_path = join cs\<rparr>"
    using parse_archive_node [OF assms] by blast
  have r: "init_node fs [] = Some \<lparr>vn_entry = fs_root fs, vn_path = ''/''\<rparr>" by (simp add: init_node_def)
  have "lookup (init_ops fs) (mount tree_new ''/'' \<lparr>vn_entry = fs_root fs, vn_path = ''/''\<rparr>) path
      = walk_components (init_lookup fs) \<lparr>vn_entry = fs_root fs, vn_path = ''/''\<rparr> (components path)" for path
    using lookup_single_mount [of "init_ops fs"] by (simp add: mount_def tree_new_def init_ops_def slash_def)
  then show ?thesis using fs lookup_path_root [of fs] init.walk_path [OF fs(2) r] by (fastforce split: option.splits)
qed

section \<open>Properties\<close>

text \<open> C16: Writing an archive and mounting it is a round trip: for files with distinct paths of which none lies below
  another, the parser accepts what the writer produced, and looking up any spelling of a file's path
  through the mounted tree finds a regular file with exactly the bytes that were archived.\<close>

theorem archive_roundtrip:
  assumes "files_ok files"
  shows "\<exists>fs root. parse (archive files) = Some fs \<and> lookup_path fs ''/'' = Inr root
    \<and> (\<forall>(cs, d) \<in> set files. \<forall>path. components path = cs \<longrightarrow>
         (\<exists>v. lookup (init_ops fs) (mount tree_new ''/'' root) path = Inr v
            \<and> kind (vn_entry v) = Regular \<and> data (vn_entry v) = d))"
  using archive_lookup [OF assms] by (fastforce simp: reg_entry_def)

definition boot_files :: "u8 list \<Rightarrow> u8 list \<Rightarrow> file_spec list" where
  "boot_files init_elf net_elf = [([''init''], init_elf), ([''usr'', ''bin'', ''net-server''], net_elf),
     ([''etc'', ''pindos'', ''system'', ''net-server.service''], NET_SERVER_SERVICE)]"

lemma build_initramfs_archive: "build_initramfs a b = archive (boot_files a b)"
  by (simp add: build_initramfs_def archive_def boot_files_def append_files_def join_def slash_def)

lemma boot_files_ok:
  assumes "length a < 2 ^ 32" and "length b < 2 ^ 32"
  shows "files_ok (boot_files a b)"
proof -
  have l: "length NET_SERVER_SERVICE < 2 ^ 32" by (simp add: NET_SERVER_SERVICE_def)
  have "file_ok (bytes (join cs), d)" if "(cs, d) \<in> set (boot_files a b)" for cs d
    by (rule file_ok_ascii) (use that assms l in \<open>auto simp: boot_files_def join_def slash_def\<close>)
  moreover have "cs \<noteq> [] \<and> (\<forall>c \<in> set cs. good_name c)" if "(cs, d) \<in> set (boot_files a b)" for cs d
    using that by (auto simp: boot_files_def good_name_def slash_def)
  moreover have "take n cs \<notin> fst ` set (boot_files a b)" if "(cs, d) \<in> set (boot_files a b)" "n < length cs" for cs d n
    using that by (auto simp: boot_files_def less_Suc_eq numeral_3_eq_3 numeral_2_eq_2 eval_nat_numeral)
  moreover have "distinct (map fst (boot_files a b))" by (simp add: boot_files_def)
  ultimately show ?thesis unfolding files_ok_def by blast
qed

theorem archive_roundtrip_witness:
  "\<exists>fs root. parse (archive (boot_files [1] [2, 3])) = Some fs \<and> lookup_path fs ''/'' = Inr root
    \<and> (\<exists>v. lookup (init_ops fs) (mount tree_new ''/'' root) ''//usr/bin//net-server/'' = Inr v
          \<and> data (vn_entry v) = [2, 3])"
proof -
  have c: "components ''//usr/bin//net-server/'' = [''usr'', ''bin'', ''net-server'']"
    by (simp add: components_def slash_def)
  have "([''usr'', ''bin'', ''net-server''], [2, 3]) \<in> set (boot_files [1] [2, 3])" by (simp add: boot_files_def)
  then show ?thesis using archive_roundtrip [OF boot_files_ok, of "[1]" "[2, 3]"] c by fastforce
qed

text \<open>The boot path of \<^verbatim>\<open>main.rs\<close> finds its first program: for any two executables below 4 GiB, parsing the
  archive made by \<^verbatim>\<open>build_initramfs\<close>, mounting its root and looking up \<^verbatim>\<open>/init\<close>, \<^verbatim>\<open>/usr/bin/net-server\<close> and the unit
  file succeeds, \<^verbatim>\<open>stat\<close> reports the size of the executable, and reading that many bytes returns the executable.\<close>

lemma boot_finds_init:
  assumes "length init_elf < 2 ^ 32" and "length net_elf < 2 ^ 32"
  shows "\<exists>fs root v w u. parse (build_initramfs init_elf net_elf) = Some fs \<and> lookup_path fs ''/'' = Inr root
    \<and> lookup (init_ops fs) (mount tree_new ''/'' root) ''/init'' = Inr v
    \<and> init_stat v = Inr \<lparr>st_size = of_nat (length init_elf), st_kind = Regular\<rparr>
    \<and> init_read v 0 (length init_elf) = Some (Inr init_elf)
    \<and> lookup (init_ops fs) (mount tree_new ''/'' root) ''/usr/bin/net-server'' = Inr w
    \<and> init_read w 0 (length net_elf) = Some (Inr net_elf)
    \<and> lookup (init_ops fs) (mount tree_new ''/'' root) ''/etc/pindos/system/net-server.service'' = Inr u
    \<and> data (vn_entry u) = NET_SERVER_SERVICE"
proof -
  obtain fs root where fs: "parse (build_initramfs init_elf net_elf) = Some fs" "lookup_path fs ''/'' = Inr root"
    and L: "\<forall>(cs, d) \<in> set (boot_files init_elf net_elf). \<forall>path. components path = cs \<longrightarrow>
         lookup (init_ops fs) (mount tree_new ''/'' root) path = Inr \<lparr>vn_entry = reg_entry d, vn_path = join cs\<rparr>"
    using archive_lookup [OF boot_files_ok [OF assms]] unfolding build_initramfs_archive by blast
  have c: "components ''/init'' = [''init'']" "components ''/usr/bin/net-server'' = [''usr'', ''bin'', ''net-server'']"
    "components ''/etc/pindos/system/net-server.service'' = [''etc'', ''pindos'', ''system'', ''net-server.service'']"
    by (simp_all add: components_def slash_def)
  have rd: "init_read \<lparr>vn_entry = reg_entry d, vn_path = p\<rparr> 0 (length d) = Some (Inr d)" for d p
    by (simp add: init_read_def reg_entry_def slice_def)
  let ?n = "\<lambda>d p. \<lparr>vn_entry = reg_entry d, vn_path = p\<rparr>"
  have L3: "lookup (init_ops fs) (mount tree_new ''/'' root) ''/init'' = Inr (?n init_elf (join [''init'']))"
    "lookup (init_ops fs) (mount tree_new ''/'' root) ''/usr/bin/net-server'' =
      Inr (?n net_elf (join [''usr'', ''bin'', ''net-server'']))"
    "lookup (init_ops fs) (mount tree_new ''/'' root) ''/etc/pindos/system/net-server.service'' =
      Inr (?n NET_SERVER_SERVICE (join [''etc'', ''pindos'', ''system'', ''net-server.service'']))"
    using L c by (simp_all add: boot_files_def)
  have st: "init_stat (?n init_elf p) = Inr \<lparr>st_size = of_nat (length init_elf), st_kind = Regular\<rparr>"
    and dt: "data (vn_entry (?n NET_SERVER_SERVICE p)) = NET_SERVER_SERVICE" for p
    by (simp_all add: init_stat_def reg_entry_def)
  show ?thesis using fs L3 st rd dt by blast
qed

text \<open>In every parsed archive whose root is not replaced, a directory lists exactly the names that extend its path
  to another entry: \<^verbatim>\<open>readdir\<close> of the node of a path answers a name if and only if the extended path has an entry,
  and \<^verbatim>\<open>lookup\<close> of a listed name succeeds.\<close>

lemma readdir_lists_entries:
  assumes "fs_wf fs" and "init_node fs ps = Some v" and "kind (vn_entry v) = Directory" and "is_dir fs ''/''"
  shows "\<exists>names. init_readdir v = Inr names
    \<and> (\<forall>n. n \<in> set names \<longleftrightarrow> good_name n \<and> bt_get (all_entries fs) (join (ps @ [n])) \<noteq> None)
    \<and> (\<forall>n \<in> set names. \<exists>w. init_lookup fs v n = Inr w \<and> vn_path w = join (ps @ [n]))"
proof -
  have names: "n \<in> set (children (vn_entry v)) \<longleftrightarrow> good_name n \<and> bt_get (all_entries fs) (join (ps @ [n])) \<noteq> None" for n
  proof (cases "ps = []")
    case True
    then have "vn_entry v = fs_root fs" using assms(2) by (auto simp: init_node_def)
    then show ?thesis using True fs_wf_root(2) [OF assms(1), of n] assms(4) by simp
  next
    case False
    then have "bt_get (all_entries fs) (path_of ps) = Some (vn_entry v)" "\<forall>c \<in> set ps. good_name c"
      using assms(2) by (auto simp: init_node_def path_of_def split: if_splits)
    then show ?thesis using fs_wf_children(1) [OF assms(1) _ _ assms(3), of ps n] by blast
  qed
  have "\<exists>w. init_lookup fs v n = Inr w \<and> vn_path w = join (ps @ [n])" if n: "n \<in> set (children (vn_entry v))" for n
  proof -
    have g: "good_name n" "bt_get (all_entries fs) (join (ps @ [n])) \<noteq> None" using names n by auto
    have vp: "vn_path v = path_of ps" and ps: "\<forall>c \<in> set ps. good_name c"
      using assms(2) by (auto simp: init_node_def path_of_def slash_def split: if_splits)
    have full: "(if vn_path v = ''/'' then ''/'' @ n else vn_path v @ ''/'' @ n) = join (ps @ [n])"
      using vp join_not_root [of ps] ps by (auto simp: path_of_def join_snoc join_Cons slash_def)
    show ?thesis using g n assms(3) full lookup_path_join [of "ps @ [n]" fs] ps
      by (auto simp: init_lookup_def Let_def split: option.splits)
  qed
  then show ?thesis using names assms(3) by (simp add: init_readdir_def)
qed

definition demo_fs :: initramfs_fs where
  "demo_fs = build_fs [(''/'', dir_entry), (''/bin/sh'', reg_entry [1])]"

lemma demo_fs_wf: "fs_wf demo_fs"
proof -
  have "''/'' < ''/bin/sh''" by simp
  then show ?thesis unfolding fs_wf_def demo_fs_def
    by (intro exI [of _ "[(''/'', dir_entry), (''/bin/sh'', reg_entry [1])]"]) (simp add: dir_entry_def reg_entry_def)
qed

lemma demo_fs_entries:
  "all_entries demo_fs = [(''/'', dir_entry\<lparr>children := [''bin'']\<rparr>), (''/bin'', dir_entry\<lparr>children := [''sh'']\<rparr>), (''/bin/sh'', reg_entry [1])]"
  by (simp add: demo_fs_def build_fs_def create_parent_dirs_def create_dirs_of_def add_dir_def Let_def slash_def
      bt_contains_key_def bt_insert_def set_children_def compute_children_def is_child_of_def get_relative_name_def
      starts_with_def dir_entry_def reg_entry_def)

text \<open>Reading a node never panics: a directory answers \<^verbatim>\<open>NotAFile\<close>, and a file gives the bytes from the offset on, as
  many as fit the buffer, and none when the offset is past the end.\<close>

lemma init_read_correct:
  "init_read v offset n = Some (if kind (vn_entry v) \<noteq> Regular then Inl NotAFile
     else Inr (take n (drop (unat offset) (data (vn_entry v)))))"
  by (auto simp: init_read_def slice_def Let_def min_def)

text \<open>A name size of zero makes the parser slice out of range: a malformed archive panics the kernel.\<close>

lemma parse_zero_name_panics:
  assumes "length dat = 110" and "slice dat 0 6 = Some (bytes ''070701'')"
    and "slice dat 94 102 = Some nb" and "hex8 nb = 0"
  shows "parse dat = None"
proof -
  have "slice dat 54 62 \<noteq> None" "slice dat 14 22 \<noteq> None" using assms(1) by (simp_all add: slice_def)
  then obtain fb mb where "slice dat 54 62 = Some fb" "slice dat 14 22 = Some mb" by blast
  then show ?thesis using assms by (simp add: parse_def parse_loop.simps [of dat 0])
qed

text \<open>A relative name, as \<^verbatim>\<open>tools/make_initramfs.sh\<close> writes it, yields an empty directory at the file's path.\<close>

lemma relative_name_becomes_directory:
  "lookup_path (build_fs [(''./bin/hello'', reg_entry [1]), (''/'', dir_entry)]) ''/bin/hello'' =
     Inr \<lparr>vn_entry = dir_entry, vn_path = ''/bin/hello''\<rparr>"
  by (simp add: lookup_path_def init_normalize_path_def pop_trailing_def build_fs_def create_parent_dirs_def
      create_dirs_of_def add_dir_def Let_def slash_def bt_contains_key_def bt_insert_def bt_get_def set_children_def
      compute_children_def is_child_of_def get_relative_name_def starts_with_def dir_entry_def reg_entry_def)

end
