(* ===== verification/Syscall.thy ===== *)
theory Syscall
  imports Process UserPtr Initramfs
begin

text \<open>
  The system calls (\<^verbatim>\<open>hammam/src/arch/x86_64/syscall.rs\<close>) and the start of the first process
  (\<^verbatim>\<open>hammam/src/main.rs\<close>) over the kernel state of \<^verbatim>\<open>Process\<close>. The theory proves that \<^verbatim>\<open>write\<close> sends exactly
  the user's bytes, that \<^verbatim>\<open>exec\<close> runs a loadable file of the file system as a new process, and what exit and
  waitpid do to the process table over every sequence of system calls and timer ticks. The log lines of
  \<^verbatim>\<open>kprintln!\<close> are not part of the model.
\<close>

section \<open>Errors and model specific registers\<close>

datatype syscall_error = BadAddress | BadFileDescriptor | InvalidArgument | NotImplemented

fun syscall_error_of :: "user_ptr_error \<Rightarrow> syscall_error" where
  "syscall_error_of user_ptr_error.BadAddress = BadAddress"
| "syscall_error_of user_ptr_error.NotMapped = BadAddress"
| "syscall_error_of user_ptr_error.NotWritable = BadAddress"
| "syscall_error_of user_ptr_error.OverflowDetected = InvalidArgument"

fun syscall_error_code :: "syscall_error \<Rightarrow> i64" where
  "syscall_error_code BadAddress = - 14"
| "syscall_error_code BadFileDescriptor = - 9"
| "syscall_error_code InvalidArgument = - 22"
| "syscall_error_code NotImplemented = - 38"

text \<open>The instructions move a register as two halves, \<^verbatim>\<open>edx\<close> and \<^verbatim>\<open>eax\<close>.\<close>

type_synonym msrs = "u32 \<Rightarrow> u32 \<times> u32"

definition rdmsr :: "msrs \<Rightarrow> u32 \<Rightarrow> u64" where
  "rdmsr m msr = (case m msr of (high, low) \<Rightarrow> push_bit 32 (ucast high) OR ucast low)"

definition wrmsr :: "msrs \<Rightarrow> u32 \<Rightarrow> u64 \<Rightarrow> msrs" where
  "wrmsr m msr v = m(msr := (ucast (drop_bit 32 v), ucast v))"

definition MSR_EFER :: u32 where "MSR_EFER = 0xC0000080"
definition MSR_STAR :: u32 where "MSR_STAR = 0xC0000081"
definition MSR_LSTAR :: u32 where "MSR_LSTAR = 0xC0000082"
definition MSR_SFMASK :: u32 where "MSR_SFMASK = 0xC0000084"
definition EFER_SCE :: u64 where "EFER_SCE = push_bit 0 1"
definition SFMASK_IF :: u64 where "SFMASK_IF = push_bit 9 1"

definition syscall_init :: "u64 \<Rightarrow> u64 \<Rightarrow> u64 \<Rightarrow> msrs \<Rightarrow> msrs" where
  "syscall_init kernel_code user_code syscall_entry m =
     (let m1 = wrmsr m MSR_EFER (rdmsr m MSR_EFER OR EFER_SCE);
          m2 = wrmsr m1 MSR_STAR (push_bit 48 user_code OR push_bit 32 kernel_code);
          m3 = wrmsr m2 MSR_LSTAR syscall_entry
      in wrmsr m3 MSR_SFMASK SFMASK_IF)"

section \<open>The entry from user space\<close>

text \<open>
  The naked entry code over the registers and the words of memory it uses. The compiled \<^verbatim>\<open>syscall_dispatch\<close> is a parameter: it
  gets its four arguments and the machine at the call and leaves some machine, its result in \<^verbatim>\<open>rax\<close>. After it, \<^verbatim>\<open>sysretq\<close> goes on at
  the address in \<^verbatim>\<open>rcx\<close>, with the flags in \<^verbatim>\<open>r11\<close> and the stack pointer as it is.
\<close>

record regs =
  RAX :: u64
  RDI :: u64
  RSI :: u64
  RDX :: u64
  RCX :: u64
  R11 :: u64
  RSP :: u64
  words :: "u64 \<Rightarrow> u64"

definition push :: "u64 \<Rightarrow> regs \<Rightarrow> regs" where
  "push v c = c\<lparr>RSP := RSP c - 8, words := (words c)(RSP c - 8 := v)\<rparr>"

type_synonym dispatcher = "u64 \<Rightarrow> u64 \<Rightarrow> u64 \<Rightarrow> u64 \<Rightarrow> regs \<Rightarrow> regs"

definition syscall_entry :: "dispatcher \<Rightarrow> u64 \<Rightarrow> regs \<Rightarrow> u64 \<times> regs" where
  "syscall_entry dispatch SC_KERNEL c =
     (let SC_RSP_SAVED = RSP c;
          c1 = c\<lparr>RSP := SC_KERNEL\<rparr>;
          c2 = push (R11 c1) (push (RCX c1) c1);
          c3 = push (RDX c2) (push (RSI c2) (push (RDI c2) c2));
          c4 = c3\<lparr>RDI := RAX c3\<rparr>;
          c5 = c4\<lparr>RSI := words c4 (RSP c4 + 16)\<rparr>;
          c6 = c5\<lparr>RDX := words c5 (RSP c5 + 8)\<rparr>;
          c7 = c6\<lparr>RCX := words c6 (RSP c6)\<rparr>
      in (SC_RSP_SAVED, dispatch (RDI c7) (RSI c7) (RDX c7) (RCX c7) c7))"

text \<open>The dispatcher gets the number and the three arguments.\<close>

lemma syscall_entry_arguments:
  "\<exists>c'. syscall_entry dispatch k c = (RSP c, dispatch (RAX c) (RDI c) (RSI c) (RDX c) c')
     \<and> RSP c' = k - 40 \<and> RCX c' = RDX c \<and> R11 c' = R11 c"
  by (simp add: syscall_entry_def push_def Let_def) (intro exI conjI, rule refl, simp_all)

text \<open>
  The return: the saved stack pointer, flags and return address are not restored. With a dispatcher that keeps the stack pointer,
  as the calling convention demands, and even one that keeps \<^verbatim>\<open>rcx\<close>, user space continues at the third argument of the call,
  on the kernel stack.
\<close>

lemma syscall_return_state:
  assumes "\<And>nr a0 a1 a2 c. RSP (dispatch nr a0 a1 a2 c) = RSP c" and "\<And>nr a0 a1 a2 c. RCX (dispatch nr a0 a1 a2 c) = RCX c"
  shows "RSP (snd (syscall_entry dispatch k c)) = k - 40" "RCX (snd (syscall_entry dispatch k c)) = RDX c"
  using syscall_entry_arguments [of dispatch k c] assms by auto

section \<open>System calls\<close>

text \<open>
  What a call does for its caller: it returns a value, after a switch to another task when there is one, or it never
  returns. The file system, the ELF parser and the address of the trampoline are read by the calls and never changed.
\<close>

datatype outcome = Returns i64 "(task_ref \<times> task_ref) option" | NoReturn "(task_ref \<times> task_ref) option"

record 'v env =
  elf_parser :: "u8 list \<Rightarrow> elf_file option"
  trampoline :: u64
  VFS_ops :: "'v vnode_ops"
  VFS :: "'v vfs_tree"

definition slice_bytes :: "machine \<Rightarrow> user_slice \<Rightarrow> u8 list option" where
  "slice_bytes m sl = (case sl of Empty \<Rightarrow> Some [] | Raw p n \<Rightarrow> read_list m p (unat n))"

definition sys_yield :: "kernel \<Rightarrow> (outcome \<times> kernel) option" where
  "sys_yield K = do { (sw, s) \<leftarrow> schedule_now (sched K); Some (Returns 0 sw, K\<lparr>sched := s\<rparr>) }"

definition mark_zombie :: "i32 \<Rightarrow> kernel \<Rightarrow> kernel" where
  "mark_zombie code K =
     (case CURRENT_PROCESS K of None \<Rightarrow> K
      | Some r \<Rightarrow> (case bt_get (PROCESS_TABLE K) (pid (procs K r)) of None \<Rightarrow> K
                 | Some q \<Rightarrow> K\<lparr>procs := (procs K)(q := (procs K q)\<lparr>exit_code := code, is_zombie := True\<rparr>)\<rparr>))"

definition sys_exit :: "i32 \<Rightarrow> kernel \<Rightarrow> (outcome \<times> kernel) option" where
  "sys_exit code K =
     (let K1 = mark_zombie code K in
      do { (sw, s) \<leftarrow> exit_current (sched K1); Some (NoReturn sw, K1\<lparr>sched := s\<rparr>) })"

definition write_prefix :: "u8 list" where
  "write_prefix = bytes ''[USERSPACE] ''"

definition sys_write :: "u64 \<Rightarrow> u64 \<Rightarrow> u64 \<Rightarrow> kernel \<Rightarrow> (outcome \<times> kernel) option" where
  "sys_write fd buf_ptr len K =
     (if fd \<noteq> 1 then Some (Returns (- 9) None, K)
      else do {
        r \<leftarrow> validate_user_slice (space (mach K)) buf_ptr len;
        (case r of
           Inl _ \<Rightarrow> Some (Returns (- 14) None, K)
         | Inr sl \<Rightarrow>
             do {
               u1 \<leftarrow> serial_write_bytes (uart0 K) write_prefix;
               bs \<leftarrow> slice_bytes (mach K) sl;
               u2 \<leftarrow> serial_write_bytes u1 bs;
               Some (Returns len None, K\<lparr>uart0 := u2\<rparr>)
             })
      })"

text \<open>The new task's stack, entry point and user stack (the same block in \<^verbatim>\<open>sys_exec\<close> and \<^verbatim>\<open>main.rs\<close>).\<close>

definition prepare_entry :: "u64 \<Rightarrow> process \<Rightarrow> kernel \<Rightarrow> kernel option" where
  "prepare_entry tramp P K =
     do {
       stack_ptr \<leftarrow> checked_sub (kernel_stack_top (tasks (sched K) (main_task P))) 8;
       Some (K\<lparr>stack_words := (stack_words K)(stack_ptr := tramp),
         sched := update_task (sched K) (main_task P)
           (\<lambda>t. t\<lparr>ctxt := (ctxt t)\<lparr>rsp := stack_ptr\<rparr>, user_entry := entry P, user_stack := user_stack_top P\<rparr>)\<rparr>)
     }"

text \<open>\<^verbatim>\<open>Arc::new(process)\<close>, the task into the scheduler and the process into the table.\<close>

definition enter_process :: "process \<Rightarrow> kernel \<Rightarrow> kernel option" where
  "enter_process P K =
     (let r = next_proc K; K1 = K\<lparr>procs := (procs K)(r := P), next_proc := Suc r\<rparr> in
      do {
        s \<leftarrow> add_task (sched K1) (main_task P);
        Some (K1\<lparr>sched := s, PROCESS_TABLE := bt_insert (PROCESS_TABLE K1) (pid P) r\<rparr>)
      })"

definition fill_buffer :: "nat \<Rightarrow> u8 list \<Rightarrow> u8 list" where
  "fill_buffer n bs = bs @ replicate (n - length bs) 0"

definition sys_exec :: "'v env \<Rightarrow> u64 \<Rightarrow> u64 \<Rightarrow> u64 \<Rightarrow> kernel \<Rightarrow> (outcome \<times> kernel) option" where
  "sys_exec E stack_base path_ptr path_len K =
     do {
       r \<leftarrow> validate_user_slice (space (mach K)) path_ptr path_len;
       (case r of Inl _ \<Rightarrow> Some (Returns (- 14) None, K) | Inr sl \<Rightarrow>
         do {
           path_bytes \<leftarrow> slice_bytes (mach K) sl;
           (case from_utf8 path_bytes of None \<Rightarrow> Some (Returns (- 22) None, K) | Some path \<Rightarrow>
             (case lookup (VFS_ops E) (VFS E) path of Inl _ \<Rightarrow> Some (Returns (- 2) None, K) | Inr vnode \<Rightarrow>
               (case vn_stat (VFS_ops E) vnode of Inl _ \<Rightarrow> Some (Returns (- 5) None, K) | Inr st \<Rightarrow>
                 do {
                   rd \<leftarrow> vn_read (VFS_ops E) vnode 0 (unat (st_size st));
                   (case rd of Inl _ \<Rightarrow> Some (Returns (- 5) None, K) | Inr bs \<Rightarrow>
                     (case next_pid K of (p, K1) \<Rightarrow>
                       do {
                         (q, K2) \<leftarrow> from_elf (elf_parser E) (trampoline E) stack_base p
                                     (fill_buffer (unat (st_size st)) bs) K1;
                         (case q of Inl _ \<Rightarrow> Some (Returns (- 12) None, K2) | Inr P \<Rightarrow>
                           do {
                             K3 \<leftarrow> prepare_entry (trampoline E) P K2;
                             K4 \<leftarrow> enter_process P K3;
                             Some (Returns (ucast (pid P)) None, K4)
                           })
                       }))
                 })))
         })
     }"

definition sys_waitpid :: "u64 \<Rightarrow> u64 \<Rightarrow> kernel \<Rightarrow> i64 \<times> kernel" where
  "sys_waitpid pid64 fl K =
     (let wnohang = fl AND 1 \<noteq> 0; p = (ucast pid64 :: u32) in
      case bt_get (PROCESS_TABLE K) p of
        None \<Rightarrow> (- 10, K)
      | Some r \<Rightarrow>
          if is_zombie (procs K r)
          then (scast (exit_code (procs K r)), K\<lparr>PROCESS_TABLE := bt_remove (PROCESS_TABLE K) p\<rparr>)
          else if wnohang then (0, K) else (- 11, K))"

definition syscall_dispatch :: "'v env \<Rightarrow> u64 \<Rightarrow> u64 \<Rightarrow> u64 \<Rightarrow> u64 \<Rightarrow> u64 \<Rightarrow> kernel \<Rightarrow> (outcome \<times> kernel) option" where
  "syscall_dispatch E stack_base nr a0 a1 a2 K =
     (if nr = 0 then sys_yield K
      else if nr = 1 then sys_write a0 a1 a2 K
      else if nr = 2 then sys_exec E stack_base a0 a1 K
      else if nr = 3 then (case sys_waitpid a0 a1 K of (v, K') \<Rightarrow> Some (Returns v None, K'))
      else if nr = 60 then sys_exit (ucast a0) K
      else Some (Returns (- 38) None, K))"

text \<open>Where the trampoline enters user space: the entry point and stack of the current task, or never.\<close>

definition return_to_userspace_trampoline :: "kernel \<Rightarrow> (u64 \<times> u64) option" where
  "return_to_userspace_trampoline K =
     (case CURRENT_TASK (sched K) of None \<Rightarrow> None
      | Some t \<Rightarrow> Some (user_entry (tasks (sched K) t), user_stack (tasks (sched K) t)))"

text \<open>\<^verbatim>\<open>jump_to_userspace\<close>: \<^verbatim>\<open>sysretq\<close> takes the instruction pointer from \<^verbatim>\<open>rcx\<close> and the flags from \<^verbatim>\<open>r11\<close>, without the reserved ones.\<close>

record user_state =
  user_rip :: u64
  user_rflags :: u64
  user_rsp :: u64
  user_rbp :: u64

definition sysretq :: "u64 \<Rightarrow> u64 \<Rightarrow> u64 \<Rightarrow> u64 \<Rightarrow> user_state" where
  "sysretq rcx r11 sp bp = \<lparr>user_rip = rcx, user_rflags = (r11 AND 0x3C7FD7) OR 2, user_rsp = sp, user_rbp = bp\<rparr>"

definition jump_to_userspace :: "u64 \<Rightarrow> u64 \<Rightarrow> user_state" where
  "jump_to_userspace e st = sysretq e 0x3202 st 0"

text \<open>User code starts with interrupts on, and with the I/O privilege level 3: it may access every port.\<close>

lemma jump_to_userspace_flags:
  "user_rip (jump_to_userspace e st) = e" "user_rsp (jump_to_userspace e st) = st"
  "bit (user_rflags (jump_to_userspace e st)) 9" "drop_bit 12 (user_rflags (jump_to_userspace e st)) AND 3 = 3"
  by (simp_all add: jump_to_userspace_def sysretq_def bit_numeral_rec)

section \<open>The first process\<close>

definition create_init :: "'v env \<Rightarrow> u64 \<Rightarrow> u8 list \<Rightarrow> kernel \<Rightarrow> ((process_error \<times> kernel) + kernel) option" where
  "create_init E stack_base elf_data K =
     do {
       (q, K1) \<leftarrow> from_elf (elf_parser E) (trampoline E) stack_base 1 elf_data K;
       (case q of Inl e \<Rightarrow> Some (Inl (e, K1)) | Inr P \<Rightarrow>
         do {
           K2 \<leftarrow> prepare_entry (trampoline E) P K1;
           K3 \<leftarrow> enter_process P K2;
           Some (Inr (K3\<lparr>CURRENT_PROCESS := Some (next_proc K2)\<rparr>))
         })
     }"

text \<open>With the start of the scheduler, which panics, as a failed creation does, in \<open>None\<close>.\<close>

definition start_init :: "'v env \<Rightarrow> u64 \<Rightarrow> u8 list \<Rightarrow> kernel \<Rightarrow> kernel option" where
  "start_init E stack_base elf_data K =
     do {
       r \<leftarrow> create_init E stack_base elf_data K;
       (case r of Inl _ \<Rightarrow> None | Inr K1 \<Rightarrow> do { (to, s) \<leftarrow> start_scheduler (sched K1); Some (K1\<lparr>sched := s\<rparr>) })
     }"

text \<open>Everything that can change the kernel state after that: a system call of some process, or a timer tick.\<close>

inductive kernel_step :: "'v env \<Rightarrow> kernel \<Rightarrow> kernel \<Rightarrow> bool" for E :: "'v env" where
  step_syscall: "syscall_dispatch E stack_base nr a0 a1 a2 K = Some (out, K') \<Longrightarrow> kernel_step E K K'"
| step_timer: "tick_now (sched K) = Some (sw, s) \<Longrightarrow> kernel_step E K (K\<lparr>sched := s\<rparr>)"

lemma rdmsr_wrmsr: "rdmsr (wrmsr m msr v) msr' = (if msr' = msr then v else rdmsr m msr')"
proof -
  have "push_bit 32 (ucast (ucast (drop_bit 32 v) :: u32)) OR ucast (ucast v :: u32) = (v :: u64)"
    by (rule bit_word_eqI) (auto simp: bit_simps)
  then show ?thesis by (simp add: rdmsr_def wrmsr_def)
qed

section \<open>Effects on the process table\<close>

definition spawned :: "kernel \<Rightarrow> kernel \<Rightarrow> bool" where
  "spawned K K' \<longleftrightarrow> (\<exists>P. pid P = NEXT_PID K \<and> \<not> is_zombie P \<and> procs K' = (procs K)(next_proc K := P)
     \<and> next_proc K' = Suc (next_proc K) \<and> CURRENT_PROCESS K' = CURRENT_PROCESS K
     \<and> PROCESS_TABLE K' = bt_insert (PROCESS_TABLE K) (NEXT_PID K) (next_proc K))"

lemma prepare_entry_frame: "prepare_entry tramp P K = Some K' \<Longrightarrow> same_processes K K' \<and> mach K' = mach K"
  by (auto simp: prepare_entry_def same_processes_def bind_intros)

lemma enter_process_spec:
  "enter_process P K = Some K' \<Longrightarrow> procs K' = (procs K)(next_proc K := P) \<and> next_proc K' = Suc (next_proc K)
     \<and> CURRENT_PROCESS K' = CURRENT_PROCESS K \<and> PROCESS_TABLE K' = bt_insert (PROCESS_TABLE K) (pid P) (next_proc K)"
  by (auto simp: enter_process_def Let_def bind_intros)

lemma spawn_spec:
  assumes "from_elf ep tr base p dat K0 = Some (Inr P, K1)" and "prepare_entry tr P K1 = Some K2" and "enter_process P K2 = Some K3"
  shows "pid P = p \<and> \<not> is_zombie P \<and> next_proc K2 = next_proc K0 \<and> procs K3 = (procs K0)(next_proc K0 := P)
    \<and> next_proc K3 = Suc (next_proc K0) \<and> CURRENT_PROCESS K3 = CURRENT_PROCESS K0
    \<and> PROCESS_TABLE K3 = bt_insert (PROCESS_TABLE K0) p (next_proc K0)"
  using from_elf_frame [OF assms(1)] prepare_entry_frame [OF assms(2)] enter_process_spec [OF assms(3)]
  by (simp add: same_processes_def)

lemma sys_exec_effect:
  assumes "sys_exec E base ptr len K = Some (out, K')"
  shows "(\<exists>e \<in> {- 14, - 22, - 2, - 5}. out = Returns e None \<and> K' = K)
    \<or> out = Returns (- 12) None \<and> same_processes (K\<lparr>NEXT_PID := NEXT_PID K + 1\<rparr>) K'
    \<or> out = Returns (ucast (NEXT_PID K)) None \<and> spawned K K'"
proof -
  consider "\<exists>e \<in> {- 14, - 22, - 2, - 5}. out = Returns e None \<and> K' = K"
    | q K2 dat where "from_elf (elf_parser E) (trampoline E) base (NEXT_PID K) dat (K\<lparr>NEXT_PID := NEXT_PID K + 1\<rparr>) = Some (Inl q, K2)"
      "K' = K2" "out = Returns (- 12) None"
    | P K2 K3 dat where "from_elf (elf_parser E) (trampoline E) base (NEXT_PID K) dat (K\<lparr>NEXT_PID := NEXT_PID K + 1\<rparr>) = Some (Inr P, K2)"
      "prepare_entry (trampoline E) P K2 = Some K3" "enter_process P K3 = Some K'" "out = Returns (ucast (pid P)) None"
    using assms unfolding sys_exec_def next_pid_def
    by (auto split: sum.splits option.splits bind_splits)
  then show ?thesis
  proof cases
    case (2 q K2 dat)
    then show ?thesis using from_elf_frame(1) by blast
  next
    case (3 P K2 K3 dat)
    then show ?thesis using spawn_spec [OF 3(1-3)] by (auto simp: spawned_def)
  qed blast
qed

section \<open>Only the first process ends\<close>

definition others_alive :: "kernel \<Rightarrow> bool" where
  "others_alive K \<longleftrightarrow> bt_ok (PROCESS_TABLE K) \<and> distinct (map snd (PROCESS_TABLE K))
     \<and> (\<forall>(p, r) \<in> set (PROCESS_TABLE K). r < next_proc K \<and> (p \<noteq> 1 \<longrightarrow> \<not> is_zombie (procs K r)))
     \<and> (\<exists>r. CURRENT_PROCESS K = Some r \<and> r < next_proc K \<and> pid (procs K r) = 1)"

lemma others_alive_cong:
  "others_alive K \<Longrightarrow> procs K' = procs K \<Longrightarrow> next_proc K' = next_proc K \<Longrightarrow> PROCESS_TABLE K' = PROCESS_TABLE K
    \<Longrightarrow> CURRENT_PROCESS K' = CURRENT_PROCESS K \<Longrightarrow> others_alive K'"
  by (simp add: others_alive_def)

lemma distinct_snd_insert:
  "bt_ok m \<Longrightarrow> distinct (map snd m) \<Longrightarrow> r \<notin> snd ` set m \<Longrightarrow> distinct (map snd (bt_insert m k r))"
proof (induction m)
  case (Cons p m)
  then show ?case by (cases p) (auto simp: bt_insert_Cons set_bt_insert)
qed simp

lemma others_alive_spawned:
  assumes "others_alive K" and "spawned K K'"
  shows "others_alive K'"
proof -
  let ?t = "PROCESS_TABLE K" and ?n = "next_proc K"
  obtain P where P: "pid P = NEXT_PID K" "\<not> is_zombie P" "procs K' = (procs K)(?n := P)" "next_proc K' = Suc ?n"
    "CURRENT_PROCESS K' = CURRENT_PROCESS K" "PROCESS_TABLE K' = bt_insert ?t (NEXT_PID K) ?n"
    using assms(2) unfolding spawned_def by blast
  have old: "bt_ok ?t" "distinct (map snd ?t)" "\<And>p r. (p, r) \<in> set ?t \<Longrightarrow> r < ?n \<and> (p \<noteq> 1 \<longrightarrow> \<not> is_zombie (procs K r))"
    "\<exists>r. CURRENT_PROCESS K = Some r \<and> r < ?n \<and> pid (procs K r) = 1"
    using assms(1) unfolding others_alive_def by blast+
  have "?n \<notin> snd ` set ?t" using old(3) by fastforce
  then have "distinct (map snd (PROCESS_TABLE K'))" unfolding P(6) by (rule distinct_snd_insert [OF old(1,2)])
  moreover have "bt_ok (PROCESS_TABLE K')" unfolding P(6) by (rule bt_ok_insert [OF old(1)])
  moreover have "r < next_proc K' \<and> (p \<noteq> 1 \<longrightarrow> \<not> is_zombie (procs K' r))" if "(p, r) \<in> set (PROCESS_TABLE K')" for p r
    using that old(3) [of p r] unfolding P set_bt_insert [OF old(1)] by (auto simp: P(2))
  moreover obtain c where "CURRENT_PROCESS K = Some c" "c < ?n" "pid (procs K c) = 1" using old(4) by blast
  then have "CURRENT_PROCESS K' = Some c \<and> c < next_proc K' \<and> pid (procs K' c) = 1" by (simp add: P(3-5))
  ultimately show ?thesis unfolding others_alive_def by blast
qed

lemma others_alive_zombie:
  assumes "others_alive K"
  shows "others_alive (mark_zombie code K)"
proof -
  let ?t = "PROCESS_TABLE K"
  have old: "bt_ok ?t" "distinct (map snd ?t)"
    "\<And>p r. (p, r) \<in> set ?t \<Longrightarrow> r < next_proc K \<and> (p \<noteq> 1 \<longrightarrow> \<not> is_zombie (procs K r))"
    using assms unfolding others_alive_def by blast+
  obtain c where c: "CURRENT_PROCESS K = Some c" "c < next_proc K" "pid (procs K c) = 1"
    using assms unfolding others_alive_def by blast
  show ?thesis
  proof (cases "bt_get ?t 1")
    case None
    then show ?thesis using assms c by (simp add: mark_zombie_def)
  next
    case (Some q)
    then have q: "(1, q) \<in> set ?t" using bt_get_Some_set [OF old(1)] by blast
    have "r \<noteq> q" if "(p, r) \<in> set ?t" "p \<noteq> 1" for p r
    proof
      assume "r = q"
      moreover have "inj_on snd (set ?t)" using old(2) by (simp add: distinct_map)
      ultimately have "(p, r) = (1, q)" using that(1) q by (intro inj_onD [of snd "set ?t"]) simp_all
      then show False using that(2) by simp
    qed
    then show ?thesis using Some c old unfolding others_alive_def mark_zombie_def by auto
  qed
qed

lemma others_alive_remove: "others_alive K \<Longrightarrow> others_alive (K\<lparr>PROCESS_TABLE := bt_remove (PROCESS_TABLE K) p\<rparr>)"
  unfolding others_alive_def bt_remove_def by (auto simp: bt_ok_filter distinct_map_filter)

lemma sys_waitpid_effect:
  "snd (sys_waitpid p fl K) = K \<or> snd (sys_waitpid p fl K) = K\<lparr>PROCESS_TABLE := bt_remove (PROCESS_TABLE K) (ucast p)\<rparr>"
  by (simp add: sys_waitpid_def Let_def split: option.split)

lemma sys_write_effect: "sys_write fd ptr len K = Some (out, K') \<Longrightarrow> \<exists>u. K' = K\<lparr>uart0 := u\<rparr>"
  by (auto simp: sys_write_def split: if_splits sum.splits bind_splits intro: exI [of _ "uart0 K"])

lemma dispatch_cases:
  assumes "syscall_dispatch E base nr a0 a1 a2 K = Some (out, K')"
  obtains (yields) "sys_yield K = Some (out, K')" | (writes) "sys_write a0 a1 a2 K = Some (out, K')"
    | (execs) "sys_exec E base a0 a1 K = Some (out, K')" | (waits) "K' = snd (sys_waitpid a0 a1 K)"
    | (exits) "sys_exit (ucast a0) K = Some (out, K')" | (unknown) "K' = K"
  using assms by (auto simp: syscall_dispatch_def split: if_splits prod.splits)

lemma sys_exit_effect: "sys_exit code K = Some (out, K') \<Longrightarrow> \<exists>sc. K' = mark_zombie code K\<lparr>sched := sc\<rparr>"
  by (auto simp: sys_exit_def Let_def bind_intros)

lemma sys_yield_effect: "sys_yield K = Some (out, K') \<Longrightarrow> \<exists>sc. K' = K\<lparr>sched := sc\<rparr>"
  by (auto simp: sys_yield_def bind_intros)

lemma dispatch_others_alive:
  assumes "syscall_dispatch E base nr a0 a1 a2 K = Some (out, K')" and inv: "others_alive K"
  shows "others_alive K'"
  using assms(1)
proof (cases rule: dispatch_cases)
  case yields
  then show ?thesis using inv sys_yield_effect by (fastforce intro: others_alive_cong)
next
  case writes
  then show ?thesis using inv sys_write_effect by (fastforce intro: others_alive_cong)
next
  case execs
  then show ?thesis using inv sys_exec_effect [OF execs] others_alive_spawned
    by (auto simp: same_processes_def intro: others_alive_cong)
next
  case waits
  then show ?thesis using inv others_alive_remove sys_waitpid_effect [of a0 a1 K] by auto
next
  case exits
  then obtain sc where "K' = mark_zombie (ucast a0) K\<lparr>sched := sc\<rparr>" using sys_exit_effect by blast
  then show ?thesis using others_alive_cong [OF others_alive_zombie [OF inv], of K' "ucast a0"] by simp
qed (simp add: inv)

text \<open>A number in the table, other than 1, stays in the table.\<close>

lemma sys_waitpid_keeps:
  assumes "others_alive K" and "(ucast p :: u32) \<noteq> 1"
  shows "sys_waitpid p fl K =
    (if \<not> bt_contains_key (PROCESS_TABLE K) (ucast p) then - 10 else if fl AND 1 \<noteq> 0 then 0 else - 11, K)"
proof -
  have "\<not> is_zombie (procs K r)" if "bt_get (PROCESS_TABLE K) (ucast p) = Some r" for r
    using assms that bt_get_Some_set unfolding others_alive_def by fastforce
  then show ?thesis by (auto simp: sys_waitpid_def Let_def bt_contains_key_get split: option.split)
qed

lemma spawned_table: "spawned K K' \<Longrightarrow> bt_ok (PROCESS_TABLE K) \<Longrightarrow>
  bt_contains_key (PROCESS_TABLE K') q \<longleftrightarrow> q = NEXT_PID K \<or> bt_contains_key (PROCESS_TABLE K) q"
  unfolding spawned_def by (auto simp: bt_contains_key_get bt_get_insert)

lemma mark_zombie_table: "PROCESS_TABLE (mark_zombie code K) = PROCESS_TABLE K"
  by (simp add: mark_zombie_def split: option.split)

lemma dispatch_keeps_children:
  assumes "syscall_dispatch E base nr a0 a1 a2 K = Some (out, K')" and inv: "others_alive K"
    and q: "bt_contains_key (PROCESS_TABLE K) q" "q \<noteq> 1"
  shows "bt_contains_key (PROCESS_TABLE K') q"
  using assms(1)
proof (cases rule: dispatch_cases)
  case yields
  then show ?thesis using q sys_yield_effect by fastforce
next
  case writes
  then show ?thesis using q sys_write_effect by fastforce
next
  case execs
  have "bt_ok (PROCESS_TABLE K)" using inv by (simp add: others_alive_def)
  then show ?thesis using q sys_exec_effect [OF execs] spawned_table [of K K' q] by (auto simp: same_processes_def)
next
  case waits
  show ?thesis
  proof (cases "ucast a0 = (1 :: u32)")
    case True
    then show ?thesis using waits q sys_waitpid_effect [of a0 a1 K] by (auto simp: bt_contains_key_get bt_get_remove)
  next
    case False
    then show ?thesis using waits q sys_waitpid_keeps [OF inv False] by simp
  qed
next
  case exits
  then show ?thesis using q sys_exit_effect [OF exits] mark_zombie_table by fastforce
qed (simp add: q)

lemma kernel_step_keeps_children:
  "kernel_step E K K' \<Longrightarrow> others_alive K \<Longrightarrow> bt_contains_key (PROCESS_TABLE K) q \<Longrightarrow> q \<noteq> 1 \<Longrightarrow> bt_contains_key (PROCESS_TABLE K') q"
  by (induction rule: kernel_step.induct) (auto intro: dispatch_keeps_children)

lemma kernel_step_others_alive: "kernel_step E K K' \<Longrightarrow> others_alive K \<Longrightarrow> others_alive K'"
  by (induction rule: kernel_step.induct) (auto intro: dispatch_others_alive others_alive_cong)

lemma kernel_run_others_alive: "(kernel_step E)\<^sup>*\<^sup>* K K' \<Longrightarrow> others_alive K \<Longrightarrow> others_alive K'"
  by (induction rule: rtranclp_induct) (auto intro: kernel_step_others_alive)

text \<open>The state in which \<^verbatim>\<open>kernel_main\<close> starts the scheduler: one process, number 1, which is the current one.\<close>

definition boot_state :: "kernel \<Rightarrow> bool" where
  "boot_state K \<longleftrightarrow> (\<exists>r. PROCESS_TABLE K = [(1, r)] \<and> CURRENT_PROCESS K = Some r \<and> r < next_proc K \<and> pid (procs K r) = 1)"

lemma create_init_boot_state:
  assumes "create_init E base dat K = Some (Inr K')" and "PROCESS_TABLE K = []"
  shows "boot_state K'"
proof -
  obtain P K1 K2 K3 where "from_elf (elf_parser E) (trampoline E) base 1 dat K = Some (Inr P, K1)"
    "prepare_entry (trampoline E) P K1 = Some K2" "enter_process P K2 = Some K3"
    "K' = K3\<lparr>CURRENT_PROCESS := Some (next_proc K2)\<rparr>"
    using assms(1) unfolding create_init_def by (auto split: bind_splits sum.splits)
  then show ?thesis using spawn_spec [of "elf_parser E" "trampoline E" base 1 dat K P K1 K2 K3] assms(2)
    by (simp add: boot_state_def)
qed

lemma boot_state_sched: "boot_state (K\<lparr>sched := s\<rparr>) = boot_state K"
  by (simp add: boot_state_def)

lemma start_init_boot_state: "start_init E base dat K = Some K' \<Longrightarrow> PROCESS_TABLE K = [] \<Longrightarrow> boot_state K'"
  unfolding start_init_def by (auto simp: boot_state_sched split: bind_splits sum.splits intro: create_init_boot_state)

lemma boot_state_others_alive: "boot_state K \<Longrightarrow> others_alive K"
  by (auto simp: boot_state_def others_alive_def)

text \<open>A process that does end, the one in the table under the current process's number, is reaped with its code.\<close>

lemma exit_then_waitpid:
  assumes "CURRENT_PROCESS K = Some r" and "bt_get (PROCESS_TABLE K) (pid (procs K r)) = Some q"
    and "sys_exit code K = Some (out, K')"
  shows "sys_waitpid (ucast (pid (procs K r))) fl K' =
    (scast code, K'\<lparr>PROCESS_TABLE := bt_remove (PROCESS_TABLE K') (pid (procs K r))\<rparr>)"
    and "fst (sys_waitpid (ucast (pid (procs K r))) fl (snd (sys_waitpid (ucast (pid (procs K r))) fl' K'))) = - 10"
proof -
  let ?p = "pid (procs K r)"
  have id: "(ucast (ucast ?p :: u64) :: u32) = ?p" by (rule bit_word_eqI) (simp add: bit_simps)
  obtain s where K': "K' = (mark_zombie code K)\<lparr>sched := s\<rparr>" using assms(3) by (auto simp: sys_exit_def Let_def bind_intros)
  have z: "PROCESS_TABLE K' = PROCESS_TABLE K" "is_zombie (procs K' q)" "exit_code (procs K' q) = code"
    using assms(1,2) by (simp_all add: K' mark_zombie_def)
  have w: "sys_waitpid (ucast ?p) f K' = (scast code, K'\<lparr>PROCESS_TABLE := bt_remove (PROCESS_TABLE K') ?p\<rparr>)" for f
    using z assms(2) by (simp add: sys_waitpid_def Let_def id)
  show "sys_waitpid (ucast ?p) fl K' = (scast code, K'\<lparr>PROCESS_TABLE := bt_remove (PROCESS_TABLE K') ?p\<rparr>)" by (rule w)
  show "fst (sys_waitpid (ucast ?p) fl (snd (sys_waitpid (ucast ?p) fl' K'))) = - 10"
    unfolding w by (simp add: sys_waitpid_def Let_def id bt_get_remove)
qed

section \<open>A new process in the scheduler\<close>

lemma update_unheld:
  assumes "t \<notin># held_refs s"
  shows "sched_inv (update_task s t f) \<longleftrightarrow> sched_inv s" "runtime_room (update_task s t f) \<longleftrightarrow> runtime_room s"
    "held_refs (update_task s t f) = held_refs s"
proof -
  have t: "\<forall>(k, r) \<in> set (run_queue s). r \<noteq> t" "current s \<noteq> Some t"
    using assms by (force simp: held_refs_def split: option.splits)+
  have sel: "run_queue (s\<lparr>tasks := y\<rparr>) = run_queue s" "tasks (s\<lparr>tasks := y\<rparr>) = y" "current (s\<lparr>tasks := y\<rparr>) = current s"
    "min_vruntime (s\<lparr>tasks := y\<rparr>) = min_vruntime s" for y by simp_all
  have a: "(\<forall>(k, r) \<in> set (run_queue s). vruntime (((tasks s)(t := x)) r) = k) \<longleftrightarrow>
    (\<forall>(k, r) \<in> set (run_queue s). vruntime (tasks s r) = k)" for x using t(1) by (intro ball_cong) auto
  have b: "(\<forall>c. current s = Some c \<longrightarrow> min_vruntime s \<le> vruntime (((tasks s)(t := x)) c)) \<longleftrightarrow>
    (\<forall>c. current s = Some c \<longrightarrow> min_vruntime s \<le> vruntime (tasks s c))" for x using t(2) by auto
  show "sched_inv (update_task s t f) \<longleftrightarrow> sched_inv s"
    unfolding sched_inv_def update_task_def sel a b ..
  show "runtime_room (update_task s t f) \<longleftrightarrow> runtime_room s"
    using t(2) by (auto simp: runtime_room_def update_task_def split: option.splits)
  show "held_refs (update_task s t f) = held_refs s" by (simp add: held_refs_def update_task_def)
qed

lemma add_task_holds:
  assumes "sched_inv s" and "runtime_room s" and "t \<notin># held_refs s"
  shows "\<exists>s' k. add_task s t = Some s' \<and> sched_inv s' \<and> held_refs s' = add_mset t (held_refs s)
    \<and> tasks s' t = (tasks s t)\<lparr>vruntime := k\<rparr>"
proof (cases "current s")
  case None
  moreover have "run_queue s = []" using assms(1) None by (simp add: sched_inv_def)
  ultimately show ?thesis using add_task_first [OF assms(1) None, of t]
    by (intro exI [of _ "s\<lparr>current := Some t\<rparr>"] exI [of _ "vruntime (tasks s t)"]) (simp add: held_refs_def)
next
  case (Some c)
  obtain k s' where a: "add_task s t = Some s'" "sched_inv s'" "current s' = Some c"
    "mset (run_queue s') = add_mset (k, t) (mset (run_queue s))" "tasks s' = (tasks s)(t := (tasks s t)\<lparr>vruntime := k\<rparr>)"
    using add_task_room [OF assms(1,2) Some assms(3)] by blast
  then have "held_refs s' = add_mset t (held_refs s)" using Some by (simp add: held_refs_def)
  then show ?thesis using a by auto
qed

lemma enter_new_process:
  assumes inv: "sched_inv (sched K)" "runtime_room (sched K)" "n \<notin># held_refs (sched K)"
    and K1: "sched K1 = update_task (sched K) n (\<lambda>_. ready_task base p)" and P: "main_task P = n" and base: "8 \<le> kernel_stack_new base"
  shows "\<exists>K2 K3. prepare_entry tr P K1 = Some K2 \<and> enter_process P K2 = Some K3 \<and> mach K3 = mach K1
    \<and> sched_inv (sched K3) \<and> held_refs (sched K3) = add_mset n (held_refs (sched K))
    \<and> user_entry (tasks (sched K3) n) = entry P \<and> user_stack (tasks (sched K3) n) = user_stack_top P
    \<and> state (tasks (sched K3) n) = Ready \<and> stack_words K3 (rsp (ctxt (tasks (sched K3) n))) = tr"
proof -
  have top: "kernel_stack_top (tasks (sched K1) n) = kernel_stack_new base"
    by (simp add: K1 update_task_def ready_task_def task_new_def Let_def)
  define s2 where "s2 = update_task (sched K1) n (\<lambda>t. t\<lparr>ctxt := (ctxt t)\<lparr>rsp := kernel_stack_new base - 8\<rparr>,
    user_entry := entry P, user_stack := user_stack_top P\<rparr>)"
  have "s2 = update_task (sched K) n (\<lambda>_. tasks s2 n)" by (simp add: s2_def K1 update_task_def)
  then obtain s3 k where s3: "add_task s2 n = Some s3" "sched_inv s3" "held_refs s3 = add_mset n (held_refs (sched K))"
    "tasks s3 n = (tasks s2 n)\<lparr>vruntime := k\<rparr>"
    using add_task_holds [of s2 n] update_unheld [OF inv(3)] inv by metis
  have "tasks s2 n = (ready_task base p)\<lparr>ctxt := (ctxt (ready_task base p))\<lparr>rsp := kernel_stack_new base - 8\<rparr>,
    user_entry := entry P, user_stack := user_stack_top P\<rparr>" by (simp add: s2_def K1 update_task_def)
  then show ?thesis using s3 top base
    by (simp add: prepare_entry_def P checked_sub_def enter_process_def Let_def s2_def ready_task_def)
qed

text \<open>The first process: its task enters the program at its entry point, or no page is left.\<close>

lemma create_init_result:
  assumes elf: "elf_parser E dat = Some elf" and ld: "loadable dat elf" and base: "8 \<le> kernel_stack_new base"
    and vm: "vm_inv (space (mach K))" and inv: "sched_inv (sched K)" "runtime_room (sched K)" "held_refs (sched K) = {#}"
  shows "(\<exists>e K1. create_init E base dat K = Some (Inl (e, K1)) \<and> free_page_set (allocator (space (mach K1))) = {})
    \<or> (\<exists>K'. create_init E base dat K = Some (Inr K') \<and> image_of dat elf (mach K') \<and> sched_inv (sched K')
        \<and> held_refs (sched K') = {#next_task K#}
        \<and> user_entry (tasks (sched K') (next_task K)) = entry_point elf + load_offset_of elf
        \<and> user_stack (tasks (sched K') (next_task K)) = 0x08010000
        \<and> state (tasks (sched K') (next_task K)) = Ready
        \<and> stack_words K' (rsp (ctxt (tasks (sched K') (next_task K)))) = trampoline E)"
proof -
  obtain r K1 where r: "from_elf (elf_parser E) (trampoline E) base 1 dat K = Some (r, K1)"
    and c: "case r of Inl e \<Rightarrow> free_page_set (allocator (space (mach K1))) = {} \<and> sched K1 = sched K
     | Inr P \<Rightarrow> entry P = entry_point elf + load_offset_of elf \<and> user_stack_top P = 0x08010000 \<and> image_of dat elf (mach K1)
         \<and> tss_rsp0 K1 = SC_KERNEL_RSP K1 \<and> tasks (sched K1) (main_task P) = ready_task base 1
         \<and> stack_words K1 (rsp (ctxt (ready_task base 1))) = trampoline E"
    using from_elf_builds_process [of "elf_parser E" dat elf, OF elf vm ld base] by blast
  show ?thesis
  proof (cases r)
    case (Inl e)
    then show ?thesis using r c by (simp add: create_init_def)
  next
    case (Inr P)
    then have P: "main_task P = next_task K" "sched K1 = update_task (sched K) (next_task K) (\<lambda>_. ready_task base 1)"
      and im: "image_of dat elf (mach K1)" "entry P = entry_point elf + load_offset_of elf" "user_stack_top P = 0x08010000"
      using from_elf_frame(2) [OF r] c by simp_all
    have "next_task K \<notin># held_refs (sched K)" using inv(3) by simp
    then obtain K2 K3 where "prepare_entry (trampoline E) P K1 = Some K2" "enter_process P K2 = Some K3" "mach K3 = mach K1"
      "sched_inv (sched K3)" "held_refs (sched K3) = add_mset (next_task K) (held_refs (sched K))"
      "user_entry (tasks (sched K3) (next_task K)) = entry P" "user_stack (tasks (sched K3) (next_task K)) = user_stack_top P"
      "state (tasks (sched K3) (next_task K)) = Ready" "stack_words K3 (rsp (ctxt (tasks (sched K3) (next_task K)))) = trampoline E"
      using enter_new_process [OF inv(1,2) _ P(2,1) base] by blast
    then show ?thesis using r Inr im inv(3) by (simp add: create_init_def)
  qed
qed

section \<open>A small kernel for the examples\<close>

definition demo_env :: "nat env" where
  "demo_env = \<lparr>elf_parser = (\<lambda>_. Some demo_elf), trampoline = 0x1234,
     VFS_ops = demo_ops\<lparr>vn_stat := (\<lambda>_. Inr \<lparr>st_size = 3, st_kind = Regular\<rparr>), vn_read := (\<lambda>_ _ _. Some (Inr [0x7F, 0x90, 0xC3]))\<rparr>,
     VFS = mount tree_new ''/'' 1\<rparr>"

lemma demo_translate: "translate demo_mapped 0x600000 = Some 0x600000"
  by (simp add: translate_def descend_child get_table_def demo_mapped_def demo_vm_def active_pml4_def
      demo_tables_def pml4_index_def pdpt_index_def pd_index_def pt_index_def contains_flag_bits flags_def
      from_bits_truncate_def all_flags_eq FRAME_MASK_def)

section \<open>Properties\<close>

text \<open> C26: No child is ever reaped. After boot, whatever system calls and timer ticks follow, in whatever order and
  by whichever process, a \<^verbatim>\<open>waitpid\<close> for a number other than 1 removes nothing: it answers that there is no such
  child, or that it still runs (0 with \<^verbatim>\<open>WNOHANG\<close>, \<^verbatim>\<open>-11\<close> without), since \<^verbatim>\<open>exit\<close> marks the process
  recorded at boot and not the one that calls it.\<close>

theorem waitpid_never_reaps_child:
  assumes "boot_state K0" and "(kernel_step E)\<^sup>*\<^sup>* K0 K" and "(ucast p :: u32) \<noteq> 1"
  shows "sys_waitpid p fl K =
    (if \<not> bt_contains_key (PROCESS_TABLE K) (ucast p) then - 10 else if fl AND 1 \<noteq> 0 then 0 else - 11, K)"
  using sys_waitpid_keeps [OF kernel_run_others_alive [OF assms(2) boot_state_others_alive [OF assms(1)]] assms(3)] .

definition demo_booted :: kernel where
  "demo_booted = demo_kernel\<lparr>procs := (\<lambda>_. (procs demo_kernel 0)\<lparr>pid := 1\<rparr>), next_proc := 1, PROCESS_TABLE := [(1, 0)],
     CURRENT_PROCESS := Some 0\<rparr>"

theorem waitpid_never_reaps_child_witness:
  "\<exists>K. kernel_step demo_env demo_booted K \<and> sys_waitpid 2 0 K = (- 10, K) \<and> is_zombie (procs K 0)"
proof -
  let ?K = "(mark_zombie 7 demo_booted)\<lparr>sched := sched demo_booted\<rparr>"
  have b: "boot_state demo_booted" by (simp add: boot_state_def demo_booted_def)
  have x: "exit_current (sched demo_booted) = Some (None, sched demo_booted)"
    by (simp add: demo_booted_def demo_kernel_def exit_current_def schedule_locked_def scheduler_new_def)
  have z: "sched (mark_zombie 7 demo_booted) = sched demo_booted" "is_zombie (procs ?K 0)" "PROCESS_TABLE ?K = [(1, 0)]"
    by (simp_all add: mark_zombie_def demo_booted_def bt_get_def)
  then have st: "kernel_step demo_env demo_booted ?K"
    using step_syscall [of demo_env 0 60 7 0 0 demo_booted "NoReturn None" ?K] x
    by (simp add: syscall_dispatch_def sys_exit_def)
  then show ?thesis using waitpid_never_reaps_child [OF b, of demo_env ?K 2 0] z r_into_rtranclp [of "kernel_step demo_env", OF st]
    by (auto simp: bt_contains_key_def)
qed

lemma read_list_mapped:
  "\<forall>i < n. translate (space k) (a + of_nat i) \<noteq> None \<Longrightarrow>
   \<exists>bs. read_list k a n = Some bs \<and> length bs = n \<and> (\<forall>i < n. read_byte k (a + of_nat i) = Some (bs ! i))"
proof (induction n arbitrary: a)
  case (Suc n)
  obtain b where b: "read_byte k a = Some b" using Suc.prems [rule_format, of 0] by (auto simp: read_byte_def)
  have "\<forall>i < n. translate (space k) ((a + 1) + of_nat i) \<noteq> None"
  proof (intro allI impI)
    fix i assume "i < n"
    then show "translate (space k) ((a + 1) + of_nat i) \<noteq> None"
      using Suc.prems [rule_format, of "Suc i"] by (simp add: add.assoc)
  qed
  then obtain bs where bs: "read_list k (a + 1) n = Some bs" "length bs = n"
    "\<forall>i < n. read_byte k ((a + 1) + of_nat i) = Some (bs ! i)" using Suc.IH by blast
  have "read_byte k (a + of_nat i) = Some ((b # bs) ! i)" if "i < Suc n" for i
    using that b bs(3) by (cases i) (simp_all add: add.assoc)
  then show ?case using b bs(1,2) by auto
qed simp

definition user_readable :: "machine \<Rightarrow> u64 \<Rightarrow> u64 \<Rightarrow> bool" where
  "user_readable m ptr len \<longleftrightarrow> ptr \<noteq> 0 \<and> (len \<noteq> 0 \<longrightarrow> unat ptr + unat len \<le> 2 ^ 47
     \<and> (\<forall>b. unat ptr \<le> b \<and> b < unat ptr + unat len \<longrightarrow> translate (space m) (of_nat b) \<noteq> None))"

lemma validated_slice:
  assumes "user_readable m ptr len"
  shows "\<exists>sl bs. validate_user_slice (space m) ptr len = Some (Inr sl) \<and> slice_bytes m sl = Some bs \<and> length bs = unat len
    \<and> (\<forall>i < unat len. read_byte m (ptr + of_nat i) = Some (bs ! i))"
proof (cases "len = 0")
  case True
  then show ?thesis using assms by (simp add: user_readable_def validate_user_slice_eq slice_bytes_def)
next
  case False
  have "translate (space m) (ptr + of_nat i) \<noteq> None" if "i < unat len" for i
  proof -
    have "ptr + of_nat i = of_nat (unat ptr + i)" by simp
    then show ?thesis using assms False that unfolding user_readable_def by (metis add_less_cancel_left le_add1)
  qed
  then obtain bs where "read_list m ptr (unat len) = Some bs" "length bs = unat len"
    "\<forall>i < unat len. read_byte m (ptr + of_nat i) = Some (bs ! i)" using read_list_mapped by blast
  then show ?thesis using assms False
    by (auto simp: user_readable_def validate_user_slice_eq slice_bytes_def intro!: exI [of _ "Raw ptr len"])
qed

lemma refused_slice: "\<not> user_readable m ptr len \<Longrightarrow> \<exists>e. validate_user_slice (space m) ptr len = Some (Inl e)"
  by (auto simp: user_readable_def validate_user_slice_eq)

lemma sys_write_result:
  assumes "drains (uart0 K)"
  shows "if fd \<noteq> 1 then sys_write fd ptr len K = Some (Returns (- 9) None, K)
    else if \<not> user_readable (mach K) ptr len then sys_write fd ptr len K = Some (Returns (- 14) None, K)
    else \<exists>u bs. sys_write fd ptr len K = Some (Returns len None, K\<lparr>uart0 := u\<rparr>) \<and> length bs = unat len
      \<and> (\<forall>i < unat len. read_byte (mach K) (ptr + of_nat i) = Some (bs ! i)) \<and> transmitted (uart0 K) u (write_prefix @ bs)"
proof (cases "user_readable (mach K) ptr len")
  case False
  then show ?thesis using refused_slice [OF False] by (auto simp: sys_write_def)
next
  case True
  obtain sl bs where sl: "validate_user_slice (space (mach K)) ptr len = Some (Inr sl)" "slice_bytes (mach K) sl = Some bs"
    "length bs = unat len" "\<forall>i < unat len. read_byte (mach K) (ptr + of_nat i) = Some (bs ! i)" using validated_slice [OF True] by blast
  obtain u where u: "serial_write_bytes (uart0 K) (write_prefix @ bs) = Some u" "transmitted (uart0 K) u (write_prefix @ bs)"
    using serial_write_bytes_ok [OF assms] by blast
  then have "sys_write 1 ptr len K = Some (Returns len None, K\<lparr>uart0 := u\<rparr>)"
    using sl(1,2) by (auto simp: sys_write_def serial_write_bytes_append bind_intros)
  then show ?thesis using True sl(3,4) u(2) by (auto simp: sys_write_def)
qed


text \<open>The user's path names a readable file with these bytes.\<close>

definition names_file :: "'v env \<Rightarrow> machine \<Rightarrow> u64 \<Rightarrow> u64 \<Rightarrow> u8 list \<Rightarrow> bool" where
  "names_file E m ptr len dat \<longleftrightarrow> (\<exists>sl pb path vnode st.
     validate_user_slice (space m) ptr len = Some (Inr sl) \<and> slice_bytes m sl = Some pb \<and> from_utf8 pb = Some path
     \<and> lookup (VFS_ops E) (VFS E) path = Inr vnode \<and> vn_stat (VFS_ops E) vnode = Inr st
     \<and> vn_read (VFS_ops E) vnode 0 (unat (st_size st)) = Some (Inr dat) \<and> length dat = unat (st_size st))"

definition kernel_ok :: "kernel \<Rightarrow> bool" where
  "kernel_ok K \<longleftrightarrow> vm_inv (space (mach K)) \<and> sched_inv (sched K) \<and> runtime_room (sched K)
     \<and> next_task K \<notin># held_refs (sched K) \<and> bt_ok (PROCESS_TABLE K)"

lemma sys_exec_file:
  assumes "names_file E (mach K) ptr len dat"
  shows "sys_exec E base ptr len K =
    do {
      (q, K2) \<leftarrow> from_elf (elf_parser E) (trampoline E) base (NEXT_PID K) dat (K\<lparr>NEXT_PID := NEXT_PID K + 1\<rparr>);
      (case q of Inl _ \<Rightarrow> Some (Returns (- 12) None, K2) | Inr P \<Rightarrow>
        do { K3 \<leftarrow> prepare_entry (trampoline E) P K2; K4 \<leftarrow> enter_process P K3; Some (Returns (ucast (pid P)) None, K4) })
    }"
  using assms unfolding names_file_def by (elim exE conjE) (simp add: sys_exec_def next_pid_def fill_buffer_def)

lemma exec_spawns:
  assumes nf: "names_file E (mach K) ptr len dat" and elf: "elf_parser E dat = Some elf" and ld: "loadable dat elf"
    and ok: "kernel_ok K" and base: "8 \<le> kernel_stack_new base"
  shows "\<exists>v K'. sys_exec E base ptr len K = Some (Returns v None, K') \<and>
    (v = - 12 \<and> free_page_set (allocator (space (mach K'))) = {} \<and> PROCESS_TABLE K' = PROCESS_TABLE K \<and> sched K' = sched K
     \<or> v = ucast (NEXT_PID K) \<and> image_of dat elf (mach K') \<and> sched_inv (sched K')
       \<and> held_refs (sched K') = add_mset (next_task K) (held_refs (sched K))
       \<and> (\<exists>r. \<not> is_zombie (procs K' r) \<and> main_task (procs K' r) = next_task K
            \<and> bt_get (PROCESS_TABLE K') = (bt_get (PROCESS_TABLE K))(NEXT_PID K \<mapsto> r))
       \<and> state (tasks (sched K') (next_task K)) = Ready
       \<and> user_entry (tasks (sched K') (next_task K)) = entry_point elf + load_offset_of elf
       \<and> user_stack (tasks (sched K') (next_task K)) = 0x08010000
       \<and> stack_words K' (rsp (ctxt (tasks (sched K') (next_task K)))) = trampoline E)"
proof -
  let ?K0 = "K\<lparr>NEXT_PID := NEXT_PID K + 1\<rparr>" and ?p = "NEXT_PID K" and ?n = "next_task K"
  have inv: "vm_inv (space (mach ?K0))" "sched_inv (sched K)" "runtime_room (sched K)" "?n \<notin># held_refs (sched K)" "bt_ok (PROCESS_TABLE K)"
    using ok by (simp_all add: kernel_ok_def)
  obtain r K1 where r: "from_elf (elf_parser E) (trampoline E) base ?p dat ?K0 = Some (r, K1)"
    and c: "case r of Inl e \<Rightarrow> free_page_set (allocator (space (mach K1))) = {} \<and> sched K1 = sched ?K0
     | Inr P \<Rightarrow> entry P = entry_point elf + load_offset_of elf \<and> user_stack_top P = 0x08010000 \<and> image_of dat elf (mach K1)
         \<and> tss_rsp0 K1 = SC_KERNEL_RSP K1 \<and> tasks (sched K1) (main_task P) = ready_task base ?p
         \<and> stack_words K1 (rsp (ctxt (ready_task base ?p))) = trampoline E"
    using from_elf_builds_process [of "elf_parser E" dat elf, OF elf inv(1) ld base] by blast
  note fr = from_elf_frame [OF r]
  show ?thesis
  proof (cases r)
    case (Inl e)
    then show ?thesis using r c fr by (simp add: sys_exec_file [OF nf] same_processes_def)
  next
    case (Inr P)
    then have P: "main_task P = ?n" "pid P = ?p" "sched K1 = update_task (sched K) ?n (\<lambda>_. ready_task base ?p)"
      and im: "image_of dat elf (mach K1)" "entry P = entry_point elf + load_offset_of elf" "user_stack_top P = 0x08010000"
      using fr(2) c by simp_all
    obtain K2 K3 where K3: "prepare_entry (trampoline E) P K1 = Some K2" "enter_process P K2 = Some K3" and m3: "mach K3 = mach K1"
      and q: "sched_inv (sched K3)" "held_refs (sched K3) = add_mset ?n (held_refs (sched K))"
        "user_entry (tasks (sched K3) ?n) = entry P" "user_stack (tasks (sched K3) ?n) = user_stack_top P"
        "state (tasks (sched K3) ?n) = Ready" "stack_words K3 (rsp (ctxt (tasks (sched K3) ?n))) = trampoline E"
      using enter_new_process [OF inv(2-4) P(3,1) base] by blast
    have "\<not> is_zombie (procs K3 (next_proc K)) \<and> main_task (procs K3 (next_proc K)) = ?n
        \<and> bt_get (PROCESS_TABLE K3) = (bt_get (PROCESS_TABLE K))(?p \<mapsto> next_proc K)"
      using spawn_spec [OF r [unfolded Inr] K3] P(1) by (simp add: fun_eq_iff bt_get_insert [OF inv(5)])
    moreover have "sys_exec E base ptr len K = Some (Returns (ucast ?p) None, K3)"
      using r Inr K3 P(2) by (simp add: sys_exec_file [OF nf])
    ultimately show ?thesis using q im m3 by auto
  qed
qed


lemma demo_kernel_simps:
  "mach demo_kernel = demo_machine" "space demo_machine = demo_mapped" "ram demo_machine a = 7" "NEXT_PID demo_kernel = 2"
  by (simp_all add: demo_kernel_def demo_machine_def)

lemma demo_readable: "user_readable demo_machine 0x600000 1" "read_byte demo_machine 0x600000 = Some 7"
proof -
  have "translate demo_mapped (of_nat b) \<noteq> None" if "0x600000 \<le> b" "b < 0x600001" for b
  proof -
    have "b = 0x600000" using that by simp
    then show ?thesis using demo_translate by simp
  qed
  then show "user_readable demo_machine 0x600000 1" by (simp add: user_readable_def demo_kernel_simps)
  show "read_byte demo_machine 0x600000 = Some 7" by (simp add: read_byte_def demo_kernel_simps demo_translate)
qed


lemma demo_names_file: "names_file demo_env demo_machine 0x600000 1 [0x7F, 0x90, 0xC3]"
proof -
  have "\<exists>sl bs. validate_user_slice (space demo_machine) 0x600000 1 = Some (Inr sl) \<and> slice_bytes demo_machine sl = Some bs
    \<and> length bs = 1 \<and> (\<forall>i < 1. read_byte demo_machine (0x600000 + of_nat i) = Some (bs ! i))"
    using validated_slice [OF demo_readable(1)] by simp
  then obtain sl b where sl: "validate_user_slice (space demo_machine) 0x600000 1 = Some (Inr sl)" "slice_bytes demo_machine sl = Some [b]"
    "read_byte demo_machine 0x600000 = Some b" by (auto simp: length_Suc_conv)
  then have "b = 7" using demo_readable(2) by simp
  moreover have "from_utf8 [7] = Some [char_of (7::nat)]" by (simp add: from_utf8_def to_str_def)
  moreover have "\<exists>v. lookup (VFS_ops demo_env) (VFS demo_env) [char_of (7::nat)] = Inr v"
    by (simp add: demo_env_def demo_ops_def lookup_def normalize_path_def pop_trailing_def slash_def find_mount_point_def
        mount_def tree_new_def starts_with_def char_of_def Let_def)
  ultimately show ?thesis using sl(1,2) unfolding names_file_def by (auto simp: demo_env_def)
qed

lemma demo_loadable: "loadable [0x7F, 0x90, 0xC3] demo_elf"
proof -
  have h: "seg_ok [0x7F, 0x90, 0xC3] 0 demo_header" "seg_pages 0 demo_header \<inter> stack_pages = {}"
    by (simp_all add: seg_start_def demo_header_def seg_ok_def seg_pages_def stack_pages_def)
  have e: "load_offset_of demo_elf = 0" "loads (program_iter demo_elf) = [demo_header]" "entry_point demo_elf = 0x405000"
    by (simp_all add: load_offset_of_def first_load_vaddr_def demo_elf_def demo_header_def)
  show ?thesis using h by (simp add: loadable_def Let_def e apart_def)
qed

lemma demo_parts:
  "sched demo_kernel = scheduler_new (\<lambda>_. task_new 0 1 0)" "next_task demo_kernel = 0" "PROCESS_TABLE demo_kernel = []"
  "elf_parser demo_env dat = Some demo_elf" "8 \<le> kernel_stack_new 0x200000" "held_refs (sched demo_kernel) = {#}"
  by (simp_all add: demo_kernel_def demo_env_def kernel_stack_new_def STACK_SIZE_def held_refs_def scheduler_new_def)

lemma demo_kernel_ok: "kernel_ok demo_kernel"
proof -
  have "next_task demo_kernel \<notin># held_refs (sched demo_kernel)" unfolding demo_parts(6) by simp
  moreover have "sched_inv (sched demo_kernel)" "runtime_room (sched demo_kernel)"
    using sched_inv_new by (simp_all add: demo_parts(1)) (simp add: runtime_room_def scheduler_new_def)
  ultimately show ?thesis by (simp add: kernel_ok_def demo_parts(3) demo_kernel_simps demo_mapped_inv)
qed


end
