(* ===== verification/Idt.thy ===== *)
theory Idt
  imports Prelude
begin

text \<open>
  Interrupt set-up: the interrupt descriptor table (\<^verbatim>\<open>hammam/src/interrupts.rs\<close>) and the legacy interrupt controllers
  (\<^verbatim>\<open>hammam/src/arch/x86_64/pic.rs\<close>). The theory shows that the processor reads back the handlers the code installs, and what
  state the two controllers are in after the commands of \<^verbatim>\<open>remap\<close> and \<^verbatim>\<open>disable\<close>, over a description of how an 8259
  interprets its command words.
\<close>

section \<open>The interrupt descriptor table\<close>

record idt_entry =
  offset_low :: u16
  gate_selector :: u16
  ist :: u8
  gate_flags :: u8
  offset_mid :: u16
  offset_high :: u32
  gate_reserved :: u32

record idtr =
  idtr_limit :: u16
  idtr_base :: u64

definition empty_entry :: idt_entry where
  "empty_entry = \<lparr>offset_low = 0, gate_selector = 0, ist = 0, gate_flags = 0, offset_mid = 0, offset_high = 0, gate_reserved = 0\<rparr>"

text \<open>The entry both functions build.\<close>

definition idt_gate :: "u64 \<Rightarrow> u8 \<Rightarrow> idt_entry" where
  "idt_gate handler ist_no =
     \<lparr>offset_low = ucast (handler AND 0xFFFF), gate_selector = 0x08, ist = ist_no, gate_flags = 0xEE,
      offset_mid = ucast (drop_bit 16 handler AND 0xFFFF), offset_high = ucast (drop_bit 32 handler AND 0xFFFFFFFF), gate_reserved = 0\<rparr>"

text \<open>\<open>handler_addr\<close> and \<open>idt_ptr\<close> are the addresses of the dummy handler and of the table.\<close>

definition init_idt :: "u64 \<Rightarrow> u64 \<Rightarrow> idt_entry list \<Rightarrow> idt_entry list \<times> idtr" where
  "init_idt handler_addr idt_ptr IDT =
     (fold (\<lambda>i t. t[i := idt_gate handler_addr 0]) [0 ..< 256] IDT,
      \<lparr>idtr_limit = of_nat (16 * 256 - 1), idtr_base = idt_ptr\<rparr>)"

definition set_idt_entry :: "u8 \<Rightarrow> u64 \<Rightarrow> u8 \<Rightarrow> idt_entry list \<Rightarrow> idt_entry list" where
  "set_idt_entry vector handler ist_no IDT = IDT[unat vector := idt_gate handler ist_no]"

text \<open>What the processor takes from a gate: the address of the handler, the privilege level that may raise it, whether it is a present
  interrupt gate.\<close>

definition gate_offset :: "idt_entry \<Rightarrow> u64" where
  "gate_offset e = ucast (offset_low e) OR push_bit 16 (ucast (offset_mid e)) OR push_bit 32 (ucast (offset_high e))"

definition gate_dpl :: "idt_entry \<Rightarrow> nat" where
  "gate_dpl e = unat (drop_bit 5 (gate_flags e) AND 3)"

definition gate_present :: "idt_entry \<Rightarrow> bool" where
  "gate_present e \<longleftrightarrow> bit (gate_flags e) 7 \<and> gate_flags e AND 0x1F = 0xE"

lemma gate_offset_roundtrip: "gate_offset (idt_gate handler n) = handler"
proof (rule bit_word_eqI)
  fix k assume k: "k < LENGTH(64)"
  have m: "(0xFFFF :: u64) = mask 16" "(0xFFFFFFFF :: u64) = mask 32" by (simp_all add: mask_eq_exp_minus_1)
  consider "k < 16" | "16 \<le> k" "k < 32" | "32 \<le> k" by linarith
  then show "bit (gate_offset (idt_gate handler n)) k = bit handler k"
  proof cases
    case 1
    then show ?thesis unfolding gate_offset_def idt_gate_def m by (simp add: bit_simps)
  next
    case 2
    then have "k - 16 < 16" by linarith
    then show ?thesis using 2 unfolding gate_offset_def idt_gate_def m by (simp add: bit_simps)
  next
    case 3
    then have "k - 32 < 32" "\<not> k - 16 < 16" using k by auto
    then show ?thesis using 3 k unfolding gate_offset_def idt_gate_def m by (simp add: bit_simps)
  qed
qed

lemma gate_level: "gate_dpl (idt_gate handler n) = 3" "gate_present (idt_gate handler n)"
  by (simp_all add: gate_dpl_def gate_present_def idt_gate_def)

lemma fold_fill: "n \<le> length t \<Longrightarrow> fold (\<lambda>i t. t[i := x]) [0 ..< n] t = replicate n x @ drop n t"
proof (induction n)
  case (Suc n)
  then have "drop n t = t ! n # drop (Suc n) t" by (simp add: Cons_nth_drop_Suc)
  then show ?case using Suc by (simp add: list_update_append replicate_append_same)
qed simp

text \<open> C34: After \<^verbatim>\<open>init_idt\<close> and any sequence of \<^verbatim>\<open>set_idt_entry\<close>, each of the 256 vectors is a present interrupt gate through which the
  processor reaches the handler installed last for it, on the interrupt stack given with it, and the dummy handler where none
  was installed. Every gate can be raised by user code.\<close>

theorem idt_dispatches:
  assumes "length IDT0 = 256"
  shows "let (t0, r) = init_idt dummy idt_ptr IDT0; t = fold (\<lambda>(v, h, i) t. set_idt_entry v h i t) sets t0; e = t ! unat v
    in idtr_limit r = 4095 \<and> length t = 256 \<and> gate_present e \<and> gate_dpl e = 3
      \<and> (gate_offset e, ist e) = (case find (\<lambda>(w, h, i). w = v) (rev sets) of None \<Rightarrow> (dummy, 0) | Some (w, h, i) \<Rightarrow> (h, i))"
proof -
  let ?z = "replicate 256 (idt_gate dummy 0)"
  let ?t = "\<lambda>sets. fold (\<lambda>(v, h, i) t. set_idt_entry v h i t) sets ?z"
  have init: "init_idt dummy idt_ptr IDT0 = (?z, \<lparr>idtr_limit = 4095, idtr_base = idt_ptr\<rparr>)"
    using fold_fill [of 256 IDT0 "idt_gate dummy 0"] assms by (simp add: init_idt_def)
  have v: "unat w < 256" for w :: u8 using unsigned_less [of w, where 'a = nat] by simp
  have "length (?t sets) = 256 \<and> ?t sets ! unat v =
    (case find (\<lambda>(w, h, i). w = v) (rev sets) of None \<Rightarrow> idt_gate dummy 0 | Some (w, h, i) \<Rightarrow> idt_gate h i)"
  proof (induction sets rule: rev_induct)
    case Nil
    then show ?case using v [of v] by simp
  next
    case (snoc x sets)
    obtain w h i where x: "x = (w, h, i)" by (cases x)
    have "w \<noteq> v \<Longrightarrow> unat w \<noteq> unat v" by (simp add: word_unat_eq_iff)
    then show ?case using snoc v [of v] by (auto simp: x set_idt_entry_def split: option.splits prod.splits)
  qed
  then show ?thesis unfolding init
    by (auto simp: gate_level gate_offset_roundtrip split: option.splits prod.splits) (simp_all add: idt_gate_def)
qed

theorem idt_dispatches_witness:
  "let (t0, r) = init_idt 0x200000 0x300000 (replicate 256 empty_entry); t = set_idt_entry 32 0xFFFF800012345678 1 t0
    in gate_offset (t ! 32) = 0xFFFF800012345678 \<and> ist (t ! 32) = 1 \<and> gate_dpl (t ! 32) = 3"
  using idt_dispatches [of "replicate 256 empty_entry" "0x200000" "0x300000" "[(32, 0xFFFF800012345678, 1)]" 32]
  by (simp add: Let_def split: prod.splits)

section \<open>The legacy interrupt controllers\<close>

definition PIC1_CMD :: u16 where "PIC1_CMD = 0x20"
definition PIC1_DATA :: u16 where "PIC1_DATA = 0x21"
definition PIC2_CMD :: u16 where "PIC2_CMD = 0xA0"
definition PIC2_DATA :: u16 where "PIC2_DATA = 0xA1"
definition PIC1_OFFSET :: u8 where "PIC1_OFFSET = 0x20"
definition PIC2_OFFSET :: u8 where "PIC2_OFFSET = 0x28"

text \<open>The byte writes of the functions, in order; \<open>inb\<close> answers the mask registers.\<close>

definition pic_remap :: "(u16 \<Rightarrow> u8) \<Rightarrow> (u16 \<times> u8) list" where
  "pic_remap inb =
     (let mask1 = inb PIC1_DATA; mask2 = inb PIC2_DATA in
      [(PIC1_CMD, 0x11), (PIC2_CMD, 0x11), (PIC1_DATA, PIC1_OFFSET), (PIC2_DATA, PIC2_OFFSET), (PIC1_DATA, 0x04), (PIC2_DATA, 0x02),
       (PIC1_DATA, 0x01), (PIC2_DATA, 0x01), (PIC1_DATA, mask1), (PIC2_DATA, mask2)])"

definition pic_disable :: "(u16 \<times> u8) list" where
  "pic_disable = [(PIC1_DATA, 0xFF), (PIC2_DATA, 0xFF)]"

definition send_eoi :: "u8 \<Rightarrow> (u16 \<times> u8) list" where
  "send_eoi irq = (if 8 \<le> irq then [(PIC2_CMD, 0x20)] else []) @ [(PIC1_CMD, 0x20)]"

text \<open>An 8259: a command word with bit 4 set starts the initialisation, which takes three data words (vector offset, cascade, mode) since
  bits 0 and 1 ask for the last one; data words outside of it set the mask.\<close>

record pic8259 =
  pic_offset :: u8
  pic_cascade :: u8
  pic_mode :: u8
  pic_mask :: u8
  pic_expect :: nat

definition pic_command :: "u8 \<Rightarrow> pic8259 \<Rightarrow> pic8259" where
  "pic_command b p = (if bit b 4 then p\<lparr>pic_mask := 0, pic_expect := 3\<rparr> else p)"

definition pic_data :: "u8 \<Rightarrow> pic8259 \<Rightarrow> pic8259" where
  "pic_data b p =
     (if pic_expect p = 3 then p\<lparr>pic_offset := b, pic_expect := 2\<rparr>
      else if pic_expect p = 2 then p\<lparr>pic_cascade := b, pic_expect := 1\<rparr>
      else if pic_expect p = 1 then p\<lparr>pic_mode := b, pic_expect := 0\<rparr>
      else p\<lparr>pic_mask := b\<rparr>)"

definition pics_out :: "u16 \<times> u8 \<Rightarrow> pic8259 \<times> pic8259 \<Rightarrow> pic8259 \<times> pic8259" where
  "pics_out w ps =
     (if fst w = 0x20 then (pic_command (snd w) (fst ps), snd ps)
      else if fst w = 0x21 then (pic_data (snd w) (fst ps), snd ps)
      else if fst w = 0xA0 then (fst ps, pic_command (snd w) (snd ps))
      else if fst w = 0xA1 then (fst ps, pic_data (snd w) (snd ps))
      else ps)"

lemmas pic_defs = PIC1_CMD_def PIC1_DATA_def PIC2_CMD_def PIC2_DATA_def PIC1_OFFSET_def PIC2_OFFSET_def
  pic_remap_def pic_disable_def pics_out_def pic_command_def pic_data_def

text \<open>\<^verbatim>\<open>remap\<close> moves the sixteen lines to the vectors 32 to 47, behind the exceptions, with the slave on line 2, and restores the masks;
  \<^verbatim>\<open>disable\<close> then masks all of them.\<close>

lemma remap_moves_vectors:
  assumes "inb 0x21 = pic_mask p1" "inb 0xA1 = pic_mask p2"
  shows "fold pics_out (pic_remap inb) (p1, p2) =
      (\<lparr>pic_offset = 32, pic_cascade = 4, pic_mode = 1, pic_mask = pic_mask p1, pic_expect = 0\<rparr>,
       \<lparr>pic_offset = 40, pic_cascade = 2, pic_mode = 1, pic_mask = pic_mask p2, pic_expect = 0\<rparr>)"
    "fold pics_out (pic_remap inb @ pic_disable) (p1, p2) =
      (\<lparr>pic_offset = 32, pic_cascade = 4, pic_mode = 1, pic_mask = 0xFF, pic_expect = 0\<rparr>,
       \<lparr>pic_offset = 40, pic_cascade = 2, pic_mode = 1, pic_mask = 0xFF, pic_expect = 0\<rparr>)"
  using assms by (cases p1; cases p2; simp add: pic_defs)+

end
