(* ===== verification/Madt.thy ===== *)
theory Madt
  imports Mem
begin

text \<open>
  The ACPI tables that describe the processors (\<^verbatim>\<open>hammam/src/acpi/madt.rs\<close>): the root pointer, the root and extended
  root tables, the MADT, and the two iterators over its entries. Lengths are 32-bit fields of the tables, so offsets
  into a table are natural numbers below \<open>2 ^ 33\<close> and no \<^verbatim>\<open>usize\<close> sum wraps; sums of addresses are checked.
\<close>

section \<open>Layout\<close>

definition ascii :: "string \<Rightarrow> u8 list" where
  "ascii s = map of_char s"

definition RSDP_SIGNATURE :: "u8 list" where "RSDP_SIGNATURE = ascii ''RSD PTR ''"
definition MADT_SIGNATURE :: "u8 list" where "MADT_SIGNATURE = ascii ''APIC''"
definition RSDT_SIGNATURE :: "u8 list" where "RSDT_SIGNATURE = ascii ''RSDT''"
definition XSDT_SIGNATURE :: "u8 list" where "XSDT_SIGNATURE = ascii ''XSDT''"
definition SDT_HEADER_SIZE :: nat where "SDT_HEADER_SIZE = 36"
definition MADT_FIXED_HEADER_SIZE :: nat where "MADT_FIXED_HEADER_SIZE = SDT_HEADER_SIZE + 8"

text \<open>\<^verbatim>\<open>size_of\<close> of the two root pointer structures: the second holds a \<^verbatim>\<open>u64\<close> and is padded to a multiple of eight.\<close>

definition RSDP_V1_SIZE :: nat where "RSDP_V1_SIZE = 20"
definition RSDP_V2_SIZE :: nat where "RSDP_V2_SIZE = 40"

record rsdp_v1 =
  v1_rsdt_address :: u32

record rsdp_v2 =
  v2_rsdt_address :: u32
  v2_length :: u32
  v2_xsdt_address :: u64

record sdt_header =
  sdt_signature :: "u8 list"
  sdt_length :: u32

record local_apic =
  processor_id :: u8
  apic_id :: u8
  la_flags :: u32

record io_apic =
  io_apic_id :: u8
  io_address :: u32
  gsi_base :: u32

record madt =
  local_apic_address :: u32
  madt_flags :: u32
  entries_ptr :: u64
  entries_len :: nat

record rsdp_info =
  rsdt_address :: u64
  xsdt_address :: "u64 option"

text \<open>\<^verbatim>\<open>read_struct\<close> of the fields that the code reads, at their offsets.\<close>

definition read_rsdp_v1 :: "memory \<Rightarrow> u64 \<Rightarrow> rsdp_v1" where
  "read_rsdp_v1 m a = \<lparr>v1_rsdt_address = load_u32 m (a + 16)\<rparr>"

definition read_rsdp_v2 :: "memory \<Rightarrow> u64 \<Rightarrow> rsdp_v2" where
  "read_rsdp_v2 m a = \<lparr>v2_rsdt_address = load_u32 m (a + 16), v2_length = load_u32 m (a + 20),
     v2_xsdt_address = load_u64 m (a + 24)\<rparr>"

definition read_sdt_header :: "memory \<Rightarrow> u64 \<Rightarrow> sdt_header" where
  "read_sdt_header m a = \<lparr>sdt_signature = load_bytes m a 4, sdt_length = load_u32 m (a + 4)\<rparr>"

definition checksum :: "memory \<Rightarrow> u64 \<Rightarrow> nat \<Rightarrow> bool" where
  "checksum m a n \<longleftrightarrow> foldl (\<lambda>acc b. acc + b) 0 (load_bytes m a n) = 0"

section \<open>Finding the table\<close>

definition read_rsdp :: "memory \<Rightarrow> u64 \<Rightarrow> rsdp_info option option" where
  "read_rsdp m addr =
     (if load_bytes m addr 8 \<noteq> RSDP_SIGNATURE then Some None
      else do {
        rev_addr \<leftarrow> checked_add addr 15;
        if 2 \<le> m rev_addr then
          let rsdp = read_rsdp_v2 m addr in
          if unat (v2_length rsdp) < RSDP_V2_SIZE then Some None
          else if \<not> checksum m addr (unat (v2_length rsdp)) then Some None
          else Some (Some \<lparr>rsdt_address = ucast (v2_rsdt_address rsdp),
                 xsdt_address = (if v2_xsdt_address rsdp \<noteq> 0 then Some (v2_xsdt_address rsdp) else None)\<rparr>)
        else
          let rsdp = read_rsdp_v1 m addr in
          if \<not> checksum m addr RSDP_V1_SIZE then Some None
          else Some (Some \<lparr>rsdt_address = ucast (v1_rsdt_address rsdp), xsdt_address = None\<rparr>)
      })"

definition parse_madt :: "memory \<Rightarrow> u64 \<Rightarrow> madt option option" where
  "parse_madt m addr =
     (let header = read_sdt_header m addr; len = unat (sdt_length header) in
      if sdt_signature header \<noteq> MADT_SIGNATURE then Some None
      else if len < MADT_FIXED_HEADER_SIZE then Some None
      else do {
        a \<leftarrow> checked_add addr (of_nat SDT_HEADER_SIZE);
        f \<leftarrow> checked_add a 4;
        e \<leftarrow> checked_add addr (of_nat MADT_FIXED_HEADER_SIZE);
        Some (Some \<lparr>local_apic_address = load_u32 m a, madt_flags = load_u32 m f, entries_ptr = e,
          entries_len = len - MADT_FIXED_HEADER_SIZE\<rparr>)
      })"

text \<open>The loop \<^verbatim>\<open>for idx in 0..entries_count\<close>; \<open>n\<close> counts the entries left.\<close>

primrec search_tables :: "memory \<Rightarrow> u64 \<Rightarrow> nat \<Rightarrow> nat \<Rightarrow> nat \<Rightarrow> madt option option" where
  "search_tables m entries_base entry_size idx 0 = Some None"
| "search_tables m entries_base entry_size idx (Suc n) =
     do {
       entry_addr \<leftarrow> checked_add entries_base (of_nat (idx * entry_size));
       let table_addr = (if entry_size = 8 then load_u64 m entry_addr else ucast (load_u32 m entry_addr));
       r \<leftarrow> parse_madt m table_addr;
       (case r of Some madt \<Rightarrow> Some (Some madt)
        | None \<Rightarrow> search_tables m entries_base entry_size (idx + 1) n)
     }"

definition find_madt_in_sdt :: "memory \<Rightarrow> u64 \<Rightarrow> nat \<Rightarrow> u8 list \<Rightarrow> madt option option" where
  "find_madt_in_sdt m sdt_addr entry_size expected_signature =
     (let header = read_sdt_header m sdt_addr; total_length = unat (sdt_length header) in
      if sdt_signature header \<noteq> expected_signature then Some None
      else if total_length < SDT_HEADER_SIZE then Some None
      else do {
        entries_base \<leftarrow> checked_add sdt_addr (of_nat SDT_HEADER_SIZE);
        search_tables m entries_base entry_size 0 ((total_length - SDT_HEADER_SIZE) div entry_size)
      })"

definition from_rsdp :: "memory \<Rightarrow> u64 \<Rightarrow> madt option option" where
  "from_rsdp m rsdp_addr =
     do {
       r \<leftarrow> read_rsdp m rsdp_addr;
       (case r of
          None \<Rightarrow> Some None
        | Some rsdp \<Rightarrow>
            do {
              found \<leftarrow> (case xsdt_address rsdp of None \<Rightarrow> Some None | Some x \<Rightarrow> find_madt_in_sdt m x 8 XSDT_SIGNATURE);
              (case found of
                 Some madt \<Rightarrow> Some (Some madt)
               | None \<Rightarrow> if rsdt_address rsdp \<noteq> 0 then find_madt_in_sdt m (rsdt_address rsdp) 4 RSDT_SIGNATURE
                         else Some None)
            })
     }"

section \<open>Iterators\<close>

text \<open>The common loop of the two iterators: the next entry of type \<open>ty\<close> with at least \<open>min_len\<close> bytes, as its
  offset, together with the advanced offset of the iterator.\<close>

function next_entry :: "u8 \<Rightarrow> nat \<Rightarrow> memory \<Rightarrow> u64 \<Rightarrow> nat \<Rightarrow> nat \<Rightarrow> nat option \<times> nat" where
  "next_entry ty min_len m p len offset =
     (if offset + 2 \<le> len then
        let entry_type = m (p + of_nat offset); entry_len = unat (m (p + of_nat (offset + 1))) in
        if entry_len < 2 \<or> len < offset + entry_len then (None, offset)
        else if entry_type \<noteq> ty then next_entry ty min_len m p len (offset + entry_len)
        else if entry_len < min_len then next_entry ty min_len m p len (offset + entry_len)
        else (Some offset, offset + entry_len)
      else (None, offset))"
  by pat_completeness auto
termination
  by (relation "measure (\<lambda>(ty, n, m, p, len, offset). len - offset)") auto

declare next_entry.simps [simp del]

definition local_apic_next :: "memory \<Rightarrow> madt \<Rightarrow> nat \<Rightarrow> local_apic option \<times> nat" where
  "local_apic_next m t offset =
     (let (r, offset') = next_entry 0 8 m (entries_ptr t) (entries_len t) offset in
      (map_option (\<lambda>off. let entry = entries_ptr t + of_nat off in
         \<lparr>processor_id = m (entry + 2), apic_id = m (entry + 3), la_flags = load_u32 m (entry + 4)\<rparr>) r, offset'))"

definition io_apic_next :: "memory \<Rightarrow> madt \<Rightarrow> nat \<Rightarrow> io_apic option \<times> nat" where
  "io_apic_next m t offset =
     (let (r, offset') = next_entry 1 12 m (entries_ptr t) (entries_len t) offset in
      (map_option (\<lambda>off. let entry = entries_ptr t + of_nat off in
         \<lparr>io_apic_id = m (entry + 2), io_address = load_u32 m (entry + 4), gsi_base = load_u32 m (entry + 8)\<rparr>) r, offset'))"

text \<open>A \<^verbatim>\<open>for\<close> loop over an iterator: the items until the first \<^verbatim>\<open>None\<close>; \<open>fuel\<close> bounds the number of calls.\<close>

primrec drain :: "(nat \<Rightarrow> 'a option \<times> nat) \<Rightarrow> nat \<Rightarrow> nat \<Rightarrow> 'a list option" where
  "drain next 0 offset = None"
| "drain next (Suc fuel) offset =
     (case next offset of (None, _) \<Rightarrow> Some [] | (Some x, offset') \<Rightarrow> map_option (Cons x) (drain next fuel offset'))"

definition local_apics :: "memory \<Rightarrow> madt \<Rightarrow> local_apic list option" where
  "local_apics m t = drain (local_apic_next m t) (entries_len t + 1) 0"

definition io_apics :: "memory \<Rightarrow> madt \<Rightarrow> io_apic list option" where
  "io_apics m t = drain (io_apic_next m t) (entries_len t + 1) 0"

section \<open>Reference reading of the entries\<close>

abbreviation entry_type :: "memory \<Rightarrow> u64 \<Rightarrow> nat \<Rightarrow> u8" where
  "entry_type m p off \<equiv> m (p + of_nat off)"

abbreviation entry_length :: "memory \<Rightarrow> u64 \<Rightarrow> nat \<Rightarrow> nat" where
  "entry_length m p off \<equiv> unat (m (p + of_nat (off + 1)))"

text \<open>The offsets of the entries, each starting where the one before it ends, up to the first that is malformed.\<close>

function entry_offsets :: "memory \<Rightarrow> u64 \<Rightarrow> nat \<Rightarrow> nat \<Rightarrow> nat list" where
  "entry_offsets m p len off =
     (if off + 2 \<le> len \<and> 2 \<le> entry_length m p off \<and> off + entry_length m p off \<le> len
      then off # entry_offsets m p len (off + entry_length m p off) else [])"
  by pat_completeness auto
termination
  by (relation "measure (\<lambda>(m, p, len, off). len - off)") auto

declare entry_offsets.simps [simp del]

definition wanted :: "u8 \<Rightarrow> nat \<Rightarrow> memory \<Rightarrow> u64 \<Rightarrow> nat \<Rightarrow> bool" where
  "wanted ty n m p off \<longleftrightarrow> entry_type m p off = ty \<and> n \<le> entry_length m p off"

lemma entry_offsets_bounds:
  "x \<in> set (entry_offsets m p len off) \<Longrightarrow> off \<le> x \<and> 2 \<le> entry_length m p x \<and> x + entry_length m p x \<le> len"
proof (induction m p len off rule: entry_offsets.induct)
  case (1 m p len off)
  then show ?case by (subst (asm) (2) entry_offsets.simps) (auto split: if_splits)
qed

lemma next_entry_spec:
  "case filter (wanted ty n m p) (entry_offsets m p len off) of
     [] \<Rightarrow> fst (next_entry ty n m p len off) = None
   | x # xs \<Rightarrow> next_entry ty n m p len off = (Some x, x + entry_length m p x)
       \<and> xs = filter (wanted ty n m p) (entry_offsets m p len (x + entry_length m p x)) \<and> off \<le> x"
proof (induction ty n m p len off rule: next_entry.induct)
  case (1 ty n m p len off)
  let ?l = "entry_length m p off"
  show ?case
  proof (cases "off + 2 \<le> len \<and> 2 \<le> ?l \<and> off + ?l \<le> len")
    case True
    then have e: "entry_offsets m p len off = off # entry_offsets m p len (off + ?l)" by (subst entry_offsets.simps) simp
    show ?thesis
    proof (cases "wanted ty n m p off")
      case w: True
      have "next_entry ty n m p len off = (Some off, off + ?l)"
        using True w by (subst next_entry.simps) (auto simp: wanted_def Let_def)
      then show ?thesis using w by (simp add: e)
    next
      case w: False
      have nx: "next_entry ty n m p len off = next_entry ty n m p len (off + ?l)"
        using True w by (subst next_entry.simps) (auto simp: wanted_def Let_def)
      have "case filter (wanted ty n m p) (entry_offsets m p len (off + ?l)) of
         [] \<Rightarrow> fst (next_entry ty n m p len (off + ?l)) = None
       | x # xs \<Rightarrow> next_entry ty n m p len (off + ?l) = (Some x, x + entry_length m p x)
           \<and> xs = filter (wanted ty n m p) (entry_offsets m p len (x + entry_length m p x)) \<and> off + ?l \<le> x"
      proof (cases "entry_type m p off = ty")
        case ty: True
        then have "?l < n" using w by (simp add: wanted_def)
        then show ?thesis using 1(2) [OF _ refl refl] True ty by simp
      next
        case ty: False
        then show ?thesis using 1(1) [OF _ refl refl] True by simp
      qed
      then show ?thesis using w by (auto simp: e nx split: list.splits)
    qed
  next
    case False
    then have "entry_offsets m p len off = []" by (subst entry_offsets.simps) simp
    moreover have "fst (next_entry ty n m p len off) = None"
      using False by (subst next_entry.simps) (auto simp: Let_def)
    ultimately show ?thesis by simp
  qed
qed

lemma drain_entries:
  assumes "\<And>off. next off = (let (r, off') = next_entry ty n m p len off in (map_option f r, off'))" and "2 \<le> n"
  shows "len < off + fuel \<Longrightarrow> 0 < fuel \<Longrightarrow> drain next fuel off = Some (map f (filter (wanted ty n m p) (entry_offsets m p len off)))"
proof (induction fuel arbitrary: off)
  case (Suc fuel)
  show ?case
  proof (cases "filter (wanted ty n m p) (entry_offsets m p len off)")
    case Nil
    then have "fst (next_entry ty n m p len off) = None" using next_entry_spec [of ty n m p len off] by simp
    then show ?thesis using Nil by (simp add: assms(1) case_prod_unfold)
  next
    case (Cons x xs)
    then have nx: "next_entry ty n m p len off = (Some x, x + entry_length m p x)"
      "xs = filter (wanted ty n m p) (entry_offsets m p len (x + entry_length m p x))" "off \<le> x"
      using next_entry_spec [of ty n m p len off] by simp_all
    have "x \<in> set (entry_offsets m p len off)" using Cons by (metis filter_is_subset list.set_intros(1) subsetD)
    then have b: "2 \<le> entry_length m p x" "x + entry_length m p x \<le> len" using entry_offsets_bounds by blast+
    have "drain next fuel (x + entry_length m p x) = Some (map f xs)"
      using Suc.IH [of "x + entry_length m p x"] Suc.prems b nx(2,3) by simp
    moreover have "next off = (Some (f x), x + entry_length m p x)" using nx(1) by (simp add: assms(1))
    ultimately show ?thesis using Cons by simp
  qed
qed simp

section \<open>Reference reading of the root tables\<close>

definition table_pointers :: "memory \<Rightarrow> u64 \<Rightarrow> nat \<Rightarrow> nat \<Rightarrow> u64 list" where
  "table_pointers m base entry_size n = map (\<lambda>i. let a = base + of_nat (i * entry_size) in
     if entry_size = 8 then load_u64 m a else ucast (load_u32 m a)) [0 ..< n]"

definition sdt_tables :: "memory \<Rightarrow> u64 \<Rightarrow> nat \<Rightarrow> u8 list \<Rightarrow> u64 list" where
  "sdt_tables m a entry_size sig =
     (if load_bytes m a 4 = sig \<and> 36 \<le> unat (load_u32 m (a + 4))
      then table_pointers m (a + 36) entry_size ((unat (load_u32 m (a + 4)) - 36) div entry_size) else [])"

definition is_madt :: "memory \<Rightarrow> u64 \<Rightarrow> bool" where
  "is_madt m a \<longleftrightarrow> load_bytes m a 4 = MADT_SIGNATURE \<and> 44 \<le> unat (load_u32 m (a + 4))"

definition madt_at :: "memory \<Rightarrow> u64 \<Rightarrow> madt" where
  "madt_at m a = \<lparr>local_apic_address = load_u32 m (a + 36), madt_flags = load_u32 m (a + 40), entries_ptr = a + 44,
     entries_len = unat (load_u32 m (a + 4)) - 44\<rparr>"

definition first_madt :: "memory \<Rightarrow> u64 list \<Rightarrow> madt option" where
  "first_madt m ts = map_option (madt_at m) (find (is_madt m) ts)"

definition low_address :: "u64 \<Rightarrow> bool" where
  "low_address a \<longleftrightarrow> unat a < 2 ^ 63"

lemma parse_madt_spec: "low_address a \<Longrightarrow> parse_madt m a = Some (if is_madt m a then Some (madt_at m a) else None)"
  by (auto simp: low_address_def parse_madt_def Let_def MADT_FIXED_HEADER_SIZE_def SDT_HEADER_SIZE_def checked_add_def
      unat_add_no_wrap is_madt_def madt_at_def read_sdt_header_def add.assoc)

lemma search_tables_spec:
  assumes "entry_size \<le> 8" and "low_address base"
  shows "entry_size * (idx + n) < 2 ^ 33 \<Longrightarrow> \<forall>t \<in> set (drop idx (table_pointers m base entry_size (idx + n))). low_address t \<Longrightarrow>
    search_tables m base entry_size idx n = Some (first_madt m (drop idx (table_pointers m base entry_size (idx + n))))"
proof (induction n arbitrary: idx)
  case 0
  then show ?case by (simp add: first_madt_def table_pointers_def)
next
  case (Suc n)
  let ?ts = "table_pointers m base entry_size (idx + Suc n)"
  have len: "length ?ts = idx + Suc n" by (simp add: table_pointers_def)
  then have d: "drop idx ?ts = ?ts ! idx # drop (Suc idx) ?ts" by (simp add: Cons_nth_drop_Suc)
  have "entry_size * idx \<le> entry_size * (idx + Suc n)" by (intro mult_le_mono2) simp
  then have small: "idx * entry_size < 2 ^ 33" using Suc.prems(1) by (simp only: mult.commute)
  then have "unat (of_nat (idx * entry_size) :: u64) = idx * entry_size" by (intro unat_of_nat_small) simp
  moreover have "unat base + idx * entry_size < 2 ^ 64" using assms(2) small by (simp add: low_address_def)
  ultimately have "unat base + unat (of_nat (idx * entry_size) :: u64) < 2 ^ 64" by linarith
  then have a: "checked_add base (of_nat (idx * entry_size)) = Some (base + of_nat (idx * entry_size))"
    by (simp add: checked_add_def)
  have t: "?ts ! idx = (let a = base + of_nat (idx * entry_size) in if entry_size = 8 then load_u64 m a else ucast (load_u32 m a))"
    unfolding table_pointers_def by (subst nth_map) (simp_all del: upt_Suc)
  have low: "low_address (?ts ! idx)" using Suc.prems(2) d by simp
  have st: "search_tables m base entry_size idx (Suc n) = parse_madt m (?ts ! idx) \<bind>
      (\<lambda>r. case r of Some madt \<Rightarrow> Some (Some madt) | None \<Rightarrow> search_tables m base entry_size (idx + 1) n)"
    by (simp only: search_tables.simps a Option.bind.bind_lunit Let_def t)
  have "search_tables m base entry_size (idx + 1) n = Some (first_madt m (drop (Suc idx) ?ts))"
    using Suc.IH [of "Suc idx"] Suc.prems d by simp
  then have "search_tables m base entry_size idx (Suc n) = (if is_madt m (?ts ! idx) then Some (Some (madt_at m (?ts ! idx)))
      else Some (first_madt m (drop (Suc idx) ?ts)))"
    unfolding st parse_madt_spec [OF low] by simp
  moreover have "first_madt m (?ts ! idx # drop (Suc idx) ?ts)
      = (if is_madt m (?ts ! idx) then Some (madt_at m (?ts ! idx)) else first_madt m (drop (Suc idx) ?ts))"
    unfolding first_madt_def by (simp only: find.simps option.map split: if_split) blast
  ultimately show ?case unfolding d by (simp only: if_distrib [where f = Some])
qed

lemma find_madt_in_sdt_spec:
  assumes "low_address a" and "entry_size = 4 \<or> entry_size = 8" and "\<forall>t \<in> set (sdt_tables m a entry_size sig). low_address t"
    and "unat a + 36 < 2 ^ 63"
  shows "find_madt_in_sdt m a entry_size sig = Some (first_madt m (sdt_tables m a entry_size sig))"
proof (cases "load_bytes m a 4 = sig \<and> 36 \<le> unat (load_u32 m (a + 4))")
  case True
  let ?n = "(unat (load_u32 m (a + 4)) - 36) div entry_size"
  have "unat (load_u32 m (a + 4)) < 2 ^ 32" using unsigned_less [of "load_u32 m (a + 4)", where 'a = nat] by simp
  moreover have "entry_size * ?n \<le> unat (load_u32 m (a + 4)) - 36" by (rule times_div_less_eq_dividend)
  moreover have "(2 :: nat) ^ 32 < 2 ^ 33" by simp
  ultimately have n: "entry_size * (0 + ?n) < 2 ^ 33" unfolding add_0 by linarith
  have b: "low_address (a + 36)" "checked_add a 36 = Some (a + 36)"
    using assms(4) by (simp_all add: low_address_def checked_add_def unat_add_no_wrap)
  have es: "entry_size \<le> 8" using assms(2) by auto
  have "search_tables m (a + 36) entry_size 0 ?n = Some (first_madt m (table_pointers m (a + 36) entry_size ?n))"
    using search_tables_spec [OF es b(1) n] assms(3) True by (simp add: sdt_tables_def)
  then show ?thesis using True b(2)
    by (simp add: find_madt_in_sdt_def read_sdt_header_def Let_def SDT_HEADER_SIZE_def sdt_tables_def)
next
  case False
  then show ?thesis
    by (auto simp: find_madt_in_sdt_def read_sdt_header_def Let_def SDT_HEADER_SIZE_def sdt_tables_def first_madt_def)
qed

section \<open>Properties\<close>

definition xsdt_tables :: "memory \<Rightarrow> rsdp_info \<Rightarrow> u64 list" where
  "xsdt_tables m r = (case xsdt_address r of None \<Rightarrow> [] | Some x \<Rightarrow> sdt_tables m x 8 XSDT_SIGNATURE)"

definition rsdt_tables :: "memory \<Rightarrow> rsdp_info \<Rightarrow> u64 list" where
  "rsdt_tables m r = (if rsdt_address r = 0 then [] else sdt_tables m (rsdt_address r) 4 RSDT_SIGNATURE)"

definition root_low :: "memory \<Rightarrow> rsdp_info \<Rightarrow> bool" where
  "root_low m r \<longleftrightarrow> (\<forall>x. xsdt_address r = Some x \<longrightarrow> unat x + 36 < 2 ^ 63) \<and> unat (rsdt_address r) + 36 < 2 ^ 63
     \<and> (\<forall>t \<in> set (xsdt_tables m r) \<union> set (rsdt_tables m r). low_address t)"

text \<open>\<^verbatim>\<open>from_rsdp\<close> finds the first MADT. With an accepted root pointer whose tables lie in the lower half of the address
  space, the search does not panic and answers the first table of the extended root table, else of the root table,
  that has the MADT signature and the length of its fixed part, with the entries area right behind that part.\<close>

lemma from_rsdp_tables:
  assumes "read_rsdp m addr = Some (Some r)" and "root_low m r"
  shows "from_rsdp m addr = Some (map_option (madt_at m) (find (is_madt m) (xsdt_tables m r @ rsdt_tables m r)))"
proof -
  have x: "(case xsdt_address r of None \<Rightarrow> Some None | Some x \<Rightarrow> find_madt_in_sdt m x 8 XSDT_SIGNATURE)
      = Some (first_madt m (xsdt_tables m r))"
    using assms(2) find_madt_in_sdt_spec [of _ 8 m XSDT_SIGNATURE]
    by (auto simp: root_low_def xsdt_tables_def first_madt_def low_address_def split: option.splits)
  have "rsdt_address r \<noteq> 0 \<Longrightarrow> find_madt_in_sdt m (rsdt_address r) 4 RSDT_SIGNATURE = Some (first_madt m (rsdt_tables m r))"
    using assms(2) find_madt_in_sdt_spec [of "rsdt_address r" 4 m RSDT_SIGNATURE]
    by (auto simp: root_low_def rsdt_tables_def low_address_def)
  then have y: "(if rsdt_address r \<noteq> 0 then find_madt_in_sdt m (rsdt_address r) 4 RSDT_SIGNATURE else Some None)
      = Some (first_madt m (rsdt_tables m r))"
    by (simp add: rsdt_tables_def first_madt_def)
  have app: "find P (as @ bs) = (case find P as of Some z \<Rightarrow> Some z | None \<Rightarrow> find P bs)" for P and as bs :: "u64 list"
    by (induction as) auto
  show ?thesis using assms(1) x y
    by (simp add: from_rsdp_def app first_madt_def split: option.splits)
qed

text \<open>A root pointer of revision 0 at \<open>0x1000\<close>, a root table at \<open>0x2000\<close> with one entry, and a MADT at \<open>0x3000\<close> with one
  processor and one entry of another type.\<close>

definition demo_rsdp :: "u8 list" where
  "demo_rsdp = ascii ''RSD PTR '' @ [0xC1, 0, 0, 0, 0, 0, 0, 0, 0, 0x20, 0, 0]"

definition demo_rsdt :: "u8 list" where
  "demo_rsdt = ascii ''RSDT'' @ [40, 0, 0, 0] @ replicate 28 0 @ [0, 0x30, 0, 0]"

definition demo_madt :: "u8 list" where
  "demo_madt = ascii ''APIC'' @ [56, 0, 0, 0] @ replicate 28 0 @ [0, 0, 0xE0, 0xFE, 1, 0, 0, 0, 2, 4, 9, 9, 0, 8, 1, 5, 1, 0, 0, 0]"

definition demo_memory :: memory where
  "demo_memory a = (if a < 0x2000 then mem_at 0x1000 demo_rsdp a else if a < 0x3000 then mem_at 0x2000 demo_rsdt a
     else mem_at 0x3000 demo_madt a)"

lemma demo_read_rsdp: "read_rsdp demo_memory 0x1000 = Some (Some \<lparr>rsdt_address = 0x2000, xsdt_address = None\<rparr>)"
proof -
  have b20: "load_bytes demo_memory 0x1000 20 = demo_rsdp" and b8: "load_bytes demo_memory 0x1000 8 = RSDP_SIGNATURE"
    and r: "demo_memory (0x1000 + 15) = 0" and a: "load_bytes demo_memory (0x1000 + 16) 4 = [0, 0x20, 0, 0]"
    by (simp_all add: load_bytes_def upt_small demo_memory_def mem_at_def demo_rsdp_def ascii_def RSDP_SIGNATURE_def)
  have c: "checksum demo_memory 0x1000 20" unfolding checksum_def b20 by (simp add: demo_rsdp_def ascii_def)
  have l: "load_u32 demo_memory (0x1000 + 16) = 0x2000" unfolding load_u32_def a by simp
  have "checked_add 0x1000 15 = Some (0x1000 + 15 :: u64)" by (simp add: checked_add_def)
  then show ?thesis using b8 r c l by (simp only: read_rsdp_def) (simp add: read_rsdp_v1_def RSDP_V1_SIZE_def)
qed

lemma demo_rsdt_tables: "sdt_tables demo_memory 0x2000 4 RSDT_SIGNATURE = [0x3000]"
proof -
  have s: "load_bytes demo_memory 0x2000 4 = RSDT_SIGNATURE" and l: "load_bytes demo_memory (0x2000 + 4) 4 = [40, 0, 0, 0]"
    and e: "load_bytes demo_memory (0x2000 + 36) 4 = [0, 0x30, 0, 0]"
    by (simp_all add: load_bytes_def upt_small demo_memory_def mem_at_def demo_rsdt_def ascii_def RSDT_SIGNATURE_def nth_append)
  have len: "load_u32 demo_memory (0x2000 + 4) = 40" and en: "load_u32 demo_memory (0x2000 + 36) = 0x3000"
    unfolding load_u32_def l e by simp_all
  show ?thesis using s len en by (simp only: sdt_tables_def) (simp add: table_pointers_def)
qed

lemma demo_is_madt: "is_madt demo_memory 0x3000"
proof -
  have s: "load_bytes demo_memory 0x3000 4 = MADT_SIGNATURE" and l: "load_bytes demo_memory (0x3000 + 4) 4 = [56, 0, 0, 0]"
    by (simp_all add: load_bytes_def upt_small demo_memory_def mem_at_def demo_madt_def ascii_def MADT_SIGNATURE_def nth_append)
  have "load_u32 demo_memory (0x3000 + 4) = 56" unfolding load_u32_def l by simp
  then show ?thesis using s by (simp only: is_madt_def) simp
qed

lemma demo_tables: "rsdt_tables demo_memory \<lparr>rsdt_address = 0x2000, xsdt_address = None\<rparr> = [0x3000]"
  "xsdt_tables demo_memory \<lparr>rsdt_address = 0x2000, xsdt_address = None\<rparr> = []"
  "root_low demo_memory \<lparr>rsdt_address = 0x2000, xsdt_address = None\<rparr>"
  by (simp_all add: rsdt_tables_def xsdt_tables_def demo_rsdt_tables root_low_def low_address_def)

lemma demo_from_rsdp: "from_rsdp demo_memory 0x1000 = Some (Some (madt_at demo_memory 0x3000))"
  using from_rsdp_tables [OF demo_read_rsdp demo_tables(3)] demo_tables(1,2) demo_is_madt by simp

definition decode_local_apic :: "memory \<Rightarrow> u64 \<Rightarrow> nat \<Rightarrow> local_apic" where
  "decode_local_apic m p off = \<lparr>processor_id = m (p + of_nat off + 2), apic_id = m (p + of_nat off + 3),
     la_flags = load_u32 m (p + of_nat off + 4)\<rparr>"

definition decode_io_apic :: "memory \<Rightarrow> u64 \<Rightarrow> nat \<Rightarrow> io_apic" where
  "decode_io_apic m p off = \<lparr>io_apic_id = m (p + of_nat off + 2), io_address = load_u32 m (p + of_nat off + 4),
     gsi_base = load_u32 m (p + of_nat off + 8)\<rparr>"

lemma iterators_entries:
  "local_apics m t = Some (map (decode_local_apic m (entries_ptr t))
      (filter (wanted 0 8 m (entries_ptr t)) (entry_offsets m (entries_ptr t) (entries_len t) 0)))
   \<and> io_apics m t = Some (map (decode_io_apic m (entries_ptr t))
      (filter (wanted 1 12 m (entries_ptr t)) (entry_offsets m (entries_ptr t) (entries_len t) 0)))
   \<and> (\<forall>off \<in> set (entry_offsets m (entries_ptr t) (entries_len t) 0).
        2 \<le> entry_length m (entries_ptr t) off \<and> off + entry_length m (entries_ptr t) off \<le> entries_len t)"
proof -
  have "local_apics m t = Some (map (decode_local_apic m (entries_ptr t))
      (filter (wanted 0 8 m (entries_ptr t)) (entry_offsets m (entries_ptr t) (entries_len t) 0)))"
    unfolding local_apics_def
    by (rule drain_entries) (simp_all add: local_apic_next_def decode_local_apic_def [abs_def] Let_def)
  moreover have "io_apics m t = Some (map (decode_io_apic m (entries_ptr t))
      (filter (wanted 1 12 m (entries_ptr t)) (entry_offsets m (entries_ptr t) (entries_len t) 0)))"
    unfolding io_apics_def
    by (rule drain_entries) (simp_all add: io_apic_next_def decode_io_apic_def [abs_def] Let_def)
  ultimately show ?thesis using entry_offsets_bounds by blast
qed

text \<open> C20: The two iterators end on every table, whatever its bytes, and yield in order exactly the local APIC entries of at
  least 8 bytes and the I/O APIC entries of at least 12 bytes among the well-formed entries; every such entry lies in
  the entries area, so that no field is read outside the table.\<close>

theorem iterators_decode_entries:
  "local_apics m t = Some (map (decode_local_apic m (entries_ptr t))
      (filter (wanted 0 8 m (entries_ptr t)) (entry_offsets m (entries_ptr t) (entries_len t) 0)))
   \<and> io_apics m t = Some (map (decode_io_apic m (entries_ptr t))
      (filter (wanted 1 12 m (entries_ptr t)) (entry_offsets m (entries_ptr t) (entries_len t) 0)))
   \<and> (\<forall>off \<in> set (entry_offsets m (entries_ptr t) (entries_len t) 0).
        2 \<le> entry_length m (entries_ptr t) off \<and> off + entry_length m (entries_ptr t) off \<le> entries_len t)"
  by (rule iterators_entries)

lemma demo_entries:
  "entries_ptr (madt_at demo_memory 0x3000) = 0x302C" "entries_len (madt_at demo_memory 0x3000) = 12"
  "demo_memory 0x302C = 2" "demo_memory 0x302D = 4" "demo_memory 0x3030 = 0" "demo_memory 0x3031 = 8" "demo_memory 0x3032 = 1" "demo_memory 0x3033 = 5"
  "load_u32 demo_memory 0x3034 = 1" "entry_offsets demo_memory 0x302C 12 0 = [0, 4]"
proof -
  have l: "load_bytes demo_memory (0x3000 + 4) 4 = [56, 0, 0, 0]" and f: "load_bytes demo_memory 0x3034 4 = [1, 0, 0, 0]"
    by (simp_all add: load_bytes_def upt_small demo_memory_def mem_at_def demo_madt_def ascii_def nth_append)
  show "entries_ptr (madt_at demo_memory 0x3000) = 0x302C" "entries_len (madt_at demo_memory 0x3000) = 12"
    by (simp_all only: madt_at_def load_u32_def l madt.simps) simp_all
  show b: "demo_memory 0x302C = 2" "demo_memory 0x302D = 4" "demo_memory 0x3030 = 0" "demo_memory 0x3031 = 8"
    "demo_memory 0x3032 = 1" "demo_memory 0x3033 = 5"
    by (simp_all add: demo_memory_def mem_at_def demo_madt_def ascii_def nth_append)
  show "load_u32 demo_memory 0x3034 = 1" unfolding load_u32_def f by simp
  show "entry_offsets demo_memory 0x302C 12 0 = [0, 4]" by (simp add: entry_offsets.simps b)
qed

lemma demo_local_apics: "local_apics demo_memory (madt_at demo_memory 0x3000) = Some [\<lparr>processor_id = 1, apic_id = 5, la_flags = 1\<rparr>]"
  using iterators_entries [of demo_memory "madt_at demo_memory 0x3000"] unfolding demo_entries(1,2)
  by (simp add: wanted_def demo_entries(3-10) decode_local_apic_def)

theorem iterators_decode_entries_witness:
  "local_apics demo_memory (madt_at demo_memory 0x3000) = Some [\<lparr>processor_id = 1, apic_id = 5, la_flags = 1\<rparr>]
   \<and> io_apics demo_memory (madt_at demo_memory 0x3000) = Some []"
  using iterators_decode_entries [of demo_memory "madt_at demo_memory 0x3000"] unfolding demo_entries(1,2)
  by (simp add: wanted_def demo_entries(3-10) decode_local_apic_def)

text \<open>A root pointer of ACPI 2.0 has length 36, but the Rust structure is padded to 40 bytes and shorter lengths are
  refused: a conforming root pointer of revision two or more is not accepted.\<close>

lemma rsdp_revision_two_refused:
  assumes "unat addr + 15 < 2 ^ 64" and "2 \<le> m (addr + 15)" and "load_u32 m (addr + 20) = 36"
  shows "from_rsdp m addr = Some None"
  using assms by (auto simp: from_rsdp_def read_rsdp_def read_rsdp_v2_def RSDP_V2_SIZE_def checked_add_def)

end
