(* ===== verification/Apic.thy ===== *)
theory Apic
  imports Syscall Idt Madt
begin

text \<open>
  The local interrupt controller and its timer (\<^verbatim>\<open>hammam/src/arch/x86_64/apic.rs\<close>), and the start of the other processors
  (\<^verbatim>\<open>hammam/src/smp/mod.rs\<close>). The registers of the controller are memory: a write is logged with its register, a read answers the
  controller's next value, and both fault where the page tables do not map the address. The interval timer answers byte reads
  the same way. The theory proves what the calibration programs, that the register page is mapped and the
  timer vector installed before the controller is enabled, and which processors are started.
\<close>

section \<open>The hardware\<close>

record platform =
  pmach :: machine
  pmsrs :: msrs
  pidt :: "idt_entry list"
  lapic_log :: "(u32 \<times> u32) list"
  lapic_answer :: "nat \<Rightarrow> u32 \<Rightarrow> u32"
  lapic_reads :: nat
  pit_log :: "(u16 \<times> u8) list"
  pit_answer :: "nat \<Rightarrow> u8"
  pit_reads :: nat
  LOCAL_APIC_BASE :: u64
  TICK_COUNT :: u64
  IRQ_HANDLERS :: "(u8 \<times> nat) list"

definition IA32_APIC_BASE_MSR :: u32 where "IA32_APIC_BASE_MSR = 0x1B"
definition PIT_FREQUENCY :: u32 where "PIT_FREQUENCY = 1193182"
definition PIT_CHANNEL0 :: u16 where "PIT_CHANNEL0 = 0x40"
definition PIT_COMMAND :: u16 where "PIT_COMMAND = 0x43"
definition APIC_REG_EOI :: u32 where "APIC_REG_EOI = 0x00B0"
definition APIC_REG_ID :: u32 where "APIC_REG_ID = 0x0020"
definition APIC_REG_ICR_LOW :: u32 where "APIC_REG_ICR_LOW = 0x0300"
definition APIC_REG_ICR_HIGH :: u32 where "APIC_REG_ICR_HIGH = 0x0310"
definition APIC_REG_SVR :: u32 where "APIC_REG_SVR = 0x00F0"
definition APIC_REG_LVT_TIMER :: u32 where "APIC_REG_LVT_TIMER = 0x0320"
definition APIC_REG_TIMER_INITIAL_COUNT :: u32 where "APIC_REG_TIMER_INITIAL_COUNT = 0x0380"
definition APIC_REG_TIMER_CURRENT_COUNT :: u32 where "APIC_REG_TIMER_CURRENT_COUNT = 0x0390"
definition APIC_REG_TIMER_DIVIDE :: u32 where "APIC_REG_TIMER_DIVIDE = 0x03E0"
definition APIC_ENABLE_BIT :: u64 where "APIC_ENABLE_BIT = push_bit 11 1"
definition SPURIOUS_VECTOR :: u32 where "SPURIOUS_VECTOR = 0xFF"
definition TIMER_VECTOR :: u8 where "TIMER_VECTOR = 32"
definition TIMER_MODE_PERIODIC :: u32 where "TIMER_MODE_PERIODIC = push_bit 17 1"
definition TIMER_DIVIDE_CODE :: u32 where "TIMER_DIVIDE_CODE = 0x3"

lemmas apic_reg_defs = APIC_REG_EOI_def APIC_REG_ID_def APIC_REG_ICR_LOW_def APIC_REG_ICR_HIGH_def APIC_REG_SVR_def
  APIC_REG_LVT_TIMER_def APIC_REG_TIMER_INITIAL_COUNT_def APIC_REG_TIMER_CURRENT_COUNT_def APIC_REG_TIMER_DIVIDE_def

definition read_msr :: "u32 \<Rightarrow> platform \<Rightarrow> u64" where
  "read_msr msr P = (case pmsrs P msr of (high, low) \<Rightarrow> push_bit 32 (ucast high) OR ucast low)"

definition write_msr :: "u32 \<Rightarrow> u64 \<Rightarrow> platform \<Rightarrow> platform" where
  "write_msr msr v P = P\<lparr>pmsrs := (pmsrs P)(msr := (ucast (drop_bit 32 v), ucast v))\<rparr>"

definition apic_reg :: "u32 \<Rightarrow> platform \<Rightarrow> u64" where
  "apic_reg off P = LOCAL_APIC_BASE P + ucast off"

definition lapic_write :: "u32 \<Rightarrow> u32 \<Rightarrow> platform \<Rightarrow> platform option" where
  "lapic_write off v P =
     (if translate (space (pmach P)) (apic_reg off P) = None then None
      else Some (P\<lparr>lapic_log := lapic_log P @ [(off, v)]\<rparr>))"

definition lapic_read :: "u32 \<Rightarrow> platform \<Rightarrow> (u32 \<times> platform) option" where
  "lapic_read off P =
     (if translate (space (pmach P)) (apic_reg off P) = None then None
      else Some (lapic_answer P (lapic_reads P) off, P\<lparr>lapic_reads := lapic_reads P + 1\<rparr>))"

definition pit_outb :: "u16 \<Rightarrow> u8 \<Rightarrow> platform \<Rightarrow> platform" where
  "pit_outb prt v P = P\<lparr>pit_log := pit_log P @ [(prt, v)]\<rparr>"

definition pit_inb :: "platform \<Rightarrow> u8 \<times> platform" where
  "pit_inb P = (pit_answer P (pit_reads P), P\<lparr>pit_reads := pit_reads P + 1\<rparr>)"

section \<open>The timer\<close>

definition pit_read_count :: "platform \<Rightarrow> u16 \<times> platform" where
  "pit_read_count P =
     (let P1 = pit_outb PIT_COMMAND 0x00 P; (lo, P2) = pit_inb P1; (hi, P3) = pit_inb P2
      in (ucast lo OR push_bit 8 (ucast hi), P3))"

partial_function (option) pit_wait_loop :: "platform \<Rightarrow> platform option" where
  "pit_wait_loop P = (case pit_read_count P of (n, P') \<Rightarrow> if n = 0 then Some P' else pit_wait_loop P')"

definition pit_count :: "u16 \<Rightarrow> u16 option" where
  "pit_count milliseconds = do { p \<leftarrow> checked_mul PIT_FREQUENCY (ucast milliseconds); Some (ucast (p div 1000)) }"

definition pit_wait_millis :: "u16 \<Rightarrow> platform \<Rightarrow> platform option" where
  "pit_wait_millis milliseconds P =
     do {
       n \<leftarrow> pit_count milliseconds;
       if n = 0 then Some P
       else pit_wait_loop (pit_outb PIT_CHANNEL0 (ucast (drop_bit 8 n)) (pit_outb PIT_CHANNEL0 (ucast (n AND 0xFF)) (pit_outb PIT_COMMAND 0x30 P)))
     }"

definition calibrate_apic_timer :: "platform \<Rightarrow> platform option" where
  "calibrate_apic_timer P =
     do {
       P1 \<leftarrow> lapic_write APIC_REG_TIMER_DIVIDE TIMER_DIVIDE_CODE P;
       P2 \<leftarrow> lapic_write APIC_REG_LVT_TIMER (ucast TIMER_VECTOR) P1;
       P3 \<leftarrow> lapic_write APIC_REG_TIMER_INITIAL_COUNT 0xFFFFFFFF P2;
       P4 \<leftarrow> pit_wait_millis 10 P3;
       (cur, P5) \<leftarrow> lapic_read APIC_REG_TIMER_CURRENT_COUNT P4;
       let elapsed = 0xFFFFFFFF - cur;
       let reload = (if elapsed = 0 then 1 else elapsed div 10);
       P6 \<leftarrow> lapic_write APIC_REG_LVT_TIMER (ucast TIMER_VECTOR OR TIMER_MODE_PERIODIC) P5;
       lapic_write APIC_REG_TIMER_INITIAL_COUNT (max reload 1) P6
     }"

text \<open>The parts of \<^verbatim>\<open>init_local_apic\<close>: the enable bit of the model register, the mapping of the register page, whose error is dropped, and the start
  of the timer; \<open>timer_entry\<close> is the address of \<^verbatim>\<open>timer_interrupt_entry\<close>.\<close>

definition enable_in_msr :: "u64 \<Rightarrow> platform \<Rightarrow> platform" where
  "enable_in_msr apic_msr P =
     (if apic_msr AND APIC_ENABLE_BIT = 0 then write_msr IA32_APIC_BASE_MSR (apic_msr OR APIC_ENABLE_BIT) P else P)"

definition map_registers :: "u64 \<Rightarrow> platform \<Rightarrow> platform option" where
  "map_registers apic_virt P =
     (if translate (space (pmach P)) apic_virt = None
      then do {
        (_, v) \<leftarrow> map_page (space (pmach P)) apic_virt (PhysFrame apic_virt) (PRESENT OR WRITABLE);
        Some (P\<lparr>pmach := (pmach P)\<lparr>space := v\<rparr>\<rparr>)
      }
      else Some P)"

definition start_timer :: "u64 \<Rightarrow> u64 \<Rightarrow> platform \<Rightarrow> platform option" where
  "start_timer timer_entry apic_virt P =
     do {
       P1 \<leftarrow> lapic_write APIC_REG_SVR (0x100 OR SPURIOUS_VECTOR)
              (P\<lparr>LOCAL_APIC_BASE := apic_virt, pidt := set_idt_entry TIMER_VECTOR timer_entry 1 (pidt P)\<rparr>);
       calibrate_apic_timer P1
     }"

definition init_local_apic :: "u64 \<Rightarrow> platform \<Rightarrow> platform option" where
  "init_local_apic timer_entry P =
     (let apic_msr = read_msr IA32_APIC_BASE_MSR P; base_phys = apic_msr AND 0xFFFFF000 in
      if base_phys = 0 then Some P
      else do {
        P2 \<leftarrow> map_registers base_phys (enable_in_msr apic_msr P);
        start_timer timer_entry base_phys P2
      })"

definition init_timer_only :: "u64 \<Rightarrow> platform \<Rightarrow> platform option" where
  "init_timer_only timer_entry P = init_local_apic timer_entry P"

definition lapic_eoi :: "platform \<Rightarrow> platform option" where
  "lapic_eoi P = lapic_write APIC_REG_EOI 0 P"

definition local_apic_id :: "platform \<Rightarrow> (u8 \<times> platform) option" where
  "local_apic_id P = do { (r, P') \<leftarrow> lapic_read APIC_REG_ID P; Some (ucast (drop_bit 24 r), P') }"

partial_function (option) wait_for_icr :: "platform \<Rightarrow> platform option" where
  "wait_for_icr P =
     do { (r, P') \<leftarrow> lapic_read APIC_REG_ICR_LOW P; if r AND push_bit 12 1 \<noteq> 0 then wait_for_icr P' else Some P' }"

definition send_icr :: "u8 \<Rightarrow> u32 \<Rightarrow> platform \<Rightarrow> platform option" where
  "send_icr dest low P =
     do {
       P1 \<leftarrow> lapic_write APIC_REG_ICR_HIGH (push_bit 24 (ucast dest)) P;
       P2 \<leftarrow> lapic_write APIC_REG_ICR_LOW low P1;
       wait_for_icr P2
     }"

text \<open>Handlers are numbers; the table holds the last one registered for a vector.\<close>

definition register_irq_handler :: "u8 \<Rightarrow> nat \<Rightarrow> platform \<Rightarrow> platform" where
  "register_irq_handler vector handler P = P\<lparr>IRQ_HANDLERS := (vector, handler) # IRQ_HANDLERS P\<rparr>"

definition handle_irq :: "u8 \<Rightarrow> platform \<Rightarrow> nat option" where
  "handle_irq vector P = map_of (IRQ_HANDLERS P) vector"

definition timer_irq_handler :: "platform \<Rightarrow> scheduler \<Rightarrow> ((task_ref \<times> task_ref) option \<times> platform \<times> scheduler) option" where
  "timer_irq_handler P s =
     do {
       P' \<leftarrow> lapic_eoi P;
       (sw, s') \<leftarrow> tick_now s;
       Some (sw, P'\<lparr>TICK_COUNT := TICK_COUNT P' + 1\<rparr>, s')
     }"

section \<open>Calibration\<close>

text \<open>The interval timer reads zero at some poll.\<close>

definition pit_ends :: "platform \<Rightarrow> bool" where
  "pit_ends P \<longleftrightarrow> (\<exists>k. pit_answer P (pit_reads P + 2 * k) = 0 \<and> pit_answer P (pit_reads P + 2 * k + 1) = 0)"

definition pit_only :: "platform \<Rightarrow> platform \<Rightarrow> bool" where
  "pit_only P P' \<longleftrightarrow> (\<exists>l n. P' = P\<lparr>pit_log := l, pit_reads := n\<rparr>)"

lemma pit_only_trans: "pit_only P Q \<Longrightarrow> pit_only Q R \<Longrightarrow> pit_only P R"
proof -
  assume "pit_only P Q" "pit_only Q R"
  then obtain l n l' n' where "R = P\<lparr>pit_log := l, pit_reads := n, pit_log := l', pit_reads := n'\<rparr>" by (auto simp: pit_only_def)
  then have "R = P\<lparr>pit_log := l', pit_reads := n'\<rparr>" by simp
  then show ?thesis unfolding pit_only_def by blast
qed

lemma pit_only_log: "pit_only P (P\<lparr>pit_log := l\<rparr>)"
proof -
  have "P\<lparr>pit_log := l\<rparr> = P\<lparr>pit_log := l, pit_reads := pit_reads P\<rparr>" by simp
  then show ?thesis unfolding pit_only_def by blast
qed

lemma pit_read_count_eq:
  "pit_read_count P = (ucast (pit_answer P (pit_reads P)) OR push_bit 8 (ucast (pit_answer P (pit_reads P + 1))),
     P\<lparr>pit_log := pit_log P @ [(PIT_COMMAND, 0)], pit_reads := pit_reads P + 2\<rparr>)"
  by (simp add: pit_read_count_def pit_outb_def pit_inb_def)

lemma pit_wait_loop_ends: "pit_answer P (pit_reads P + 2 * k) = 0 \<Longrightarrow> pit_answer P (pit_reads P + 2 * k + 1) = 0 \<Longrightarrow>
    \<exists>P'. pit_wait_loop P = Some P' \<and> pit_only P P'"
proof (induction k arbitrary: P)
  case 0
  then show ?case by (subst pit_wait_loop.simps) (auto simp: pit_read_count_eq pit_only_def)
next
  case (Suc k)
  let ?P = "P\<lparr>pit_log := pit_log P @ [(PIT_COMMAND, 0)], pit_reads := pit_reads P + 2\<rparr>"
  have "\<exists>P'. pit_wait_loop ?P = Some P' \<and> pit_only ?P P'" by (rule Suc.IH) (use Suc.prems in \<open>simp_all add: algebra_simps\<close>)
  moreover have "pit_only P ?P" by (auto simp: pit_only_def)
  ultimately show ?case by (subst pit_wait_loop.simps) (auto simp: pit_read_count_eq dest: pit_only_trans)
qed

text \<open>Up to 54 ms the divisor of the interval timer is the exact one; 55 ms no longer fit and wait for 89 of its periods, 75 microseconds.\<close>

lemma pit_count_exact:
  assumes "unat ms \<le> 54"
  shows "\<exists>n. pit_count ms = Some n \<and> unat n = 1193182 * unat ms div 1000"
proof -
  have u: "unat (ucast ms :: u32) = unat ms" using assms by (simp add: unsigned_ucast_eq take_bit_nat_eq_self)
  have p: "unat (PIT_FREQUENCY * ucast ms) = 1193182 * unat ms"
    using assms by (subst unat_word_ariths) (simp add: PIT_FREQUENCY_def u)
  have d: "unat (PIT_FREQUENCY * ucast ms div 1000) = 1193182 * unat ms div 1000" by (simp add: unat_div_distrib p)
  moreover have "1193182 * unat ms div 1000 < 65536" using assms by simp
  ultimately have "unat (ucast (PIT_FREQUENCY * ucast ms div 1000) :: u16) = 1193182 * unat ms div 1000"
    by (simp add: unsigned_ucast_eq take_bit_nat_eq_self)
  moreover have "checked_mul PIT_FREQUENCY (ucast ms :: u32) = Some (PIT_FREQUENCY * ucast ms)"
    using assms by (simp add: checked_mul_def u PIT_FREQUENCY_def)
  ultimately show ?thesis by (simp add: pit_count_def)
qed

lemma pit_count_values: "pit_count 10 = Some 11931" "pit_count 55 = Some 89" "pit_count 3600 = None"
  by (simp_all add: pit_count_def checked_mul_def PIT_FREQUENCY_def)

lemma pit_wait_ends:
  assumes "pit_ends P"
  shows "\<exists>P'. pit_wait_millis 10 P = Some P' \<and> pit_only P P'"
proof -
  let ?P = "pit_outb PIT_CHANNEL0 (ucast (drop_bit 8 (11931 :: u16))) (pit_outb PIT_CHANNEL0 (ucast ((11931 :: u16) AND 0xFF)) (pit_outb PIT_COMMAND 0x30 P))"
  have o: "pit_only P ?P" unfolding pit_outb_def by (simp add: pit_only_log)
  obtain k where "pit_answer ?P (pit_reads ?P + 2 * k) = 0" "pit_answer ?P (pit_reads ?P + 2 * k + 1) = 0"
    using assms by (auto simp: pit_ends_def pit_outb_def)
  then obtain P' where "pit_wait_loop ?P = Some P'" "pit_only ?P P'" using pit_wait_loop_ends by blast
  moreover have "pit_wait_millis 10 P = pit_wait_loop ?P" by (simp add: pit_wait_millis_def pit_count_values)
  ultimately show ?thesis using pit_only_trans [OF o] by auto
qed

text \<open>All registers of the controller lie in one page.\<close>

definition regs_mapped :: "platform \<Rightarrow> bool" where
  "regs_mapped P \<longleftrightarrow> LOCAL_APIC_BASE P AND NOT 0xFFF = LOCAL_APIC_BASE P \<and> translate (space (pmach P)) (LOCAL_APIC_BASE P) \<noteq> None"

lemma reg_page:
  assumes "b AND NOT 0xFFF = (b :: u64)" "x AND NOT 0xFFF = 0"
  shows "(b + x) AND NOT 0xFFF = b"
proof -
  have "b AND x = (b AND NOT 0xFFF) AND x" by (simp only: assms(1))
  also have "\<dots> = b AND (x AND NOT 0xFFF)" by (simp only: and.assoc and.commute and.left_commute)
  also have "\<dots> = 0" by (simp only: assms(2) and_zero_eq)
  finally have "b + x = b OR x" by (rule disjunctive_add_eq_or)
  then have "(b + x) AND NOT 0xFFF = (b AND NOT 0xFFF) OR (x AND NOT 0xFFF)" by (simp only: bit.conj_disj_distrib2)
  then show ?thesis unfolding assms by simp
qed

lemma reg_access:
  assumes "regs_mapped P" "ucast off AND NOT (0xFFF :: u64) = 0"
  shows "lapic_write off v P = Some (P\<lparr>lapic_log := lapic_log P @ [(off, v)]\<rparr>)"
    "lapic_read off P = Some (lapic_answer P (lapic_reads P) off, P\<lparr>lapic_reads := lapic_reads P + 1\<rparr>)"
proof -
  have "translate (space (pmach P)) (apic_reg off P) \<noteq> None"
    using translate_page [of "space (pmach P)" "apic_reg off P"] reg_page [OF _ assms(2), of "LOCAL_APIC_BASE P"] assms(1)
    by (auto simp: regs_mapped_def apic_reg_def)
  then show "lapic_write off v P = Some (P\<lparr>lapic_log := lapic_log P @ [(off, v)]\<rparr>)"
    "lapic_read off P = Some (lapic_answer P (lapic_reads P) off, P\<lparr>lapic_reads := lapic_reads P + 1\<rparr>)"
    by (simp_all add: lapic_write_def lapic_read_def)
qed

lemma regs_mapped_simps [simp]:
  "regs_mapped (P\<lparr>lapic_log := l\<rparr>) = regs_mapped P" "regs_mapped (P\<lparr>lapic_reads := n\<rparr>) = regs_mapped P"
  "regs_mapped (P\<lparr>pit_log := pl, pit_reads := n\<rparr>) = regs_mapped P"
  by (simp_all add: regs_mapped_def)

text \<open>The writes of the calibration when the controller has counted down to \<open>c\<close>.\<close>

definition calibration :: "u32 \<Rightarrow> (u32 \<times> u32) list" where
  "calibration c = [(0x3E0, 3), (0x320, 32), (0x380, 0xFFFFFFFF), (0x320, 0x20020), (0x380, max ((0xFFFFFFFF - c) div 10) 1)]"

lemma calibrate_spec:
  assumes "regs_mapped P" "pit_ends P"
  shows "\<exists>l n. calibrate_apic_timer P = Some (P\<lparr>lapic_log := lapic_log P @ calibration (lapic_answer P (lapic_reads P) 0x390),
    lapic_reads := lapic_reads P + 1, pit_log := l, pit_reads := n\<rparr>)"
proof -
  let ?Q = "P\<lparr>lapic_log := lapic_log P @ [(0x3E0, 3), (0x320, 32), (0x380, 0xFFFFFFFF)]\<rparr>"
  have "pit_ends ?Q" using assms(2) by (simp add: pit_ends_def)
  then obtain l n where w: "pit_wait_millis 10 ?Q = Some (?Q\<lparr>pit_log := l, pit_reads := n\<rparr>)"
    using pit_wait_ends [of ?Q] unfolding pit_only_def by blast
  have r: "ucast off AND NOT (0xFFF :: u64) = 0" if "off \<in> {0x3E0, 0x320, 0x380, 0x390 :: u32}" for off using that by auto
  have m: "max (if e = 0 then 1 else e div 10) 1 = max (e div 10) (1 :: u32)" for e by simp
  have "calibrate_apic_timer P = Some (P\<lparr>lapic_log := lapic_log P @ calibration (lapic_answer P (lapic_reads P) 0x390),
    lapic_reads := lapic_reads P + 1, pit_log := l, pit_reads := n\<rparr>)"
    using w assms(1) by (simp add: calibrate_apic_timer_def reg_access r apic_reg_defs TIMER_DIVIDE_CODE_def TIMER_VECTOR_def
        TIMER_MODE_PERIODIC_def calibration_def Let_def m)
  then show ?thesis by blast
qed

section \<open>Starting the controller\<close>

lemma msr_roundtrip: "read_msr msr' (write_msr msr v P) = (if msr' = msr then v else read_msr msr' P)"
proof -
  have "push_bit 32 (ucast (ucast (drop_bit 32 v) :: u32)) OR ucast (ucast v :: u32) = (v :: u64)"
    by (rule bit_word_eqI) (auto simp: bit_simps)
  then show ?thesis by (simp add: read_msr_def write_msr_def)
qed

lemma apic_frame:
  assumes "b = m AND (0xFFFFF000 :: u64)"
  shows "valid_frame (start_address (PhysFrame b))" "b AND NOT 0xFFF = b" "valid_flags (PRESENT OR WRITABLE)"
proof -
  have "b AND FRAME_MASK = m AND (0xFFFFF000 AND FRAME_MASK)" by (simp only: assms and.assoc)
  then show "valid_frame (start_address (PhysFrame b))" by (simp add: valid_frame_def assms FRAME_MASK_def)
  have "b AND NOT 0xFFF = m AND (0xFFFFF000 AND NOT 0xFFF)" by (simp only: assms and.assoc)
  then show "b AND NOT 0xFFF = b" by (simp add: assms)
  show "valid_flags (PRESENT OR WRITABLE)" by (simp add: valid_flags_def all_flags_eq PRESENT_def WRITABLE_def)
qed

lemma page_view_same_page:
  assumes "same_page x b"
  shows "page_view v x = None \<longleftrightarrow> page_view v b = None"
proof -
  have "pml4_index x = pml4_index b" "pdpt_index x = pdpt_index b" "pd_index x = pd_index b" "pt_index x = pt_index b"
    using assms by (simp_all add: same_page_def)
  then show ?thesis unfolding page_view_def view_def view_entry_def by (simp split: option.split)
qed

lemma map_registers_spec:
  assumes "vm_inv (space (pmach P))" "b = m AND (0xFFFFF000 :: u64)"
  shows "\<exists>v. map_registers b P = Some (P\<lparr>pmach := (pmach P)\<lparr>space := v\<rparr>\<rparr>) \<and> vm_inv v
    \<and> (translate v b = None \<longrightarrow> translate (space (pmach P)) b = None \<and> free_page_set (allocator v) = {}
      \<and> map_page (space (pmach P)) b (PhysFrame b) (PRESENT OR WRITABLE) = Some (Inl FrameAllocationFailed, v))
    \<and> (translate (space (pmach P)) b \<noteq> None \<longrightarrow> v = space (pmach P))
    \<and> (\<forall>x. page_view (space (pmach P)) x \<noteq> None \<longrightarrow> page_view v x = page_view (space (pmach P)) x)"
proof (cases "translate (space (pmach P)) b")
  case (Some a)
  have "P = P\<lparr>pmach := (pmach P)\<lparr>space := space (pmach P)\<rparr>\<rparr>" by simp
  then have "map_registers b P = Some (P\<lparr>pmach := (pmach P)\<lparr>space := space (pmach P)\<rparr>\<rparr>)" using Some by (simp add: map_registers_def)
  then show ?thesis using Some assms(1) by (intro exI [of _ "space (pmach P)"]) simp
next
  case None
  note f = apic_frame [OF assms(2)]
  obtain r v where m: "map_page (space (pmach P)) b (PhysFrame b) (PRESENT OR WRITABLE) = Some (r, v)" "vm_inv v"
    "case r of Inr _ \<Rightarrow> (\<forall>x. page_view v x = (if same_page x b then Some (start_address (PhysFrame b) + (x AND 0xFFF), ((PRESENT OR WRITABLE) OR PRESENT) AND NOT HUGE_PAGE)
        else page_view (space (pmach P)) x)) | Inl e \<Rightarrow> e = FrameAllocationFailed \<and> free_page_set (allocator v) = {} \<and> page_view v = page_view (space (pmach P))"
    using map_page_spec [OF assms(1) f(3,1), of b] by blast
  then have "translate v b = None \<longrightarrow> free_page_set (allocator v) = {} \<and> r = Inl FrameAllocationFailed"
    by (cases r) (auto simp: translate_view same_page_def)
  moreover have "page_view (space (pmach P)) x \<noteq> None \<longrightarrow> page_view v x = page_view (space (pmach P)) x" for x
    using m(3) None page_view_same_page [of x b "space (pmach P)"] by (cases r) (auto simp: translate_view)
  ultimately show ?thesis using m(1,2) None by (intro exI [of _ v]) (simp add: map_registers_def)
qed

lemma map_registers_msrs: "map_registers b (P\<lparr>pmsrs := m\<rparr>) = map_option (\<lambda>Q. Q\<lparr>pmsrs := m\<rparr>) (map_registers b P)"
  by (cases "map_page (space (pmach P)) b (PhysFrame b) (PRESENT OR WRITABLE)") (auto simp: map_registers_def split: prod.splits)

lemma start_timer_spec:
  assumes "b AND NOT 0xFFF = b" "translate (space (pmach P)) b \<noteq> None" "pit_ends P" "length (pidt P) = 256"
  shows "\<exists>P'. start_timer t b P = Some P' \<and> LOCAL_APIC_BASE P' = b \<and> pmach P' = pmach P \<and> pmsrs P' = pmsrs P \<and> lapic_answer P' = lapic_answer P
    \<and> pidt P' ! 32 = idt_gate t 1 \<and> lapic_log P' = lapic_log P @ (0xF0, 0x1FF) # calibration (lapic_answer P (lapic_reads P) 0x390)"
proof -
  let ?Q = "P\<lparr>LOCAL_APIC_BASE := b, pidt := set_idt_entry TIMER_VECTOR t 1 (pidt P)\<rparr>"
  let ?R = "?Q\<lparr>lapic_log := lapic_log P @ [(0xF0, 0x1FF)]\<rparr>"
  have r: "regs_mapped ?Q" "regs_mapped ?R" "pit_ends ?R" using assms(1-3) by (simp_all add: regs_mapped_def pit_ends_def)
  have "lapic_write APIC_REG_SVR (0x100 OR SPURIOUS_VECTOR) ?Q = Some ?R"
    using reg_access(1) [OF r(1), of "0xF0" "0x1FF"] by (simp add: APIC_REG_SVR_def SPURIOUS_VECTOR_def)
  then have s: "start_timer t b P = calibrate_apic_timer ?R" by (simp add: start_timer_def)
  obtain l n where "calibrate_apic_timer ?R = Some (?R\<lparr>lapic_log := lapic_log ?R @ calibration (lapic_answer ?R (lapic_reads ?R) 0x390),
    lapic_reads := lapic_reads ?R + 1, pit_log := l, pit_reads := n\<rparr>)" using calibrate_spec [OF r(2,3)] by blast
  then show ?thesis unfolding s using assms(4) by (simp add: set_idt_entry_def TIMER_VECTOR_def)
qed

lemma start_timer_faults:
  assumes "b AND NOT 0xFFF = b" "translate (space (pmach P)) b = None"
  shows "start_timer t b P = None"
proof -
  let ?Q = "P\<lparr>LOCAL_APIC_BASE := b, pidt := set_idt_entry TIMER_VECTOR t 1 (pidt P)\<rparr>"
  have "apic_reg APIC_REG_SVR ?Q AND NOT 0xFFF = b"
    using reg_page [OF assms(1), of "0xF0"] by (simp add: apic_reg_def APIC_REG_SVR_def)
  then have "translate (space (pmach P)) (apic_reg APIC_REG_SVR ?Q) = None"
    using translate_page [of "space (pmach P)" "apic_reg APIC_REG_SVR ?Q"] assms(2) by simp
  then show ?thesis by (simp add: start_timer_def lapic_write_def)
qed

lemma enable_in_msr_spec:
  "bit (read_msr 0x1B (enable_in_msr (read_msr 0x1B P) P)) 11"
  "\<exists>m. enable_in_msr a P = P\<lparr>pmsrs := m\<rparr> \<and> (\<forall>n. n \<noteq> 0x1B \<longrightarrow> m n = pmsrs P n)"
proof -
  show "bit (read_msr 0x1B (enable_in_msr (read_msr 0x1B P) P)) 11"
  proof (cases "read_msr 0x1B P AND APIC_ENABLE_BIT = 0")
    case True
    then show ?thesis by (simp add: enable_in_msr_def msr_roundtrip APIC_ENABLE_BIT_def IA32_APIC_BASE_MSR_def bit_simps)
  next
    case False
    then have "bit (read_msr 0x1B P) 11" unfolding APIC_ENABLE_BIT_def by (metis and_exp_eq_0_iff_not_bit push_bit_of_1)
    then show ?thesis using False by (simp add: enable_in_msr_def)
  qed
  have "P = P\<lparr>pmsrs := pmsrs P\<rparr>" by simp
  moreover have "\<forall>n. n \<noteq> 0x1B \<longrightarrow> ((pmsrs P)(IA32_APIC_BASE_MSR := z)) n = pmsrs P n" for z by (simp add: IA32_APIC_BASE_MSR_def)
  ultimately show "\<exists>m. enable_in_msr a P = P\<lparr>pmsrs := m\<rparr> \<and> (\<forall>n. n \<noteq> 0x1B \<longrightarrow> m n = pmsrs P n)"
    unfolding enable_in_msr_def write_msr_def by metis
qed

lemma init_local_apic_result:
  assumes "vm_inv (space (pmach P))" "length (pidt P) = 256" "pit_ends P"
    and "b = read_msr 0x1B P AND 0xFFFFF000" "b \<noteq> 0"
  shows "(\<exists>P'. init_local_apic t P = Some P' \<and> LOCAL_APIC_BASE P' = b \<and> regs_mapped P' \<and> vm_inv (space (pmach P')) \<and> lapic_answer P' = lapic_answer P
      \<and> (translate (space (pmach P)) b \<noteq> None \<longrightarrow> space (pmach P') = space (pmach P))
      \<and> (\<forall>x. page_view (space (pmach P)) x \<noteq> None \<longrightarrow> page_view (space (pmach P')) x = page_view (space (pmach P)) x)
      \<and> ram (pmach P') = ram (pmach P) \<and> (\<forall>n. n \<noteq> 0x1B \<longrightarrow> pmsrs P' n = pmsrs P n)
      \<and> bit (read_msr 0x1B P') 11 \<and> gate_offset (pidt P' ! 32) = t \<and> ist (pidt P' ! 32) = 1
      \<and> lapic_log P' = lapic_log P @ (0xF0, 0x1FF) # calibration (lapic_answer P (lapic_reads P) 0x390))
    \<or> init_local_apic t P = None \<and> translate (space (pmach P)) b = None
      \<and> (\<exists>v. map_registers b P = Some (P\<lparr>pmach := (pmach P)\<lparr>space := v\<rparr>\<rparr>) \<and> free_page_set (allocator v) = {}
        \<and> map_page (space (pmach P)) b (PhysFrame b) (PRESENT OR WRITABLE) = Some (Inl FrameAllocationFailed, v))"
proof -
  obtain m where m: "enable_in_msr (read_msr 0x1B P) P = P\<lparr>pmsrs := m\<rparr>" and mo: "\<forall>n. n \<noteq> 0x1B \<longrightarrow> m n = pmsrs P n"
    using enable_in_msr_spec(2) by blast
  have en: "bit (read_msr 0x1B (P\<lparr>pmsrs := m\<rparr>)) 11" using enable_in_msr_spec(1) [of P] by (simp add: m)
  obtain v where v: "map_registers b P = Some (P\<lparr>pmach := (pmach P)\<lparr>space := v\<rparr>\<rparr>)" "vm_inv v"
    "translate v b = None \<longrightarrow> translate (space (pmach P)) b = None \<and> free_page_set (allocator v) = {}
      \<and> map_page (space (pmach P)) b (PhysFrame b) (PRESENT OR WRITABLE) = Some (Inl FrameAllocationFailed, v)"
    "translate (space (pmach P)) b \<noteq> None \<longrightarrow> v = space (pmach P)"
    "\<forall>x. page_view (space (pmach P)) x \<noteq> None \<longrightarrow> page_view v x = page_view (space (pmach P)) x"
    using map_registers_spec [OF assms(1,4)] by (elim exE conjE) (rule that)
  let ?P = "P\<lparr>pmach := (pmach P)\<lparr>space := v\<rparr>, pmsrs := m\<rparr>"
  have i: "init_local_apic t P = start_timer t b ?P"
    using assms(4,5) v(1) by (simp add: init_local_apic_def IA32_APIC_BASE_MSR_def m map_registers_msrs Let_def)
  note al = apic_frame(2) [OF assms(4)]
  show ?thesis
  proof (cases "translate v b = None")
    case True
    then have "start_timer t b ?P = None" using start_timer_faults [OF al, of ?P t] by simp
    then show ?thesis unfolding i using v True by blast
  next
    case False
    have p: "pit_ends ?P" "length (pidt ?P) = 256" "translate (space (pmach ?P)) b \<noteq> None" using assms(2,3) False by (simp_all add: pit_ends_def)
    obtain P' where P': "start_timer t b ?P = Some P'" "LOCAL_APIC_BASE P' = b" "pmach P' = pmach ?P" "pmsrs P' = m" "lapic_answer P' = lapic_answer P" "pidt P' ! 32 = idt_gate t 1"
      "lapic_log P' = lapic_log P @ (0xF0, 0x1FF) # calibration (lapic_answer P (lapic_reads P) 0x390)"
      using start_timer_spec [OF al p(3,1,2), of t] by auto
    have "regs_mapped P'" using P'(2,3) al False by (simp add: regs_mapped_def)
    moreover have "read_msr 0x1B P' = read_msr 0x1B (P\<lparr>pmsrs := m\<rparr>)" using P'(4) by (simp add: read_msr_def)
    moreover have "gate_offset (pidt P' ! 32) = t" "ist (pidt P' ! 32) = 1" by (simp_all add: P'(6) gate_offset_roundtrip) (simp add: idt_gate_def)
    moreover have "vm_inv (space (pmach P'))" "translate (space (pmach P)) b \<noteq> None \<longrightarrow> space (pmach P') = space (pmach P)"
      using P'(3) v(2,4) by simp_all
    ultimately show ?thesis unfolding i using P'(1-5,7) en v(5) mo by (intro disjI1 exI [of _ P']) simp
  qed
qed

text \<open> C35: The timer is started on mapped registers. On a well-formed address space, with an interval timer that reaches zero and a controller at a
  nonzero address, \<^verbatim>\<open>init_local_apic\<close> finds or makes the mapping of the register page, installs the timer gate and sets the enable
  bit of the model register; then it enables the controller, measures its timer and programs it periodically with a tenth
  of what it counted in 10 ms, at least 1. Only when no page is free for the tables and the page was not mapped before, the dropped error of
  \<^verbatim>\<open>map_page\<close> shows as a page fault of the first register write.\<close>

theorem init_local_apic_starts_timer:
  assumes "vm_inv (space (pmach P))" "length (pidt P) = 256" "pit_ends P"
    and "b = read_msr 0x1B P AND 0xFFFFF000" "b \<noteq> 0"
  shows "(\<exists>P'. init_local_apic t P = Some P' \<and> LOCAL_APIC_BASE P' = b \<and> regs_mapped P' \<and> vm_inv (space (pmach P'))
      \<and> bit (read_msr 0x1B P') 11 \<and> gate_offset (pidt P' ! 32) = t \<and> ist (pidt P' ! 32) = 1
      \<and> lapic_log P' = lapic_log P @ (0xF0, 0x1FF) # calibration (lapic_answer P (lapic_reads P) 0x390))
    \<or> init_local_apic t P = None \<and> translate (space (pmach P)) b = None
      \<and> (\<exists>v. map_registers b P = Some (P\<lparr>pmach := (pmach P)\<lparr>space := v\<rparr>\<rparr>) \<and> free_page_set (allocator v) = {})"
  using init_local_apic_result [OF assms, of t] by blast

text \<open>An example: the controller at its usual address, already mapped.\<close>

definition demo_platform :: platform where
  "demo_platform = \<lparr>pmach = demo_machine, pmsrs = (\<lambda>_. (0, 0x600000)), pidt = replicate 256 empty_entry, lapic_log = [],
     lapic_answer = (\<lambda>_ _. 0xFFFFFFFF - 62500), lapic_reads = 0, pit_log = [], pit_answer = (\<lambda>_. 0), pit_reads = 0,
     LOCAL_APIC_BASE = 0, TICK_COUNT = 0, IRQ_HANDLERS = []\<rparr>"

theorem init_local_apic_starts_timer_witness:
  "\<exists>P'. init_local_apic 0x201000 demo_platform = Some P' \<and> lapic_log P' =
     [(0xF0, 0x1FF), (0x3E0, 3), (0x320, 32), (0x380, 0xFFFFFFFF), (0x320, 0x20020), (0x380, 6250)]"
proof -
  have m: "pmach demo_platform = demo_machine" "read_msr 0x1B demo_platform AND 0xFFFFF000 = 0x600000" "length (pidt demo_platform) = 256"
    "pit_ends demo_platform" "lapic_log demo_platform = []" "lapic_answer demo_platform (lapic_reads demo_platform) 0x390 = 0xFFFFFFFF - 62500"
    by (simp_all add: demo_platform_def read_msr_def pit_ends_def)
  have s: "vm_inv (space demo_machine)" "translate (space demo_machine) 0x600000 \<noteq> None"
    using demo_mapped_inv demo_translate by (simp_all add: demo_machine_def)
  show ?thesis
    using init_local_apic_starts_timer [OF s(1) [folded m(1)] m(3,4) m(2) [symmetric], of "0x201000"] s(2)
    by (auto simp: m calibration_def)
qed

end
