(* ===== verification/CLib.thy ===== *)
theory CLib
  imports Prelude
begin

text \<open>
  The C library functions of user space: the memory and string functions of the POSIX layer
  (\<^verbatim>\<open>userspace/posix-compat/src/lib.rs\<close>) and those of the network server (\<^verbatim>\<open>userspace/net-server/src/main.rs\<close>). Both work on
  the bytes of the process, a partial function of the address; touching an address that is not mapped is a fault, the value
  \<open>None\<close>. The theory proves each function against its description on byte lists and C strings.
\<close>

type_synonym umem = "u64 \<Rightarrow> u8 option"

definition store :: "umem \<Rightarrow> u64 \<Rightarrow> u8 \<Rightarrow> umem option" where
  "store m p b = (if m p = None then None else Some (m(p \<mapsto> b)))"

text \<open>A loop over a range of indices whose body can fault.\<close>

primrec for_each :: "'a list \<Rightarrow> ('a \<Rightarrow> 's \<Rightarrow> 's option) \<Rightarrow> 's \<Rightarrow> 's option" where
  "for_each [] f s = Some s"
| "for_each (x # xs) f s = do { s' \<leftarrow> f x s; for_each xs f s' }"

definition ptr_add :: "u64 \<Rightarrow> nat \<Rightarrow> u64" where
  "ptr_add p i = p + of_nat i"

section \<open>The functions of the POSIX layer\<close>

definition memset :: "umem \<Rightarrow> u64 \<Rightarrow> i32 \<Rightarrow> usize \<Rightarrow> (u64 \<times> umem) option" where
  "memset m s c n =
     (if s = 0 then Some (0, m)
      else do { m' \<leftarrow> for_each [0 ..< unat n] (\<lambda>i m. store m (ptr_add s i) (ucast c)) m; Some (s, m') })"

text \<open>\<^verbatim>\<open>core::ptr::copy\<close>: all bytes are read before the first is written. \<^verbatim>\<open>copy_nonoverlapping\<close> panics in the \<^verbatim>\<open>dev\<close> profile when
  the ranges overlap.\<close>

definition copy_bytes :: "umem \<Rightarrow> u64 \<Rightarrow> u64 \<Rightarrow> nat \<Rightarrow> umem option" where
  "copy_bytes m src dest n =
     do {
       bs \<leftarrow> for_each [0 ..< n] (\<lambda>i bs. do { b \<leftarrow> m (ptr_add src i); Some (bs @ [b]) }) [];
       for_each [0 ..< n] (\<lambda>i m. store m (ptr_add dest i) (bs ! i)) m
     }"

definition ranges_apart :: "u64 \<Rightarrow> nat \<Rightarrow> u64 \<Rightarrow> nat \<Rightarrow> bool" where
  "ranges_apart p n q k \<longleftrightarrow> unat p + n \<le> unat q \<or> unat q + k \<le> unat p"

definition memcpy :: "umem \<Rightarrow> u64 \<Rightarrow> u64 \<Rightarrow> usize \<Rightarrow> (u64 \<times> umem) option" where
  "memcpy m dest src n =
     (if dest = 0 \<or> src = 0 then Some (dest, m)
      else if ranges_apart src (unat n) dest (unat n) then do { m' \<leftarrow> copy_bytes m src dest (unat n); Some (dest, m') }
      else None)"

definition memmove :: "umem \<Rightarrow> u64 \<Rightarrow> u64 \<Rightarrow> usize \<Rightarrow> (u64 \<times> umem) option" where
  "memmove m dest src n =
     (if dest = 0 \<or> src = 0 then Some (dest, m)
      else do { m' \<leftarrow> copy_bytes m src dest (unat n); Some (dest, m') })"

text \<open>The loop that \<^verbatim>\<open>strlen\<close> and \<^verbatim>\<open>puts\<close> share.\<close>

partial_function (option) strlen_loop :: "umem \<Rightarrow> u64 \<Rightarrow> usize \<Rightarrow> usize option" where
  "strlen_loop m ptr len =
     do {
       b \<leftarrow> m ptr;
       if b = 0 then Some len
       else do { len' \<leftarrow> checked_add len 1; strlen_loop m (ptr + 1) len' }
     }"

definition strlen :: "umem \<Rightarrow> u64 \<Rightarrow> usize option" where
  "strlen m s = (if s = 0 then Some 0 else strlen_loop m s 0)"

partial_function (option) strcmp_loop :: "umem \<Rightarrow> u64 \<Rightarrow> u64 \<Rightarrow> i32 option" where
  "strcmp_loop m ptr1 ptr2 =
     do {
       c1 \<leftarrow> m ptr1;
       c2 \<leftarrow> m ptr2;
       if c1 \<noteq> c2 then Some (ucast c1 - ucast c2)
       else if c1 = 0 then Some 0
       else strcmp_loop m (ptr1 + 1) (ptr2 + 1)
     }"

definition strcmp :: "umem \<Rightarrow> u64 \<Rightarrow> u64 \<Rightarrow> i32 option" where
  "strcmp m s1 s2 = (if s1 = 0 \<or> s2 = 0 then Some 0 else strcmp_loop m s1 s2)"

primrec strncmp_loop :: "umem \<Rightarrow> u64 \<Rightarrow> u64 \<Rightarrow> nat \<Rightarrow> i32 option" where
  "strncmp_loop m ptr1 ptr2 0 = Some 0"
| "strncmp_loop m ptr1 ptr2 (Suc k) =
     do {
       c1 \<leftarrow> m ptr1;
       c2 \<leftarrow> m ptr2;
       if c1 \<noteq> c2 then Some (ucast c1 - ucast c2)
       else if c1 = 0 then Some 0
       else strncmp_loop m (ptr1 + 1) (ptr2 + 1) k
     }"

definition strncmp :: "umem \<Rightarrow> u64 \<Rightarrow> u64 \<Rightarrow> usize \<Rightarrow> i32 option" where
  "strncmp m s1 s2 n = (if s1 = 0 \<or> s2 = 0 then Some 0 else strncmp_loop m s1 s2 (unat n))"

partial_function (option) strcpy_loop :: "umem \<Rightarrow> u64 \<Rightarrow> u64 \<Rightarrow> umem option" where
  "strcpy_loop m ptr_src ptr_dest =
     do {
       c \<leftarrow> m ptr_src;
       m' \<leftarrow> store m ptr_dest c;
       if c = 0 then Some m' else strcpy_loop m' (ptr_src + 1) (ptr_dest + 1)
     }"

definition strcpy :: "umem \<Rightarrow> u64 \<Rightarrow> u64 \<Rightarrow> (u64 \<times> umem) option" where
  "strcpy m dest src =
     (if dest = 0 \<or> src = 0 then Some (dest, m)
      else do { m' \<leftarrow> strcpy_loop m src dest; Some (dest, m') })"

function strncpy_loop :: "umem \<Rightarrow> u64 \<Rightarrow> u64 \<Rightarrow> usize \<Rightarrow> usize \<Rightarrow> umem option" where
  "strncpy_loop m ptr_src ptr_dest i n =
     (if i < n then
        do {
          c \<leftarrow> m ptr_src;
          m' \<leftarrow> store m ptr_dest c;
          if c = 0 then for_each [unat i + 1 ..< unat n] (\<lambda>j m. store m (ptr_add ptr_dest (j - unat i)) 0) m'
          else strncpy_loop m' (ptr_src + 1) (ptr_dest + 1) (i + 1) n
        }
      else Some m)"
  by pat_completeness auto

lemma unat_Suc_less: "i < n \<Longrightarrow> unat (i + 1 :: 'a::len word) = unat i + 1"
  using unat_le_max [of n] unat_add_no_wrap [of i 1] by (simp add: word_less_nat_alt)

termination strncpy_loop
  by (relation "measure (\<lambda>(m, ps, pd, i, n). unat n - unat i)") (auto simp: unat_Suc_less word_less_nat_alt)

declare strncpy_loop.simps [simp del]

definition strncpy :: "umem \<Rightarrow> u64 \<Rightarrow> u64 \<Rightarrow> usize \<Rightarrow> (u64 \<times> umem) option" where
  "strncpy m dest src n =
     (if dest = 0 \<or> src = 0 then Some (dest, m)
      else do { m' \<leftarrow> strncpy_loop m src dest 0 n; Some (dest, m') })"

section \<open>The functions of the network server\<close>

definition net_memcpy :: "umem \<Rightarrow> u64 \<Rightarrow> u64 \<Rightarrow> usize \<Rightarrow> (u64 \<times> umem) option" where
  "net_memcpy m dest src n =
     do {
       m' \<leftarrow> for_each [0 ..< unat n] (\<lambda>i m. do { b \<leftarrow> m (ptr_add src i); store m (ptr_add dest i) b }) m;
       Some (dest, m')
     }"

definition net_memset :: "umem \<Rightarrow> u64 \<Rightarrow> i32 \<Rightarrow> usize \<Rightarrow> (u64 \<times> umem) option" where
  "net_memset m s c n =
     do { m' \<leftarrow> for_each [0 ..< unat n] (\<lambda>i m. store m (ptr_add s i) (ucast c)) m; Some (s, m') }"

primrec memcmp_loop :: "umem \<Rightarrow> u64 \<Rightarrow> u64 \<Rightarrow> nat list \<Rightarrow> i32 option" where
  "memcmp_loop m s1 s2 [] = Some 0"
| "memcmp_loop m s1 s2 (i # is) =
     do {
       a \<leftarrow> m (ptr_add s1 i);
       b \<leftarrow> m (ptr_add s2 i);
       if a \<noteq> b then Some (ucast a - ucast b) else memcmp_loop m s1 s2 is
     }"

definition memcmp :: "umem \<Rightarrow> u64 \<Rightarrow> u64 \<Rightarrow> usize \<Rightarrow> i32 option" where
  "memcmp m s1 s2 n = memcmp_loop m s1 s2 [0 ..< unat n]"

definition bcmp :: "umem \<Rightarrow> u64 \<Rightarrow> u64 \<Rightarrow> usize \<Rightarrow> i32 option" where
  "bcmp m s1 s2 n = memcmp m s1 s2 n"

partial_function (option) net_strlen_loop :: "umem \<Rightarrow> u64 \<Rightarrow> usize \<Rightarrow> usize option" where
  "net_strlen_loop m s i =
     do {
       b \<leftarrow> m (s + i);
       if b \<noteq> 0 then do { i' \<leftarrow> checked_add i 1; net_strlen_loop m s i' } else Some i
     }"

definition net_strlen :: "umem \<Rightarrow> u64 \<Rightarrow> usize option" where
  "net_strlen m s = net_strlen_loop m s 0"

definition net_memmove :: "umem \<Rightarrow> u64 \<Rightarrow> u64 \<Rightarrow> usize \<Rightarrow> (u64 \<times> umem) option" where
  "net_memmove m dest src n =
     do {
       m' \<leftarrow> for_each (if src < dest then rev [0 ..< unat n] else [0 ..< unat n])
              (\<lambda>i m. do { b \<leftarrow> m (ptr_add src i); store m (ptr_add dest i) b }) m;
       Some (dest, m')
     }"

section \<open>Byte lists in memory\<close>

definition bytes_at :: "umem \<Rightarrow> u64 \<Rightarrow> u8 list \<Rightarrow> bool" where
  "bytes_at m p xs \<longleftrightarrow> unat p + length xs \<le> 2 ^ 64 \<and> (\<forall>i < length xs. m (ptr_add p i) = Some (xs ! i))"

definition mapped :: "umem \<Rightarrow> u64 \<Rightarrow> nat \<Rightarrow> bool" where
  "mapped m p n \<longleftrightarrow> unat p + n \<le> 2 ^ 64 \<and> (\<forall>i < n. m (ptr_add p i) \<noteq> None)"

text \<open>The memory after writing a list of bytes at an address.\<close>

definition put :: "umem \<Rightarrow> u64 \<Rightarrow> u8 list \<Rightarrow> umem" where
  "put m p xs a = (if unat p \<le> unat a \<and> unat a < unat p + length xs then Some (xs ! (unat a - unat p)) else m a)"

lemma unat_ptr_add: "unat p + i < 2 ^ 64 \<Longrightarrow> unat (ptr_add p i) = unat p + i"
  unfolding ptr_add_def by (subst unat_add_no_wrap) (simp_all add: unat_of_nat_small)

lemma ptr_add_simps [simp]: "ptr_add p 0 = p" "ptr_add (p + 1) i = ptr_add p (Suc i)"
  by (simp_all add: ptr_add_def add.assoc)

lemma put_Nil [simp]: "put m p [] = m"
  by (rule ext) (auto simp: put_def)

lemma put_at: "unat p + length xs \<le> 2 ^ 64 \<Longrightarrow> i < length xs \<Longrightarrow> put m p xs (ptr_add p i) = Some (xs ! i)"
  by (simp add: put_def unat_ptr_add)

lemma bytes_at_put: "unat p + length xs \<le> 2 ^ 64 \<Longrightarrow> bytes_at (put m p xs) p xs"
  by (simp add: bytes_at_def put_at)

lemma put_outside: "unat a < unat p \<or> unat p + length xs \<le> unat a \<Longrightarrow> put m p xs a = m a"
  by (auto simp: put_def)

lemma put_mapped: "m a \<noteq> None \<Longrightarrow> put m p xs a \<noteq> None"
  by (simp add: put_def)

lemma unat_word_eqD: "unat a = unat (b :: 'a::len word) \<Longrightarrow> a = b"
  by (simp add: word_unat_eq_iff)

lemma store_append:
  assumes "unat p + length xs < 2 ^ 64" and "m (ptr_add p (length xs)) \<noteq> None"
  shows "store (put m p xs) (ptr_add p (length xs)) b = Some (put m p (xs @ [b]))"
proof -
  note u = unat_ptr_add [OF assms(1)]
  have "((put m p xs)(ptr_add p (length xs) \<mapsto> b)) a = put m p (xs @ [b]) a" for a
  proof (cases "a = ptr_add p (length xs)")
    case True
    then show ?thesis by (simp add: put_def u)
  next
    case False
    then have "unat a \<noteq> unat p + length xs" using unat_word_eqD [of a "ptr_add p (length xs)"] u by auto
    then have "unat a < unat p + length (xs @ [b]) \<longleftrightarrow> unat a < unat p + length xs" by auto
    then show ?thesis using False by (auto simp: put_def nth_append)
  qed
  then show ?thesis using put_mapped [of m "ptr_add p (length xs)"] assms(2) unfolding store_def by (auto simp del: fun_upd_apply)
qed

lemma store_Cons:
  assumes "unat p + k + length xs < 2 ^ 64" and "m (ptr_add p k) \<noteq> None"
  shows "store (put m (ptr_add p (Suc k)) xs) (ptr_add p k) b = Some (put m (ptr_add p k) (b # xs))"
proof -
  have u: "unat (ptr_add p k) = unat p + k" using assms(1) by (intro unat_ptr_add) simp
  have w: "xs \<noteq> [] \<Longrightarrow> unat (ptr_add p (Suc k)) = Suc (unat p + k)" using assms(1) unat_ptr_add [of p "Suc k"] by (cases xs) auto
  have "((put m (ptr_add p (Suc k)) xs)(ptr_add p k \<mapsto> b)) a = put m (ptr_add p k) (b # xs) a" for a
  proof (cases "a = ptr_add p k")
    case True
    then show ?thesis by (simp add: put_def)
  next
    case False
    then have "unat a \<noteq> unat p + k" using unat_word_eqD [of a "ptr_add p k"] u by auto
    then show ?thesis using False by (cases "xs = []") (auto simp: put_def u w nth_Cons' Suc_le_eq)
  qed
  then show ?thesis using put_mapped [of m "ptr_add p k"] assms(2) unfolding store_def by (auto simp del: fun_upd_apply)
qed

lemma for_each_append: "for_each (xs @ ys) f s = do { s' \<leftarrow> for_each xs f s; for_each ys f s' }"
  by (induction xs arbitrary: s) auto

lemma for_each_upt: "for_each [0 ..< Suc n] f s = do { s' \<leftarrow> for_each [0 ..< n] f s; f n s' }"
  by (simp add: for_each_append)

text \<open>Storing byte after byte writes the list, also when the bytes are computed from the memory on the way.\<close>

lemma for_each_store_from:
  assumes "mapped m p (length xs)"
    and "\<And>i. k \<le> i \<Longrightarrow> i < length xs \<Longrightarrow> f i (put m p (take i xs)) = store (put m p (take i xs)) (ptr_add p i) (xs ! i)"
  shows "k \<le> n \<Longrightarrow> n \<le> length xs \<Longrightarrow> for_each [k ..< n] f (put m p (take k xs)) = Some (put m p (take n xs))"
proof (induction n rule: dec_induct)
  case (step n)
  have "store (put m p (take n xs)) (ptr_add p n) (xs ! n) = Some (put m p (take n xs @ [xs ! n]))"
    using store_append [of p "take n xs" m "xs ! n"] assms(1) step by (simp add: mapped_def)
  then show ?case using step assms(2) [of n] by (simp add: for_each_append take_Suc_conv_app_nth)
qed simp

lemmas for_each_store = for_each_store_from [where k = 0, simplified]

lemma for_each_rev_store:
  assumes "mapped m p (length xs)"
    and "\<And>i. i < length xs \<Longrightarrow> f i (put m (ptr_add p (Suc i)) (drop (Suc i) xs)) =
      store (put m (ptr_add p (Suc i)) (drop (Suc i) xs)) (ptr_add p i) (xs ! i)"
  shows "n \<le> length xs \<Longrightarrow> for_each (rev [n ..< length xs]) f m = Some (put m (ptr_add p n) (drop n xs))"
proof (induction rule: inc_induct)
  case (step n)
  have "store (put m (ptr_add p (Suc n)) (drop (Suc n) xs)) (ptr_add p n) (xs ! n) = Some (put m (ptr_add p n) (xs ! n # drop (Suc n) xs))"
    using assms(1) step.hyps by (intro store_Cons) (auto simp: mapped_def)
  moreover have "rev [n ..< length xs] = rev [Suc n ..< length xs] @ [n]" using step.hyps by (simp add: upt_conv_Cons)
  ultimately show ?case using step assms(2) [of n] by (simp add: for_each_append Cons_nth_drop_Suc)
qed simp

section \<open>Filling and copying\<close>

lemma fill_spec:
  assumes "mapped m s n"
  shows "for_each [0 ..< n] (\<lambda>i m. store m (ptr_add s i) b) m = Some (put m s (replicate n b))"
  using for_each_store [of m s "replicate n b" "\<lambda>i m. store m (ptr_add s i) b" n] assms by simp

lemma memset_spec: "s \<noteq> 0 \<Longrightarrow> mapped m s (unat n) \<Longrightarrow> memset m s c n = Some (s, put m s (replicate (unat n) (ucast c)))"
  by (simp add: memset_def fill_spec)

lemma net_memset_spec: "mapped m s (unat n) \<Longrightarrow> net_memset m s c n = Some (s, put m s (replicate (unat n) (ucast c)))"
  by (simp add: net_memset_def fill_spec)

lemma read_bytes_spec:
  assumes "bytes_at m src xs"
  shows "n \<le> length xs \<Longrightarrow> for_each [0 ..< n] (\<lambda>i bs. do { b \<leftarrow> m (ptr_add src i); Some (bs @ [b]) }) [] = Some (take n xs)"
proof (induction n)
  case (Suc n)
  then show ?case using assms by (simp only: for_each_upt) (simp add: bytes_at_def take_Suc_conv_app_nth)
qed simp

lemma copy_bytes_spec:
  assumes "bytes_at m src xs" and "mapped m dest (length xs)"
  shows "copy_bytes m src dest (length xs) = Some (put m dest xs)"
  using read_bytes_spec [OF assms(1), of "length xs"] for_each_store [OF assms(2), of "\<lambda>i m. store m (ptr_add dest i) (xs ! i)" "length xs"]
  by (simp add: copy_bytes_def)

text \<open>A copy loop that reads byte \<open>i\<close> and writes byte \<open>i\<close>: upwards it is right unless the destination starts inside the source, downwards
  unless it starts below it.\<close>

lemma copy_up:
  assumes "bytes_at m src xs" and "mapped m dest (length xs)" and "dest \<le> src \<or> ranges_apart src (length xs) dest (length xs)"
  shows "for_each [0 ..< length xs] (\<lambda>i m. do { b \<leftarrow> m (ptr_add src i); store m (ptr_add dest i) b }) m = Some (put m dest xs)"
proof -
  have "put m dest (take i xs) (ptr_add src i) = Some (xs ! i)" if "i < length xs" for i
  proof -
    have "unat (ptr_add src i) = unat src + i" using assms(1) that by (intro unat_ptr_add) (simp add: bytes_at_def)
    then have "put m dest (take i xs) (ptr_add src i) = m (ptr_add src i)"
      using assms(3) that by (intro put_outside) (auto simp: word_le_nat_alt ranges_apart_def)
    then show ?thesis using assms(1) that by (simp add: bytes_at_def)
  qed
  then show ?thesis
    using for_each_store [OF assms(2), of "\<lambda>i m. do { b \<leftarrow> m (ptr_add src i); store m (ptr_add dest i) b }" "length xs"] by simp
qed

lemma copy_down:
  assumes "bytes_at m src xs" and "mapped m dest (length xs)" and "src < dest"
  shows "for_each (rev [0 ..< length xs]) (\<lambda>i m. do { b \<leftarrow> m (ptr_add src i); store m (ptr_add dest i) b }) m = Some (put m dest xs)"
proof -
  have "put m (ptr_add dest (Suc i)) (drop (Suc i) xs) (ptr_add src i) = Some (xs ! i)" if "i < length xs" for i
  proof (cases "Suc i < length xs")
    case False
    then show ?thesis using assms(1) that by (simp add: bytes_at_def)
  next
    case True
    then have "unat (ptr_add dest (Suc i)) = unat dest + Suc i" using assms(2) by (intro unat_ptr_add) (simp add: mapped_def)
    moreover have "unat (ptr_add src i) = unat src + i" using assms(1) that by (intro unat_ptr_add) (simp add: bytes_at_def)
    ultimately have "put m (ptr_add dest (Suc i)) (drop (Suc i) xs) (ptr_add src i) = m (ptr_add src i)"
      using assms(3) by (intro put_outside) (simp add: word_less_nat_alt)
    then show ?thesis using assms(1) that by (simp add: bytes_at_def)
  qed
  then show ?thesis
    using for_each_rev_store [OF assms(2), of "\<lambda>i m. do { b \<leftarrow> m (ptr_add src i); store m (ptr_add dest i) b }" 0] by simp
qed

text \<open>What a caller of \<^verbatim>\<open>memmove\<close> relies on.\<close>

locale mover =
  fixes mv :: "umem \<Rightarrow> u64 \<Rightarrow> u64 \<Rightarrow> usize \<Rightarrow> (u64 \<times> umem) option"
  assumes moves: "bytes_at m src xs \<Longrightarrow> mapped m dest (length xs) \<Longrightarrow> src \<noteq> 0 \<Longrightarrow> dest \<noteq> 0 \<Longrightarrow> unat n = length xs \<Longrightarrow>
    mv m dest src n = Some (dest, put m dest xs)"
begin

text \<open>Saving a range elsewhere, losing it and moving it back restores it.\<close>

lemma save_restore:
  assumes "bytes_at m src xs" "mapped m buf (length xs)" "src \<noteq> 0" "buf \<noteq> 0" "unat n = length xs"
    and "ranges_apart src (length xs) buf (length xs)" and "length ys = length xs"
  shows "\<exists>m1 m2. mv m buf src n = Some (buf, m1) \<and> mv (put m1 src ys) src buf n = Some (src, m2) \<and> bytes_at m2 src xs"
proof -
  let ?m1 = "put (put m buf xs) src ys"
  have "?m1 (ptr_add buf i) = Some (xs ! i)" if "i < length xs" for i
  proof -
    have "unat (ptr_add buf i) = unat buf + i" using assms(2) that by (intro unat_ptr_add) (simp add: mapped_def)
    then have "?m1 (ptr_add buf i) = put m buf xs (ptr_add buf i)"
      using assms(6,7) that by (intro put_outside) (auto simp: ranges_apart_def)
    then show ?thesis using put_at [of buf xs i m] assms(2) that by (simp add: mapped_def)
  qed
  then have "bytes_at ?m1 buf xs" using assms(2) by (simp add: bytes_at_def mapped_def)
  moreover have l: "unat src + length xs \<le> 2 ^ 64" using assms(1) by (simp add: bytes_at_def)
  moreover from this have "mapped ?m1 src (length xs)" using put_at [of src ys] assms(7) by (simp add: mapped_def)
  ultimately have "mv ?m1 src buf n = Some (src, put ?m1 src xs)" using assms by (intro moves) auto
  then show ?thesis using moves [OF assms(1-5)] bytes_at_put [OF l] by blast
qed

end

interpretation posix_mover: mover memmove
  by unfold_locales (simp add: memmove_def copy_bytes_spec)

interpretation net_mover: mover net_memmove
  by unfold_locales (simp add: net_memmove_def copy_down copy_up not_less)

section \<open>Strings\<close>

definition cstring :: "umem \<Rightarrow> u64 \<Rightarrow> u8 list \<Rightarrow> bool" where
  "cstring m p xs \<longleftrightarrow> 0 \<notin> set xs \<and> bytes_at m p (xs @ [0])"

lemma bytes_at_take: "bytes_at m p xs \<Longrightarrow> bytes_at m p (take n xs)"
  by (auto simp: bytes_at_def)

lemma bytes_at_Cons: "bytes_at m p (x # xs) \<Longrightarrow> m p = Some x \<and> (xs \<noteq> [] \<longrightarrow> bytes_at m (p + 1) xs)"
proof -
  assume b: "bytes_at m p (x # xs)"
  have "m (ptr_add p (Suc i)) = Some (xs ! i)" if "i < length xs" for i
    using b that unfolding bytes_at_def by (metis Suc_less_eq length_Cons nth_Cons_Suc)
  moreover have "xs \<noteq> [] \<Longrightarrow> unat (p + 1) = unat p + 1"
    using b unat_ptr_add [of p 1] by (cases xs) (auto simp: bytes_at_def ptr_add_def)
  moreover have "m p = Some x" using b unfolding bytes_at_def by force
  ultimately show ?thesis using b by (auto simp: bytes_at_def)
qed

lemma cstring_Nil: "cstring m p [] \<Longrightarrow> m p = Some 0"
  using bytes_at_Cons by (fastforce simp: cstring_def)

lemma cstring_Cons: "cstring m p (x # xs) \<Longrightarrow> m p = Some x \<and> x \<noteq> 0 \<and> cstring m (p + 1) xs"
  using bytes_at_Cons [of m p x "xs @ [0]"] by (auto simp: cstring_def)

lemma strlen_loop_spec: "cstring m p xs \<Longrightarrow> unat k + length xs < 2 ^ 64 \<Longrightarrow> strlen_loop m p k = Some (k + of_nat (length xs))"
proof (induction xs arbitrary: p k)
  case Nil
  then show ?case using cstring_Nil [OF Nil(1)] by (simp add: strlen_loop.simps)
next
  case (Cons x xs)
  have "checked_add k 1 = Some (k + 1)" "unat (k + 1) = unat k + 1"
    using Cons.prems(2) by (auto simp: checked_add_def unat_add_no_wrap)
  then show ?case using Cons cstring_Cons [OF Cons.prems(1)] by (subst strlen_loop.simps) (simp add: add.assoc)
qed

lemma strlen_spec: "cstring m p xs \<Longrightarrow> p \<noteq> 0 \<Longrightarrow> strlen m p = Some (of_nat (length xs))"
  using strlen_loop_spec [of m p xs 0] by (simp add: strlen_def cstring_def bytes_at_def)

lemma net_strlen_loop_eq: "net_strlen_loop m p k = strlen_loop m (p + k) k"
proof -
  have le1: "net_strlen_loop m p k = Some r \<Longrightarrow> strlen_loop m (p + k) k = Some r" for r
  proof (erule net_strlen_loop.raw_induct [where P = "\<lambda>m p k r. strlen_loop m (p + k) k = Some r", rotated])
    fix f m p k r
    assume "\<And>m p k r. f m p k = Some r \<Longrightarrow> strlen_loop m (p + k) k = Some (r :: usize)"
      and "m (p + k) \<bind> (\<lambda>b. if b \<noteq> 0 then checked_add k 1 \<bind> f m p else Some k) = Some r"
    then show "strlen_loop m (p + k) k = Some r"
      by (subst strlen_loop.simps) (auto simp: bind_intros checked_add_Some add.assoc split: if_splits)
  qed
  have "strlen_loop m q k = Some r \<Longrightarrow> net_strlen_loop m (q - k) k = Some r" for r q
  proof (erule strlen_loop.raw_induct [where P = "\<lambda>m q k r. net_strlen_loop m (q - k) k = Some r", rotated])
    fix f m q k r
    assume "\<And>m q k r. f m q k = Some r \<Longrightarrow> net_strlen_loop m (q - k) k = Some (r :: usize)"
      and "m q \<bind> (\<lambda>b. if b = 0 then Some k else checked_add k 1 \<bind> f m (q + 1)) = Some r"
    then show "net_strlen_loop m (q - k) k = Some r"
      by (subst net_strlen_loop.simps) (fastforce simp: bind_intros checked_add_Some split: if_splits)
  qed
  from this [of "p + k"] le1 show ?thesis by (cases "net_strlen_loop m p k"; cases "strlen_loop m (p + k) k") auto
qed

lemma net_strlen_spec: "cstring m p xs \<Longrightarrow> net_strlen m p = Some (of_nat (length xs))"
  using strlen_loop_spec [of m p xs 0] by (simp add: net_strlen_def net_strlen_loop_eq cstring_def bytes_at_def)

text \<open>The result of a comparison: the difference of the first bytes that differ, the end of a string counting as zero.\<close>

fun byte_diff :: "u8 list \<Rightarrow> u8 list \<Rightarrow> i32" where
  "byte_diff (x # xs) (y # ys) = (if x = y then byte_diff xs ys else ucast x - ucast y)"
| "byte_diff (x # xs) [] = ucast x"
| "byte_diff [] (y # ys) = - ucast y"
| "byte_diff [] [] = 0"

lemma sint_diff: "sint (ucast x - ucast y :: i32) = uint (x :: u8) - uint (y :: u8)"
proof -
  have b: "uint x < 256" "uint y < 256" "0 \<le> uint x" "0 \<le> uint y" using uint_lt2p [of x] uint_lt2p [of y] by auto
  have "(ucast x - ucast y :: i32) = word_of_int (uint x - uint y)" by simp
  then have "sint (ucast x - ucast y :: i32) = signed_take_bit 31 (uint x - uint y)" by (simp only: sint_sbintrunc') simp
  then show ?thesis using b by (simp add: signed_take_bit_int_eq_self)
qed

lemma byte_diff_meaning:
  "0 \<notin> set xs \<Longrightarrow> 0 \<notin> set ys \<Longrightarrow> (byte_diff xs ys = 0 \<longleftrightarrow> xs = ys) \<and> (sint (byte_diff xs ys) < 0 \<longleftrightarrow> ord_class.lexordp xs ys)"
proof (induction xs ys rule: byte_diff.induct)
  case (1 x xs y ys)
  have "ucast x - ucast y \<noteq> (0 :: i32)" if "x \<noteq> y"
  proof
    assume "ucast x - ucast y = (0 :: i32)"
    then have "uint x = uint y" using sint_diff [of x y] by simp
    then show False using that by (simp add: word_uint_eq_iff)
  qed
  moreover have "x = y \<longleftrightarrow> uint x = uint y" by (simp add: word_uint_eq_iff)
  ultimately show ?case using 1 sint_diff [of x y] by (auto simp: word_less_def)
next
  case (2 x xs)
  have "sint (ucast x :: i32) = uint x" using sint_diff [of x 0] by simp
  moreover have "uint x \<noteq> 0" "0 \<le> uint x" using 2 by (simp_all add: uint_0_iff)
  ultimately show ?case using 2 by force
next
  case (3 y ys)
  have "sint (- ucast y :: i32) = - uint y" using sint_diff [of 0 y] by simp
  moreover have "0 < uint y" using 3 uint_ge_0 [of y] uint_0_iff [of y] by (simp add: order_less_le)
  moreover from calculation have "ucast y \<noteq> (0 :: i32)" by auto
  ultimately show ?case using 3 by auto
qed simp

lemma strcmp_loop_spec: "cstring m p xs \<Longrightarrow> cstring m q ys \<Longrightarrow> strcmp_loop m p q = Some (byte_diff xs ys)"
proof (induction xs ys arbitrary: p q rule: byte_diff.induct)
  case (1 x xs y ys)
  then show ?case using cstring_Cons [OF 1(2)] cstring_Cons [OF 1(3)] by (subst strcmp_loop.simps) auto
next
  case (2 x xs)
  then show ?case using cstring_Cons [OF 2(1)] cstring_Nil [OF 2(2)] by (subst strcmp_loop.simps) auto
next
  case (3 y ys)
  then show ?case using cstring_Cons [OF 3(2)] cstring_Nil [OF 3(1)] by (subst strcmp_loop.simps) auto
next
  case 4
  then show ?case using cstring_Nil [OF 4(1)] cstring_Nil [OF 4(2)] by (subst strcmp_loop.simps) simp
qed

lemma strncmp_loop_spec:
  "cstring m p xs \<Longrightarrow> cstring m q ys \<Longrightarrow> strncmp_loop m p q n = Some (byte_diff (take n xs) (take n ys))"
proof (induction n arbitrary: p q xs ys)
  case (Suc n)
  show ?case
  proof (cases xs; cases ys)
    fix x xs' y ys' assume c: "xs = x # xs'" "ys = y # ys'"
    then show ?thesis using Suc cstring_Cons [of m p x xs'] cstring_Cons [of m q y ys'] by auto
  next
    fix x xs' assume c: "xs = x # xs'" "ys = []"
    then show ?thesis using Suc cstring_Cons [of m p x xs'] cstring_Nil [of m q] by auto
  next
    fix y ys' assume c: "xs = []" "ys = y # ys'"
    then show ?thesis using Suc cstring_Nil [of m p] cstring_Cons [of m q y ys'] by auto
  next
    assume "xs = []" "ys = []"
    then show ?thesis using Suc cstring_Nil [of m p] cstring_Nil [of m q] by auto
  qed
qed simp

lemma memcmp_loop_spec:
  assumes "bytes_at m p xs" "bytes_at m q ys" "length ys = length xs"
  shows "k \<le> length xs \<Longrightarrow> memcmp_loop m p q [k ..< length xs] = Some (byte_diff (drop k xs) (drop k ys))"
proof (induction rule: inc_induct)
  case (step k)
  have "m (ptr_add p k) = Some (xs ! k)" "m (ptr_add q k) = Some (ys ! k)"
    using assms step.hyps by (simp_all add: bytes_at_def)
  moreover have "drop k xs = xs ! k # drop (Suc k) xs" "drop k ys = ys ! k # drop (Suc k) ys"
    using step.hyps assms(3) by (simp_all add: Cons_nth_drop_Suc)
  ultimately show ?case using step by (simp add: upt_conv_Cons)
qed (use assms(3) in simp)

lemma memcmp_spec: "bytes_at m p xs \<Longrightarrow> bytes_at m q ys \<Longrightarrow> length ys = length xs \<Longrightarrow> unat n = length xs \<Longrightarrow>
    memcmp m p q n = Some (byte_diff xs ys)"
  using memcmp_loop_spec [of m p xs q ys 0] by (simp add: memcmp_def)

section \<open>Copying strings\<close>

text \<open>Reading the source while the destination is being written.\<close>

lemma source_kept:
  assumes "bytes_at m src bs" "ranges_apart src (length bs) dest n" "i < length bs" "k \<le> n" "length ys = k"
  shows "put m dest ys (ptr_add src i) = Some (bs ! i)"
proof -
  have "unat (ptr_add src i) = unat src + i" using assms(1,3) by (intro unat_ptr_add) (simp add: bytes_at_def)
  then have "put m dest ys (ptr_add src i) = m (ptr_add src i)"
    using assms(2-5) by (intro put_outside) (auto simp: ranges_apart_def)
  then show ?thesis using assms(1,3) by (simp add: bytes_at_def)
qed

lemma ptr_add_Suc: "ptr_add p i + 1 = ptr_add p (Suc i)"
  by (simp add: ptr_add_def)

lemma strcpy_spec:
  assumes "cstring m src xs" "mapped m dest (length xs + 1)" "ranges_apart src (length xs + 1) dest (length xs + 1)"
    and "src \<noteq> 0" "dest \<noteq> 0"
  shows "strcpy m dest src = Some (dest, put m dest (xs @ [0]))"
proof -
  let ?bs = "xs @ [0]"
  have b: "bytes_at m src ?bs" "0 \<notin> set xs" using assms(1) by (simp_all add: cstring_def)
  have "strcpy_loop (put m dest (take i ?bs)) (ptr_add src i) (ptr_add dest i) = Some (put m dest ?bs)" if "i \<le> length xs" for i
    using that
  proof (induction rule: inc_induct)
    case base
    have "store (put m dest xs) (ptr_add dest (length xs)) 0 = Some (put m dest ?bs)"
      using assms(2) by (intro store_append) (auto simp: mapped_def)
    then show ?case using source_kept [OF b(1), of dest "length xs + 1" "length xs" "length xs" xs] assms(3)
      by (subst strcpy_loop.simps) simp
  next
    case (step i)
    have "store (put m dest (take i xs)) (ptr_add dest i) (xs ! i) = Some (put m dest (take (Suc i) xs))"
      using store_append [of dest "take i xs" m "xs ! i"] assms(2) step.hyps
      by (auto simp: mapped_def take_Suc_conv_app_nth)
    moreover have "put m dest (take i xs) (ptr_add src i) = Some (xs ! i)"
      using source_kept [OF b(1), of dest "length xs + 1" i i "take i xs"] assms(3) step.hyps by (simp add: nth_append)
    moreover have "xs ! i \<noteq> 0" using b(2) step.hyps by (metis nth_mem)
    ultimately show ?case using step by (subst strcpy_loop.simps) (simp add: ptr_add_Suc)
  qed
  from this [of 0] show ?thesis using assms(4,5) by (simp add: strcpy_def)
qed

lemma strncpy_spec:
  assumes "0 \<notin> set xs" "bytes_at m src (take (unat n) (xs @ [0]))" "mapped m dest (unat n)"
    and "ranges_apart src (min (unat n) (length xs + 1)) dest (unat n)" "src \<noteq> 0" "dest \<noteq> 0"
  shows "strncpy m dest src n = Some (dest, put m dest (take (unat n) (xs @ replicate (unat n) 0)))"
proof -
  let ?n = "unat n" and ?bs = "take (unat n) (xs @ replicate (unat n) 0)"
  have len: "length ?bs = ?n" by simp
  have st: "store (put m dest (take i ?bs)) (ptr_add dest i) (?bs ! i) = Some (put m dest (take (Suc i) ?bs))" if "i < ?n" for i
    using store_append [of dest "take i ?bs" m "?bs ! i"] assms(3) that len
    by (auto simp: mapped_def take_Suc_conv_app_nth simp del: take_append take_replicate)
  have rd: "put m dest (take i ?bs) (ptr_add src i) = Some (?bs ! i)" if "i < ?n" "i \<le> length xs" for i
  proof -
    have l: "length (take ?n (xs @ [0])) = min ?n (length xs + 1)" by simp
    have "put m dest (take i ?bs) (ptr_add src i) = Some (take ?n (xs @ [0]) ! i)"
      by (rule source_kept [OF assms(2) assms(4) [folded l], where k = i]) (use that in simp_all)
    then show ?thesis using that by (auto simp: nth_append)
  qed
  have "strncpy_loop (put m dest (take i ?bs)) (ptr_add src i) (ptr_add dest i) (of_nat i) n = Some (put m dest ?bs)"
    if "i \<le> ?n" "i \<le> length xs" for i
    using that
  proof (induction i rule: inc_induct)
    case base
    then show ?case by (simp add: strncpy_loop.simps)
  next
    case (step i)
    have i: "unat (of_nat i :: usize) = i" using step.hyps unat_le_max [of n] by (intro unat_of_nat_small) simp
    then have lt: "of_nat i < n" using step.hyps by (simp add: word_less_nat_alt)
    show ?case
    proof (cases "i = length xs")
      case True
      then have z: "?bs ! i = 0" using step.hyps by (simp add: nth_append)
      have zz: "?bs ! j = 0" if "i \<le> j" "j < ?n" for j using True that by (simp add: nth_append)
      have "for_each [Suc i ..< ?n] (\<lambda>j m. store m (ptr_add (ptr_add dest i) (j - i)) 0) (put m dest (take (Suc i) ?bs)) = Some (put m dest (take ?n ?bs))"
      proof (rule for_each_store_from)
        show "mapped m dest (length ?bs)" using assms(3) len by simp
        show "store (put m dest (take j ?bs)) (ptr_add (ptr_add dest i) (j - i)) 0 = store (put m dest (take j ?bs)) (ptr_add dest j) (?bs ! j)"
          if "Suc i \<le> j" "j < length ?bs" for j
          using that zz [of j] by (simp add: ptr_add_def add.assoc of_nat_add [symmetric] del: of_nat_add)
      qed (use step.hyps in simp_all)
      then show ?thesis using rd [of i] st [of i] step.hyps step.prems z lt
        by (subst strncpy_loop.simps) (simp add: i del: take_append take_replicate)
    next
      case False
      then have "?bs ! i \<noteq> 0" using step assms(1) by (auto simp: nth_append) (metis le_neq_implies_less nth_mem)
      then show ?thesis using rd [of i] st [of i] step False lt
        by (subst strncpy_loop.simps) (simp add: ptr_add_Suc add.commute [of "of_nat i" "1 :: usize"] del: take_append take_replicate)
    qed
  qed
  from this [of 0] show ?thesis using assms(5,6) by (simp add: strncpy_def)
qed

section \<open>The contracts\<close>

text \<open> C31: \<^verbatim>\<open>memmove\<close> of the network server, a loop that runs upwards or downwards, gives the same result as the POSIX layer's, which is
  the copy through an intermediate buffer: for all ranges that do not wrap around, overlapping in any way, the
  destination holds the old bytes of the source and nothing else changes.\<close>

theorem memmove_moves_overlapping:
  assumes "bytes_at m src xs" "mapped m dest (length xs)" "src \<noteq> 0" "dest \<noteq> 0" "unat n = length xs"
  shows "net_memmove m dest src n = memmove m dest src n \<and> (\<exists>m'. memmove m dest src n = Some (dest, m') \<and> bytes_at m' dest xs
    \<and> (\<forall>a. unat a < unat dest \<or> unat dest + unat n \<le> unat a \<longrightarrow> m' a = m a))"
  using posix_mover.moves [OF assms] net_mover.moves [OF assms] assms(2,5) bytes_at_put [of dest xs m] put_outside [of _ dest xs m]
  by (simp add: mapped_def)

definition demo_mem :: umem where
  "demo_mem = put (\<lambda>_. Some 0) 0x1000 [97, 98, 99, 0]"

lemma demo_mapped: "unat p + n \<le> 2 ^ 64 \<Longrightarrow> mapped demo_mem p n"
  by (simp add: mapped_def demo_mem_def put_def)

lemma demo_strings: "cstring demo_mem 0x1000 [97, 98, 99]" "cstring demo_mem 0x1001 [98, 99]"
proof -
  show c: "cstring demo_mem 0x1000 [97, 98, 99]"
    using bytes_at_put [of "0x1000" "[97, 98, 99, 0]" "\<lambda>_. Some 0"] by (simp add: demo_mem_def cstring_def)
  show "cstring demo_mem 0x1001 [98, 99]" using cstring_Cons [OF c] by simp
qed

theorem memmove_moves_overlapping_witness:
  "net_memmove demo_mem 0x1001 0x1000 3 = memmove demo_mem 0x1001 0x1000 3 \<and>
   (\<exists>m'. memmove demo_mem 0x1001 0x1000 3 = Some (0x1001, m') \<and> bytes_at m' 0x1001 [97, 98, 99])"
  using memmove_moves_overlapping [of demo_mem "0x1000" "[97, 98, 99]" "0x1001" 3]
  using bytes_at_take [of demo_mem "0x1000" "[97, 98, 99, 0]" 3] demo_strings(1) demo_mapped [of "0x1001" "length [97, 98, 99 :: u8]"]
  by (auto simp: cstring_def)

text \<open>On terminated strings \<^verbatim>\<open>strcmp\<close> returns, its result is zero exactly for equal strings and negative exactly if the first is
  lexicographically smaller as unsigned bytes; \<^verbatim>\<open>strncmp\<close> does the same for the strings cut after \<open>n\<close> bytes.\<close>

lemma strcmp_orders_strings:
  assumes "cstring m p xs" "cstring m q ys" "p \<noteq> 0" "q \<noteq> 0"
  shows "(\<exists>r. strcmp m p q = Some r \<and> (r = 0 \<longleftrightarrow> xs = ys) \<and> (sint r < 0 \<longleftrightarrow> ord_class.lexordp xs ys))
    \<and> (\<exists>r. strncmp m p q n = Some r \<and> (r = 0 \<longleftrightarrow> take (unat n) xs = take (unat n) ys)
      \<and> (sint r < 0 \<longleftrightarrow> ord_class.lexordp (take (unat n) xs) (take (unat n) ys)))"
proof (intro conjI)
  have z: "0 \<notin> set xs" "0 \<notin> set ys" "0 \<notin> set (take k xs)" "0 \<notin> set (take k ys)" for k
    using assms(1,2) by (auto simp: cstring_def dest: in_set_takeD)
  show "\<exists>r. strcmp m p q = Some r \<and> (r = 0 \<longleftrightarrow> xs = ys) \<and> (sint r < 0 \<longleftrightarrow> ord_class.lexordp xs ys)"
    using strcmp_loop_spec [OF assms(1,2)] byte_diff_meaning [OF z(1,2)] assms(3,4) by (simp add: strcmp_def)
  show "\<exists>r. strncmp m p q n = Some r \<and> (r = 0 \<longleftrightarrow> take (unat n) xs = take (unat n) ys)
      \<and> (sint r < 0 \<longleftrightarrow> ord_class.lexordp (take (unat n) xs) (take (unat n) ys))"
    using strncmp_loop_spec [OF assms(1,2)] byte_diff_meaning [OF z(3,4)] assms(3,4) by (simp add: strncmp_def)
qed

text \<open>\<^verbatim>\<open>strcpy\<close> and \<^verbatim>\<open>strncpy\<close> into a range apart from the source. \<^verbatim>\<open>strcpy\<close> makes an equal string, of the same \<^verbatim>\<open>strlen\<close> and for which \<^verbatim>\<open>strcmp\<close>
  answers zero; \<^verbatim>\<open>strncpy\<close> writes exactly \<open>n\<close> bytes, the string cut after \<open>n\<close> bytes and padded with zeros, and reads no byte
  behind them. Neither changes anything else.\<close>

lemma string_copies:
  assumes "cstring m src xs" "src \<noteq> 0" "dest \<noteq> 0" and "mapped m dest k" "ranges_apart src (length xs + 1) dest k"
  shows "(length xs < k \<longrightarrow> (\<exists>m'. strcpy m dest src = Some (dest, m') \<and> cstring m' dest xs \<and> strlen m' dest = strlen m src
      \<and> strcmp m' dest src = Some 0 \<and> (\<forall>a. unat a < unat dest \<or> unat dest + length xs < unat a \<longrightarrow> m' a = m a)))
    \<and> (unat n \<le> k \<longrightarrow> (\<exists>m'. strncpy m dest src n = Some (dest, m')
      \<and> bytes_at m' dest (take (unat n) (xs @ replicate (unat n) 0))
      \<and> (\<forall>a. unat a < unat dest \<or> unat dest + unat n \<le> unat a \<longrightarrow> m' a = m a)))"
proof (intro conjI impI)
  have sub: "mapped m dest j \<and> ranges_apart src (length xs + 1) dest j" if "j \<le> k" for j
    using assms(4,5) that by (auto simp: mapped_def ranges_apart_def)
  have z: "0 \<notin> set xs" using assms(1) by (simp add: cstring_def)
  show "\<exists>m'. strcpy m dest src = Some (dest, m') \<and> cstring m' dest xs \<and> strlen m' dest = strlen m src
      \<and> strcmp m' dest src = Some 0 \<and> (\<forall>a. unat a < unat dest \<or> unat dest + length xs < unat a \<longrightarrow> m' a = m a)" if "length xs < k"
  proof -
    let ?m = "put m dest (xs @ [0])"
    have s: "mapped m dest (length xs + 1)" "ranges_apart src (length xs + 1) dest (length xs + 1)"
      using sub [of "length xs + 1"] that by auto
    have d: "cstring ?m dest xs" using bytes_at_put [of dest "xs @ [0]"] s(1) z by (simp add: cstring_def mapped_def)
    have "bytes_at ?m src (xs @ [0])"
      using assms(1) source_kept [of m src "xs @ [0]" dest "length xs + 1" _ "length xs + 1" "xs @ [0]"] s(2)
      by (auto simp: cstring_def bytes_at_def)
    then have c: "cstring ?m src xs" using z by (simp add: cstring_def)
    have "strcmp ?m dest src = Some 0"
      using strcmp_loop_spec [OF d c] byte_diff_meaning [OF z z] assms(2,3) by (simp add: strcmp_def)
    then show ?thesis
      using strcpy_spec [OF assms(1) s assms(2,3)] d strlen_spec [OF d assms(3)] strlen_spec [OF assms(1,2)] put_outside [of _ dest "xs @ [0]"]
      by auto
  qed
  show "\<exists>m'. strncpy m dest src n = Some (dest, m') \<and> bytes_at m' dest (take (unat n) (xs @ replicate (unat n) 0))
      \<and> (\<forall>a. unat a < unat dest \<or> unat dest + unat n \<le> unat a \<longrightarrow> m' a = m a)" if "unat n \<le> k"
  proof -
    let ?bs = "take (unat n) (xs @ replicate (unat n) 0)"
    have len: "length ?bs = unat n" by simp
    have s: "mapped m dest (unat n)" "ranges_apart src (min (unat n) (length xs + 1)) dest (unat n)"
      using sub [OF that] by (auto simp: ranges_apart_def)
    have "bytes_at m src (take (unat n) (xs @ [0]))" 
      using assms(1) bytes_at_take unfolding cstring_def by blast
    from strncpy_spec [OF z this s assms(2,3)] show ?thesis
      using bytes_at_put [of dest ?bs m] put_outside [of _ dest ?bs m] s(1) len by (simp add: mapped_def del: take_append take_replicate)
  qed
qed

end
