(* ===== verification/Boot.thy ===== *)
theory Boot
  imports Elf
begin

text \<open>
  The 32-bit start of the kernel (\<^verbatim>\<open>hammam/src/boot.rs\<close>): the Multiboot2 header, the layout of the boot workspace and the
  page tables the assembly code builds before it switches to long mode. The theory proves that the tables map the first
  gigabyte to itself, and that together with the page allocator started on the boot loader's memory map they are a state in which the
  invariant of the page tables holds, so that everything proved from that invariant holds after boot.
\<close>

section \<open>The Multiboot2 header\<close>

record multiboot2_header =
  mb_magic :: u32
  mb_arch :: u32
  mb_length :: u32
  mb_checksum :: u32
  end_tag_type :: u16
  end_tag_flags :: u16
  end_tag_size :: u32

definition HEADER_LENGTH :: u32 where
  "HEADER_LENGTH = 4 * 4 + 2 * 2 + 4"

definition MULTIBOOT2_HEADER :: multiboot2_header where
  "MULTIBOOT2_HEADER = \<lparr>mb_magic = 0xE85250D6, mb_arch = 0, mb_length = HEADER_LENGTH,
     mb_checksum = 0 - (0xE85250D6 + 0 + HEADER_LENGTH), end_tag_type = 0, end_tag_flags = 0, end_tag_size = 8\<rparr>"

text \<open>What a Multiboot2 loader checks: the four fields sum to zero.\<close>

lemma header_checksum:
  "mb_magic MULTIBOOT2_HEADER + mb_arch MULTIBOOT2_HEADER + mb_length MULTIBOOT2_HEADER + mb_checksum MULTIBOOT2_HEADER = 0"
  by (simp add: MULTIBOOT2_HEADER_def HEADER_LENGTH_def)

section \<open>The boot workspace\<close>

text \<open>Sizes of the structures: three tables of 512 entries; three descriptors, padded to the alignment of 16; the packed pointer.\<close>

definition BOOT_STACK_BYTES :: nat where "BOOT_STACK_BYTES = 16 * 1024"
definition EARLY_IDT_SIZE :: nat where "EARLY_IDT_SIZE = 4096"
definition size_page_tables :: nat where "size_page_tables = 3 * (512 * 8)"
definition size_gdt :: nat where "size_gdt = 32"
definition size_gdt_pointer :: nat where "size_gdt_pointer = 2 + 8"

definition boot_gdt :: "u64 list" where
  "boot_gdt = [0x0000000000000000, 0x00209A0000000000, 0x0000920000000000]"

definition DATA_BOOT_VADDR :: nat where "DATA_BOOT_VADDR = 0x21b000"
definition BOOT_PT_ADDR :: nat where "BOOT_PT_ADDR = DATA_BOOT_VADDR"
definition BOOT_PT_PDPT_OFF :: nat where "BOOT_PT_PDPT_OFF = 4096"
definition BOOT_PT_PD_OFF :: nat where "BOOT_PT_PD_OFF = 8192"
definition GDT_OFFSET :: nat where "GDT_OFFSET = size_page_tables"
definition GDT_ADDR :: nat where "GDT_ADDR = DATA_BOOT_VADDR + GDT_OFFSET"
definition GDT_PTR_OFFSET :: nat where "GDT_PTR_OFFSET = GDT_OFFSET + size_gdt"
definition GDT_PTR_ADDR :: nat where "GDT_PTR_ADDR = DATA_BOOT_VADDR + GDT_PTR_OFFSET"
definition EARLY_IDT_OFFSET :: nat where "EARLY_IDT_OFFSET = GDT_PTR_OFFSET + size_gdt_pointer"
definition EARLY_IDT_ADDR :: nat where "EARLY_IDT_ADDR = DATA_BOOT_VADDR + EARLY_IDT_OFFSET"
definition HANDOFF_MAGIC_ADDR :: nat where "HANDOFF_MAGIC_ADDR = EARLY_IDT_ADDR + EARLY_IDT_SIZE"
definition HANDOFF_INFO_ADDR :: nat where "HANDOFF_INFO_ADDR = HANDOFF_MAGIC_ADDR + 4"
definition BOOT_STACK_TOP :: nat where "BOOT_STACK_TOP = HANDOFF_INFO_ADDR + 4 + BOOT_STACK_BYTES"

lemmas layout_defs = BOOT_STACK_BYTES_def EARLY_IDT_SIZE_def size_page_tables_def size_gdt_def size_gdt_pointer_def
  DATA_BOOT_VADDR_def BOOT_PT_ADDR_def BOOT_PT_PDPT_OFF_def BOOT_PT_PD_OFF_def GDT_OFFSET_def GDT_ADDR_def
  GDT_PTR_OFFSET_def GDT_PTR_ADDR_def EARLY_IDT_OFFSET_def EARLY_IDT_ADDR_def HANDOFF_MAGIC_ADDR_def
  HANDOFF_INFO_ADDR_def BOOT_STACK_TOP_def

text \<open>The parts of the workspace do not overlap: tables, descriptors, pointer, early interrupt table with its own pointer behind the
  256 entries, the two hand-off words and the stack, which grows down from its top.\<close>

lemma layout_disjoint:
  "BOOT_PT_ADDR + size_page_tables \<le> GDT_ADDR" "GDT_ADDR + 8 * length boot_gdt \<le> GDT_PTR_ADDR"
  "GDT_PTR_ADDR + size_gdt_pointer \<le> EARLY_IDT_ADDR" "EARLY_IDT_ADDR + 256 * 8 + 8 \<le> HANDOFF_MAGIC_ADDR"
  "HANDOFF_MAGIC_ADDR + 4 \<le> HANDOFF_INFO_ADDR" "HANDOFF_INFO_ADDR + 4 \<le> BOOT_STACK_TOP - BOOT_STACK_BYTES"
  by (simp_all add: layout_defs boot_gdt_def)

section \<open>The page tables\<close>

text \<open>
  Memory below 4 GiB as 32-bit words by byte address. The address registers hold link-time constants plus small offsets, hence natural
  numbers; \<^verbatim>\<open>eax\<close> is a 32-bit word.
\<close>

type_synonym dmem = "nat \<Rightarrow> u32"

text \<open>\<^verbatim>\<open>rep stosl\<close> with \<^verbatim>\<open>eax = 0\<close>.\<close>

primrec stosl :: "nat \<Rightarrow> nat \<Rightarrow> dmem \<Rightarrow> dmem" where
  "stosl 0 edi m = m"
| "stosl (Suc ecx) edi m = stosl ecx (edi + 4) (m(edi := 0))"

text \<open>The loop that fills the page directory.\<close>

primrec fill_pd :: "nat \<Rightarrow> nat \<Rightarrow> u32 \<Rightarrow> dmem \<Rightarrow> dmem" where
  "fill_pd 0 edi eax m = m"
| "fill_pd (Suc ecx) edi eax m = fill_pd ecx (edi + 8) (eax + 0x200000) (m(edi := eax))"

definition build_page_tables :: "dmem \<Rightarrow> dmem" where
  "build_page_tables m =
     (let m1 = stosl 3072 BOOT_PT_ADDR m;
          m2 = m1(BOOT_PT_ADDR := of_nat (BOOT_PT_ADDR + BOOT_PT_PDPT_OFF) OR 7);
          m3 = m2(BOOT_PT_ADDR + BOOT_PT_PDPT_OFF := of_nat (BOOT_PT_ADDR + BOOT_PT_PD_OFF) OR 7)
      in fill_pd 512 (BOOT_PT_ADDR + BOOT_PT_PD_OFF) 0x87 m3)"

text \<open>The 64-bit entries the processor reads.\<close>

definition entry_at :: "dmem \<Rightarrow> nat \<Rightarrow> nat \<Rightarrow> page_table_entry" where
  "entry_at m t i = ucast (m (t + 8 * i)) OR push_bit 32 (ucast (m (t + 8 * i + 4)))"

definition boot_vm :: "dmem \<Rightarrow> buddy_allocator \<Rightarrow> vm" where
  "boot_vm m a = \<lparr>tables = (\<lambda>t i. entry_at (build_page_tables m) (unat t) i), cr3 = of_nat BOOT_PT_ADDR, allocator = a\<rparr>"

lemma stosl_other: "\<forall>k < n. x \<noteq> edi + 4 * k \<Longrightarrow> stosl n edi m x = m x"
proof (induction n arbitrary: edi m)
  case (Suc n)
  have "\<forall>k < n. x \<noteq> edi + 4 + 4 * k" using Suc.prems by (metis Suc_less_eq add.assoc mult_Suc_right)
  moreover have "x \<noteq> edi" using Suc.prems by force
  ultimately show ?case using Suc.IH by simp
qed simp

lemma stosl_zero: "k < n \<Longrightarrow> stosl n edi m (edi + 4 * k) = 0"
proof (induction n arbitrary: edi m k)
  case (Suc n)
  show ?case
  proof (cases k)
    case 0
    then show ?thesis by (simp add: stosl_other)
  next
    case (Suc j)
    then show ?thesis using Suc.IH [of j "edi + 4"] \<open>k < Suc n\<close> by (simp add: add.assoc)
  qed
qed simp

lemma fill_pd_other: "\<forall>k < n. x \<noteq> edi + 8 * k \<Longrightarrow> fill_pd n edi eax m x = m x"
proof (induction n arbitrary: edi eax m)
  case (Suc n)
  have "\<forall>k < n. x \<noteq> edi + 8 + 8 * k" using Suc.prems by (metis Suc_less_eq add.assoc mult_Suc_right)
  moreover have "x \<noteq> edi" using Suc.prems by force
  ultimately show ?case using Suc.IH by simp
qed simp

lemma fill_pd_entry: "k < n \<Longrightarrow> fill_pd n edi eax m (edi + 8 * k) = eax + of_nat k * 0x200000"
proof (induction n arbitrary: edi eax m k)
  case (Suc n)
  show ?case
  proof (cases k)
    case 0
    then show ?thesis by (simp add: fill_pd_other)
  next
    case (Suc j)
    then show ?thesis using Suc.IH [of j "edi + 8" "eax + 0x200000"] \<open>k < Suc n\<close>
      by (simp add: algebra_simps)
  qed
qed simp

lemma boot_words:
  assumes "i < 512"
  shows "build_page_tables m (0x21b000 + 8 * i) = (if i = 0 then 0x21c007 else 0)"
    "build_page_tables m (0x21c000 + 8 * i) = (if i = 0 then 0x21d007 else 0)"
    "build_page_tables m (0x21d000 + 8 * i) = 0x87 + of_nat i * 0x200000"
    "t \<in> {0x21b000, 0x21c000, 0x21d000} \<Longrightarrow> build_page_tables m (t + 8 * i + 4) = 0"
proof -
  define m1 where "m1 = stosl 3072 0x21b000 m"
  have b: "build_page_tables m = fill_pd 512 0x21d000 0x87 (m1(0x21b000 := 0x21c007, 0x21c000 := 0x21d007))"
    by (simp add: build_page_tables_def layout_defs m1_def Let_def)
  have z: "m1 x = 0" if "0x21b000 \<le> x" "x < 0x21e000" "x mod 4 = 0" for x
  proof -
    have "x = 0x21b000 + 4 * ((x - 0x21b000) div 4)" using that by presburger
    moreover have "(x - 0x21b000) div 4 < 3072" using that by simp
    ultimately show ?thesis using stosl_zero unfolding m1_def by metis
  qed
  have low: "build_page_tables m x = (if x = 0x21b000 then 0x21c007 else if x = 0x21c000 then 0x21d007 else 0)"
    if "0x21b000 \<le> x" "x < 0x21e000" "x mod 4 = 0" "x < 0x21d000 \<or> x mod 8 = 4" for x
  proof -
    have "\<forall>k < 512. x \<noteq> 0x21d000 + 8 * k" using that(4) by presburger
    then show ?thesis unfolding b using z [OF that(1-3)] that(4) by (auto simp: fill_pd_other)
  qed
  show "build_page_tables m (0x21b000 + 8 * i) = (if i = 0 then 0x21c007 else 0)"
    using assms by (subst low) (auto simp: mod_simps)
  show "build_page_tables m (0x21c000 + 8 * i) = (if i = 0 then 0x21d007 else 0)"
    using assms by (subst low) auto
  show "build_page_tables m (0x21d000 + 8 * i) = 0x87 + of_nat i * 0x200000"
    unfolding b using assms by (rule fill_pd_entry)
  show "build_page_tables m (t + 8 * i + 4) = 0" if "t \<in> {0x21b000, 0x21c000, 0x21d000}"
    using that assms by (subst low) (auto, presburger)
qed

definition huge_entry :: "nat \<Rightarrow> page_table_entry" where
  "huge_entry i = set_frame (PhysFrame (of_nat (i * 0x200000))) 0x87"

lemma huge_entry_frame:
  assumes "i < 512"
  shows "valid_frame (of_nat (i * 0x200000))" "unat (of_nat (i * 0x200000) :: u64) = i * 0x200000"
proof -
  show u: "unat (of_nat (i * 0x200000) :: u64) = i * 0x200000" using assms by (intro unat_of_nat_small) simp
  show "valid_frame (of_nat (i * 0x200000))" by (rule valid_frame_unat) (use assms u in simp_all)
qed

lemma huge_entry_parts:
  assumes "i < 512"
  shows "flags (huge_entry i) = 0x87" "target (huge_entry i) = of_nat (i * 0x200000)" "present (huge_entry i)" "huge (huge_entry i)"
proof -
  have v: "valid_flags 0x87" by (simp add: valid_flags_def all_flags_eq)
  show f: "flags (huge_entry i) = 0x87" unfolding huge_entry_def by (rule flags_set_frame [OF v])
  show "target (huge_entry i) = of_nat (i * 0x200000)"
    unfolding huge_entry_def target_set_frame [OF v] using huge_entry_frame(1) [OF assms] by (simp add: valid_frame_def)
  show "present (huge_entry i)" "huge (huge_entry i)" unfolding f by (simp_all add: contains_flag_bits)
qed

lemma boot_entries:
  assumes "i < 512"
  shows "entry_at (build_page_tables m) 0x21b000 i = (if i = 0 then 0x21c007 else 0)"
    "entry_at (build_page_tables m) 0x21c000 i = (if i = 0 then 0x21d007 else 0)"
    "entry_at (build_page_tables m) 0x21d000 i = huge_entry i"
proof -
  note w = boot_words [OF assms, where m = m]
  show "entry_at (build_page_tables m) 0x21b000 i = (if i = 0 then 0x21c007 else 0)"
    "entry_at (build_page_tables m) 0x21c000 i = (if i = 0 then 0x21d007 else 0)"
    using w(4) [of "0x21b000"] w(4) [of "0x21c000"] by (auto simp: entry_at_def w(1,2))
  let ?f = "of_nat (i * 0x200000) :: u64"
  have "unat (0x87 + of_nat i * 0x200000 :: u32) = 0x87 + i * 0x200000"
  proof -
    have "0x87 + of_nat i * 0x200000 = (of_nat (0x87 + i * 0x200000) :: u32)" by simp
    then show ?thesis using assms unat_of_nat_small [of "0x87 + i * 0x200000", where 'a = 32] by (simp del: of_nat_add of_nat_mult)
  qed
  then have l: "unat (ucast (0x87 + of_nat i * 0x200000 :: u32) :: u64) = i * 0x200000 + 0x87"
    using assms by (simp add: unsigned_ucast_eq take_bit_nat_eq_self)
  have u: "unat (?f + 0x87) = i * 0x200000 + 0x87"
    using huge_entry_frame(2) [OF assms] assms unat_add_no_wrap [of ?f "0x87"] by (simp del: of_nat_mult)
  have "push_bit 21 x AND (0x87 :: u64) = take_bit 21 (push_bit 21 x) AND 0x87" for x
    by (simp add: take_bit_eq_mask and.assoc mask_eq_exp_minus_1)
  then have "push_bit 21 (of_nat i) AND (0x87 :: u64) = 0" by (simp only: take_bit_push_bit) simp
  moreover have "?f = push_bit 21 (of_nat i)" by (simp add: push_bit_eq_mult)
  ultimately have "?f AND 0x87 = 0" by simp
  then have "?f + 0x87 = ?f OR 0x87" by (rule disjunctive_add_eq_or)
  then have "ucast (0x87 + of_nat i * 0x200000 :: u32) = ?f OR 0x87" using l u by (simp only: word_unat_eq_iff)
  moreover have "?f AND FRAME_MASK = ?f" using huge_entry_frame(1) [OF assms] by (simp add: valid_frame_def)
  ultimately show "entry_at (build_page_tables m) 0x21d000 i = huge_entry i"
    using w(4) [of "0x21d000"] by (simp add: entry_at_def w(3) huge_entry_def set_frame_def del: of_nat_mult)
qed

section \<open>The address space after boot\<close>

lemma boot_child:
  assumes "i < 512"
  shows "child d (entry_at (build_page_tables m) 0x21b000 i) = (if i = 0 then Some 0x21c000 else None)"
    "child d (entry_at (build_page_tables m) 0x21c000 i) = (if i = 0 then Some 0x21d000 else None)"
    "child 2 (entry_at (build_page_tables m) 0x21d000 i) = None"
proof -
  show "child 2 (entry_at (build_page_tables m) 0x21d000 i) = None"
    unfolding boot_entries [OF assms] child_def using huge_entry_parts(3,4) [OF assms] by simp
  show "child d (entry_at (build_page_tables m) 0x21b000 i) = (if i = 0 then Some 0x21c000 else None)"
    "child d (entry_at (build_page_tables m) 0x21c000 i) = (if i = 0 then Some 0x21d000 else None)"
    unfolding boot_entries [OF assms]
    by (simp_all add: child_def contains_flag_bits flags_def from_bits_truncate_def all_flags_eq FRAME_MASK_def)
qed

abbreviation boot_tables :: "dmem \<Rightarrow> page_tables" where
  "boot_tables m \<equiv> (\<lambda>t i. entry_at (build_page_tables m) (unat t) i)"

lemma boot_walk:
  "valid_path p \<Longrightarrow> walk (boot_tables m) 0 0x21b000 p = Some t \<Longrightarrow> (p, t) \<in> {([], 0x21b000), ([0], 0x21c000), ([0, 0], 0x21d000)}"
proof (induction p arbitrary: t rule: rev_induct)
  case (snoc i q)
  then obtain u where u: "walk (boot_tables m) 0 0x21b000 q = Some u" "child (length q) (boot_tables m u i) = Some t"
    by (auto simp: walk_snoc split: option.splits)
  have i: "i < 512" "valid_path q" using snoc.prems(1) by (auto simp: valid_path_def)
  then have "(q, u) \<in> {([], 0x21b000), ([0], 0x21c000), ([0, 0], 0x21d000)}" using snoc.IH u(1) by blast
  moreover have "child (Suc (Suc 0)) (entry_at (build_page_tables m) 0x21d000 i) = None"
    using boot_child(3) [OF i(1)] unfolding numeral_2_eq_2 .
  ultimately show ?case using u(2) boot_child(1,2) [OF i(1), where m = m]
    by (elim insertE) (simp_all split: if_splits)
qed simp

lemma boot_tree_ok:
  assumes "{0x21b, 0x21c, 0x21d} \<inter> F = {}"
  shows "tree_ok (boot_tables m) 0x21b000 F"
proof (rule tree_okI)
  fix p q t assume "valid_path p" "valid_path q" "walk (boot_tables m) 0 0x21b000 p = Some t" "walk (boot_tables m) 0 0x21b000 q = Some t"
  then show "p = q" using boot_walk [of p m t] boot_walk [of q m t] by auto
next
  fix p t assume "valid_path p" "walk (boot_tables m) 0 0x21b000 p = Some t"
  then show "unat t div 4096 \<notin> F" using boot_walk [of p m t] assms by auto
next
  fix p t i assume "valid_path p" "length p = 2" "walk (boot_tables m) 0 0x21b000 p = Some t" "i < (512 :: nat)"
  then have "t = 0x21d000" using boot_walk [of p m t] by auto
  then have "target (boot_tables m t i) = of_nat (i * 0x200000)"
    using boot_entries(3) huge_entry_parts(2) \<open>i < 512\<close> by (simp del: of_nat_mult)
  then show "unat (target (boot_tables m t i)) + 0x200000 \<le> 2 ^ 52"
    using huge_entry_frame(2) [OF \<open>i < 512\<close>] \<open>i < 512\<close> by (simp del: of_nat_mult)
qed

lemma boot_root: "root (boot_vm m a) = 0x21b000"
  by (simp add: boot_vm_def active_pml4_def layout_defs FRAME_MASK_def)

lemma boot_view:
  assumes "unat a < 2 ^ 48"
  shows "page_view (boot_vm m s) a = (if unat a < 2 ^ 30 then Some (a, 7) else None)"
proof -
  let ?tb = "boot_tables m"
  have i: "pml4_index a < 512" "pdpt_index a < 512" "pd_index a < 512" by (simp_all add: index_unat)
  have w: "walk ?tb 0 0x21b000 [pml4_index a, pdpt_index a] = (if unat a < 2 ^ 30 then Some 0x21d000 else None)"
  proof -
    have q: "unat a div 2 ^ 39 < 512" using assms by (simp add: div_less_iff_less_mult)
    have "pml4_index a = 0 \<and> pdpt_index a = 0 \<longleftrightarrow> unat a < 2 ^ 30"
    proof -
      have "unat a div 2 ^ 39 = unat a div 2 ^ 30 div 512" by (simp add: div_mult2_eq [symmetric])
      moreover have "unat a < 2 ^ 30 \<longleftrightarrow> unat a div 2 ^ 30 = 0" by (simp add: div_eq_0_iff)
      moreover have "x div 512 mod 512 = 0 \<and> x mod 512 = 0 \<longleftrightarrow> x = 0" if "x div 512 < 512" for x :: nat
      proof -
        have "x div 512 mod 512 = x div 512" using that by (rule mod_less)
        then show ?thesis using mult_div_mod_eq [of 512 x] by auto
      qed
      ultimately show ?thesis using q unfolding index_unat by metis
    qed
    then show ?thesis using boot_child(1) [OF i(1), of 0 m] boot_child(2) [OF i(2), of 1 m] by auto
  qed
  have d: "walk ?tb 0 0x21b000 (dir_path a) = None" unfolding walk_dir w using boot_child(3) [OF i(3)] by simp
  have "target (huge_entry (pd_index a)) + (a AND 0x1FFFFF) = a" if "unat a < 2 ^ 30"
  proof -
    have p: "pd_index a = unat a div 2 ^ 21" using that by (simp add: index_unat div_less_iff_less_mult)
    have t: "unat (target (huge_entry (pd_index a))) = unat a div 2 ^ 21 * 2 ^ 21"
      unfolding huge_entry_parts(2) [OF i(3)] huge_entry_frame(2) [OF i(3)] by (simp add: p)
    have l: "unat (a AND 0x1FFFFF) = unat a mod 2 ^ 21" by (simp only: mask_consts unat_and_mask)
    have "unat a div 2 ^ 21 * 2 ^ 21 + unat a mod 2 ^ 21 = unat a" by (rule div_mult_mod_eq)
    then have "unat (target (huge_entry (pd_index a)) + (a AND 0x1FFFFF)) = unat a"
      using that by (subst unat_add_no_wrap) (simp_all only: t l, simp)
    then show ?thesis by (simp only: word_unat_eq_iff)
  qed
  then show ?thesis
    using view_no_table [OF d] huge_entry_parts [OF i(3)] boot_entries(3) [OF i(3), of m]
    unfolding page_view_def boot_root w
    by (simp add: boot_vm_def view_entry_def HUGE_PAGE_def)
qed

lemma usable_pages_bounds:
  assumes "unat (mr_end r) \<le> 2 ^ 52"
  shows "usable_pages kstart kend r \<subseteq> {..< 2 ^ 40} - {unat kstart div 4096 ..< unat kend div 4096}"
proof
  fix n assume n: "n \<in> usable_pages kstart kend r"
  then have "n < unat (mr_end r) div 4096" "n \<notin> {unat kstart div 4096 ..< unat kend div 4096}"
    by (auto simp: usable_pages_def split: if_splits)
  moreover have "unat (mr_end r) div 4096 \<le> 2 ^ 40" using div_le_mono [OF assms, of 4096] by simp
  ultimately show "n \<in> {..< 2 ^ 40} - {unat kstart div 4096 ..< unat kend div 4096}" by auto
qed

lemma boot_space:
  assumes "aligned kstart 0" and "aligned kend 0" and "unat kstart \<le> 0x21b000" and "0x21e000 \<le> unat kend"
    and "\<forall>r \<in> set memory_map. mr_kind r = Usable \<longrightarrow> unat (mr_start r) + 4096 < 2 ^ 64"
    and "\<forall>r \<in> set memory_map. unat (mr_end r) \<le> 2 ^ 52"
    and "regions_disjoint kstart kend {} memory_map"
  shows "\<exists>s. buddy_init kstart kend (buddy_new memory) memory_map = Some s \<and> vm_inv (boot_vm m s)
    \<and> free_page_set s = (\<Union>r \<in> set memory_map. usable_pages kstart kend r)
    \<and> (\<forall>a. unat a < 2 ^ 48 \<longrightarrow> page_view (boot_vm m s) a = (if unat a < 2 ^ 30 then Some (a, 7) else None))"
proof -
  let ?P = "\<Union>r \<in> set memory_map. usable_pages kstart kend r"
  have "kstart \<le> kend" using assms(3,4) by (simp add: word_le_nat_alt)
  then obtain s where s: "buddy_init kstart kend (buddy_new memory) memory_map = Some s" and fr: "fresh_rel s ?P"
    using buddy_init_spec [OF fresh_rel_new assms(1,2) _ assms(5,7)] by auto
  have free: "buddy_invar s" "free_page_set s = ?P"
    using fr by (rule fresh_relE; auto simp: buddy_invar_def free_page_set_eq)+
  have sub: "?P \<subseteq> {..< 2 ^ 40} - {unat kstart div 4096 ..< unat kend div 4096}"
    using usable_pages_bounds assms(6) by blast
  have "unat kstart div 4096 \<le> 0x21b" "0x21e \<le> unat kend div 4096"
    using div_le_mono [OF assms(3), of 4096] div_le_mono [OF assms(4), of 4096] by simp_all
  then have "{0x21b, 0x21c, 0x21d} \<subseteq> {unat kstart div 4096 ..< unat kend div 4096}" by auto
  then have "{0x21b, 0x21c, 0x21d} \<inter> ?P = {}" using sub by blast
  then have "tree_ok (boot_tables m) 0x21b000 ?P" by (rule boot_tree_ok)
  then have "vm_inv (boot_vm m s)"
    using free sub unfolding vm_inv_def boot_root by (auto simp: boot_vm_def)
  then show ?thesis using s free(2) boot_view by blast
qed

text \<open> C29: Boot establishes the address space. The tables the start code builds map every address of the first gigabyte to
  itself, readable, writable and open to user mode, and nothing else; and when the kernel image covers them, they and the
  page allocator started on a memory map of disjoint usable regions satisfy the invariant of the page tables, with
  exactly the usable pages outside the image free.\<close>

theorem boot_establishes_address_space:
  assumes "aligned kstart 0" and "aligned kend 0" and "unat kstart \<le> 0x21b000" and "0x21e000 \<le> unat kend"
    and "\<forall>r \<in> set memory_map. mr_kind r = Usable \<longrightarrow> unat (mr_start r) + 4096 < 2 ^ 64"
    and "\<forall>r \<in> set memory_map. unat (mr_end r) \<le> 2 ^ 52"
    and "regions_disjoint kstart kend {} memory_map"
  shows "\<exists>s. buddy_init kstart kend (buddy_new memory) memory_map = Some s \<and> vm_inv (boot_vm m s)
    \<and> free_page_set s = (\<Union>r \<in> set memory_map. usable_pages kstart kend r)
    \<and> (\<forall>a. unat a < 2 ^ 48 \<longrightarrow> page_view (boot_vm m s) a = (if unat a < 2 ^ 30 then Some (a, 7) else None))"
  by (rule boot_space [OF assms])

theorem boot_establishes_address_space_witness:
  "\<exists>s. buddy_init 0x200000 0x400000 (buddy_new (\<lambda>_. None)) [\<lparr>mr_start = 0x400000, mr_end = 0x8000000, mr_kind = Usable\<rparr>] = Some s
    \<and> vm_inv (boot_vm (\<lambda>_. 0xFFFFFFFF) s) \<and> page_view (boot_vm (\<lambda>_. 0xFFFFFFFF) s) 0x12345678 = Some (0x12345678, 7)"
proof -
  let ?r = "\<lparr>mr_start = 0x400000, mr_end = 0x8000000, mr_kind = Usable\<rparr>"
  have "regions_disjoint 0x200000 0x400000 {} [?r]" by simp
  then obtain s where "buddy_init 0x200000 0x400000 (buddy_new (\<lambda>_. None)) [?r] = Some s" "vm_inv (boot_vm (\<lambda>_. 0xFFFFFFFF) s)"
    and v: "\<forall>a. unat a < 2 ^ 48 \<longrightarrow> page_view (boot_vm (\<lambda>_. 0xFFFFFFFF) s) a = (if unat a < 2 ^ 30 then Some (a, 7) else None)"
    using boot_establishes_address_space [of "0x200000" "0x400000" "[?r]" "\<lambda>_. None" "\<lambda>_. 0xFFFFFFFF"] by (auto simp: aligned_def)
  moreover have "page_view (boot_vm (\<lambda>_. 0xFFFFFFFF) s) 0x12345678 = Some (0x12345678, 7)"
    using v [rule_format, of "0x12345678"] by simp
  ultimately show ?thesis by blast
qed

end
