(* ===== verification/Smp.thy ===== *)
theory Smp
  imports Apic CLib Boot
begin

text \<open>
  The start of the application processors (\<^verbatim>\<open>hammam/src/smp/mod.rs\<close>) over the controller of \<open>Apic\<close> and the processor tables of
  \<open>Madt\<close>. The theory proves that exactly the enabled processors other than the boot processor, with a number below 16, are
  sent the start sequence, in the order of the table.
\<close>

definition MAX_CPUS :: nat where "MAX_CPUS = 16"
definition AP_TRAMPOLINE_PHYS :: u64 where "AP_TRAMPOLINE_PHYS = 0x8000"
definition PER_CPU_GS_BASE_MSR :: u32 where "PER_CPU_GS_BASE_MSR = 0xC0000101"
definition ICR_DELIVERY_MODE_INIT :: u32 where "ICR_DELIVERY_MODE_INIT = 0x500"
definition ICR_DELIVERY_MODE_STARTUP :: u32 where "ICR_DELIVERY_MODE_STARTUP = 0x600"
definition ICR_LEVEL_ASSERT :: u32 where "ICR_LEVEL_ASSERT = push_bit 14 1"
definition ICR_TRIGGER_MODE_LEVEL :: u32 where "ICR_TRIGGER_MODE_LEVEL = push_bit 15 1"

text \<open>The scheduler of a processor is a pointer, \<open>None\<close> when null.\<close>

record per_cpu_data =
  cpu_no :: u32
  cpu_reserved :: u32
  cpu_scheduler :: "u64 option"
  stack_top :: u64

record smp =
  plat :: platform
  AP_STACKS :: "u64 list"
  PER_CPU_DATA :: "per_cpu_data list"
  io_waits :: nat

definition smp_new :: "platform \<Rightarrow> smp" where
  "smp_new P = \<lparr>plat = P, AP_STACKS = replicate MAX_CPUS 0,
     PER_CPU_DATA = replicate MAX_CPUS \<lparr>cpu_no = 0, cpu_reserved = 0, cpu_scheduler = None, stack_top = 0\<rparr>, io_waits = 0\<rparr>"

section \<open>Per-processor variables\<close>

text \<open>\<^verbatim>\<open>lea\<close> computes the effective address: the base of the \<^verbatim>\<open>gs\<close> segment is not part of it.\<close>

definition per_cpu_get :: "u64 \<Rightarrow> u64 \<Rightarrow> u64" where
  "per_cpu_get gs_base off = off"

definition CPU_ID_OFFSET :: u64 where "CPU_ID_OFFSET = 0"
definition CPU_SCHEDULER_OFFSET :: u64 where "CPU_SCHEDULER_OFFSET = 8"
definition CPU_STACK_TOP_OFFSET :: u64 where "CPU_STACK_TOP_OFFSET = 16"

definition cpu_id :: "machine \<Rightarrow> u64 \<Rightarrow> u32 option" where
  "cpu_id k gs_base = map_option (\<lambda>bs. of_nat (le_nat bs)) (read_list k (per_cpu_get gs_base CPU_ID_OFFSET) 4)"

definition current_scheduler :: "machine \<Rightarrow> u64 \<Rightarrow> u64 option" where
  "current_scheduler k gs_base = map_option (\<lambda>bs. of_nat (le_nat bs)) (read_list k (per_cpu_get gs_base CPU_SCHEDULER_OFFSET) 8)"

definition per_cpu_stack_top :: "machine \<Rightarrow> u64 \<Rightarrow> u64 option" where
  "per_cpu_stack_top k gs_base = map_option (\<lambda>bs. of_nat (le_nat bs)) (read_list k (per_cpu_get gs_base CPU_STACK_TOP_OFFSET) 8)"

section \<open>Starting processors\<close>

definition ap_trampoline :: "u8 list" where
  "ap_trampoline = [0xFA, 0xEB, 0xFE] @ replicate 16 0x90"

text \<open>The mapping is the same block as for the registers of the controller.\<close>

definition prepare_trampoline :: "platform \<Rightarrow> platform option" where
  "prepare_trampoline P =
     do {
       P1 \<leftarrow> map_registers AP_TRAMPOLINE_PHYS P;
       k \<leftarrow> write_list (pmach P1) AP_TRAMPOLINE_PHYS ap_trampoline;
       Some (P1\<lparr>pmach := k\<rparr>)
     }"

definition send_init_ipi :: "u8 \<Rightarrow> platform \<Rightarrow> platform option" where
  "send_init_ipi ap P = send_icr ap (ICR_DELIVERY_MODE_INIT OR ICR_LEVEL_ASSERT OR ICR_TRIGGER_MODE_LEVEL) P"

definition send_startup_ipi :: "u8 \<Rightarrow> platform \<Rightarrow> platform option" where
  "send_startup_ipi ap P = send_icr ap ((ucast (drop_bit 12 AP_TRAMPOLINE_PHYS) AND 0xFF) OR ICR_DELIVERY_MODE_STARTUP) P"

definition io_wait :: "smp \<Rightarrow> smp" where
  "io_wait S = S\<lparr>io_waits := io_waits S + 1\<rparr>"

text \<open>\<open>stacks\<close> gives the address of the stack the heap provides.\<close>

definition start_ap :: "(u8 \<Rightarrow> u64) \<Rightarrow> u8 \<Rightarrow> smp \<Rightarrow> ((unit + unit) \<times> smp) option" where
  "start_ap stacks ap S =
     (if MAX_CPUS \<le> unat ap then Some (Inl (), S)
      else
        let top = (stacks ap + STACK_SIZE) AND NOT 0x0F;
            S1 = S\<lparr>AP_STACKS := (AP_STACKS S)[unat ap := stacks ap],
                   PER_CPU_DATA := (PER_CPU_DATA S)[unat ap := \<lparr>cpu_no = ucast ap, cpu_reserved = 0, cpu_scheduler = None, stack_top = top\<rparr>]\<rparr> in
        do {
          P1 \<leftarrow> send_init_ipi ap (plat S1);
          let S2 = io_wait (S1\<lparr>plat := P1\<rparr>);
          P2 \<leftarrow> send_startup_ipi ap (plat S2);
          let S3 = io_wait (S2\<lparr>plat := P2\<rparr>);
          P3 \<leftarrow> send_startup_ipi ap (plat S3);
          Some (Inr (), S3\<lparr>plat := P3\<rparr>)
        })"

definition start_local :: "(u8 \<Rightarrow> u64) \<Rightarrow> u8 \<Rightarrow> local_apic \<Rightarrow> smp \<Rightarrow> smp option" where
  "start_local stacks bsp_id local S =
     (if la_flags local AND 1 = 0 then Some S
      else if apic_id local = bsp_id then Some S
      else map_option snd (start_ap stacks (apic_id local) S))"

definition init_aps :: "memory \<Rightarrow> u64 \<Rightarrow> (u8 \<Rightarrow> u64) \<Rightarrow> u64 \<Rightarrow> smp \<Rightarrow> smp option" where
  "init_aps mem timer_entry stacks rsdp_addr S =
     do {
       P1 \<leftarrow> init_local_apic timer_entry (plat S);
       P2 \<leftarrow> prepare_trampoline P1;
       r \<leftarrow> from_rsdp mem rsdp_addr;
       (case r of None \<Rightarrow> Some (S\<lparr>plat := P2\<rparr>) | Some t \<Rightarrow>
         do {
           (bsp_id, P3) \<leftarrow> local_apic_id P2;
           ls \<leftarrow> local_apics mem t;
           for_each ls (start_local stacks bsp_id) (S\<lparr>plat := P3\<rparr>)
         })
     }"

definition set_gs_base :: "u64 \<Rightarrow> platform \<Rightarrow> platform" where
  "set_gs_base b P = write_msr PER_CPU_GS_BASE_MSR b P"

text \<open>The entry of a started processor, up to its idle loop; \<open>table\<close> and \<open>scheduler\<close> are the addresses of the static and of the new
  scheduler.\<close>

definition ap_entry :: "u64 \<Rightarrow> u64 \<Rightarrow> u64 \<Rightarrow> smp \<Rightarrow> smp option" where
  "ap_entry table_addr scheduler_addr timer_entry S =
     do {
       (ap, P1) \<leftarrow> local_apic_id (plat S);
       if unat ap < length (PER_CPU_DATA S) then
         do {
           P2 \<leftarrow> init_local_apic timer_entry (set_gs_base (table_addr + 24 * ucast ap) P1);
           Some (S\<lparr>plat := P2, PER_CPU_DATA := (PER_CPU_DATA S)[unat ap := (PER_CPU_DATA S ! unat ap)\<lparr>cpu_scheduler := Some scheduler_addr\<rparr>]\<rparr>)
         }
       else None
     }"

section \<open>The interrupts sent\<close>

text \<open>The delivery status of the controller clears again and again.\<close>

definition icr_clears :: "platform \<Rightarrow> bool" where
  "icr_clears P \<longleftrightarrow> (\<forall>n. \<exists>k. lapic_answer P (n + k) 0x300 AND 0x1000 = 0)"

text \<open>What the sending of interrupts changes: the log and the number of reads.\<close>

definition sent :: "(u32 \<times> u32) list \<Rightarrow> platform \<Rightarrow> platform \<Rightarrow> bool" where
  "sent ws P P' \<longleftrightarrow> (\<exists>n. P' = P\<lparr>lapic_log := lapic_log P @ ws, lapic_reads := n\<rparr>)"

lemma sent_trans: "sent ws P Q \<Longrightarrow> sent vs Q R \<Longrightarrow> sent (ws @ vs) P R"
proof -
  assume "sent ws P Q" "sent vs Q R"
  then obtain n k where "R = P\<lparr>lapic_log := lapic_log P @ ws, lapic_reads := n, lapic_log := (lapic_log P @ ws) @ vs, lapic_reads := k\<rparr>"
    by (auto simp: sent_def)
  then have "R = P\<lparr>lapic_log := lapic_log P @ ws @ vs, lapic_reads := k\<rparr>" by simp
  then show ?thesis unfolding sent_def by blast
qed

lemma sent_keeps: "sent ws P P' \<Longrightarrow> regs_mapped P' = regs_mapped P \<and> icr_clears P' = icr_clears P \<and> lapic_log P' = lapic_log P @ ws"
  by (auto simp: sent_def regs_mapped_def icr_clears_def)

lemma sent_write: "sent [w] P (P\<lparr>lapic_log := lapic_log P @ [w]\<rparr>)"
proof -
  have "P\<lparr>lapic_log := lapic_log P @ [w]\<rparr> = P\<lparr>lapic_log := lapic_log P @ [w], lapic_reads := lapic_reads P\<rparr>" by simp
  then show ?thesis unfolding sent_def by blast
qed

lemma sent_read: "sent [] P (P\<lparr>lapic_reads := n\<rparr>)"
proof -
  have "P\<lparr>lapic_reads := n\<rparr> = P\<lparr>lapic_log := lapic_log P @ [], lapic_reads := n\<rparr>" by simp
  then show ?thesis unfolding sent_def by blast
qed

lemma wait_for_icr_ends:
  "regs_mapped P \<Longrightarrow> lapic_answer P (lapic_reads P + k) 0x300 AND 0x1000 = 0 \<Longrightarrow> \<exists>P'. wait_for_icr P = Some P' \<and> sent [] P P'"
proof (induction k arbitrary: P)
  case 0
  have "lapic_read APIC_REG_ICR_LOW P = Some (lapic_answer P (lapic_reads P) 0x300, P\<lparr>lapic_reads := lapic_reads P + 1\<rparr>)"
    using reg_access(2) [OF 0(1), of "0x300"] by (simp add: APIC_REG_ICR_LOW_def)
  then show ?case using 0(2) sent_read [of P] by (subst wait_for_icr.simps) simp
next
  case (Suc k)
  let ?P = "P\<lparr>lapic_reads := lapic_reads P + 1\<rparr>"
  have r: "lapic_read APIC_REG_ICR_LOW P = Some (lapic_answer P (lapic_reads P) 0x300, ?P)"
    using reg_access(2) [OF Suc.prems(1), of "0x300"] by (simp add: APIC_REG_ICR_LOW_def)
  have "\<exists>P'. wait_for_icr ?P = Some P' \<and> sent [] ?P P'" by (rule Suc.IH) (use Suc.prems in simp_all)
  then obtain P' where "wait_for_icr ?P = Some P'" "sent [] P P'" using sent_trans [OF sent_read] by fastforce
  then show ?case using r sent_read [of P] by (subst wait_for_icr.simps) auto
qed

lemma send_icr_spec:
  assumes "regs_mapped P" "icr_clears P"
  shows "\<exists>P'. send_icr ap low P = Some P' \<and> sent [(0x310, push_bit 24 (ucast ap)), (0x300, low)] P P'"
proof -
  let ?a = "(0x310, push_bit 24 (ucast ap)) :: u32 \<times> u32" and ?b = "(0x300, low) :: u32 \<times> u32"
  let ?P1 = "P\<lparr>lapic_log := lapic_log P @ [?a]\<rparr>"
  let ?P2 = "?P1\<lparr>lapic_log := lapic_log ?P1 @ [?b]\<rparr>"
  have s: "sent ([?a] @ [?b]) P ?P2" by (rule sent_trans [OF sent_write sent_write])
  have m: "regs_mapped ?P1" "regs_mapped ?P2" using assms(1) by (simp_all add: regs_mapped_def)
  obtain k where "lapic_answer ?P2 (lapic_reads ?P2 + k) 0x300 AND 0x1000 = 0" using assms(2) by (auto simp: icr_clears_def)
  then obtain P' where P': "wait_for_icr ?P2 = Some P'" "sent [] ?P2 P'" using wait_for_icr_ends [OF m(2)] by blast
  have "lapic_write APIC_REG_ICR_HIGH (push_bit 24 (ucast ap)) P = Some ?P1" "lapic_write APIC_REG_ICR_LOW low ?P1 = Some ?P2"
    using reg_access(1) [OF assms(1), of "0x310"] reg_access(1) [OF m(1), of "0x300"] by (simp_all add: apic_reg_defs)
  then have "send_icr ap low P = Some P'" using P'(1) unfolding send_icr_def by simp
  then show ?thesis using sent_trans [OF s P'(2)] by auto
qed

text \<open>The start sequence of one processor: the INIT interrupt, then twice the start-up interrupt for the page of the trampoline.\<close>

definition ipis :: "u8 \<Rightarrow> (u32 \<times> u32) list" where
  "ipis ap = [(0x310, push_bit 24 (ucast ap)), (0x300, 0xC500), (0x310, push_bit 24 (ucast ap)), (0x300, 0x608),
     (0x310, push_bit 24 (ucast ap)), (0x300, 0x608)]"

definition cpu_data :: "(u8 \<Rightarrow> u64) \<Rightarrow> u8 \<Rightarrow> per_cpu_data" where
  "cpu_data stacks ap = \<lparr>cpu_no = ucast ap, cpu_reserved = 0, cpu_scheduler = None, stack_top = (stacks ap + STACK_SIZE) AND NOT 0x0F\<rparr>"

lemma start_ap_spec:
  assumes "regs_mapped (plat S)" "icr_clears (plat S)" "unat ap < 16"
  shows "\<exists>S'. start_ap stacks ap S = Some (Inr (), S') \<and> sent (ipis ap) (plat S) (plat S')
    \<and> PER_CPU_DATA S' = (PER_CPU_DATA S)[unat ap := cpu_data stacks ap]"
proof -
  let ?h = "(0x310, push_bit 24 (ucast ap)) :: u32 \<times> u32"
  note k = assms(1,2)
  obtain P1 where P1: "send_icr ap 0xC500 (plat S) = Some P1" "sent [?h, (0x300, 0xC500)] (plat S) P1"
    using send_icr_spec [OF k] by blast
  have k1: "regs_mapped P1" "icr_clears P1" using sent_keeps [OF P1(2)] k by simp_all
  obtain P2 where P2: "send_icr ap 0x608 P1 = Some P2" "sent [?h, (0x300, 0x608)] P1 P2" using send_icr_spec [OF k1] by blast
  have k2: "regs_mapped P2" "icr_clears P2" using sent_keeps [OF P2(2)] k1 by simp_all
  obtain P3 where P3: "send_icr ap 0x608 P2 = Some P3" "sent [?h, (0x300, 0x608)] P2 P3" using send_icr_spec [OF k2] by blast
  have "sent (ipis ap) (plat S) P3" using sent_trans [OF sent_trans [OF P1(2) P2(2)] P3(2)] by (simp add: ipis_def)
  moreover have "send_init_ipi ap Q = send_icr ap 0xC500 Q" "send_startup_ipi ap Q = send_icr ap 0x608 Q" for Q
    by (simp_all add: send_init_ipi_def send_startup_ipi_def ICR_DELIVERY_MODE_INIT_def ICR_LEVEL_ASSERT_def ICR_TRIGGER_MODE_LEVEL_def
        ICR_DELIVERY_MODE_STARTUP_def AP_TRAMPOLINE_PHYS_def)
  ultimately show ?thesis using assms(3) P1(1) P2(1) P3(1)
    by (simp add: start_ap_def MAX_CPUS_def io_wait_def Let_def cpu_data_def)
qed

definition startable :: "u8 \<Rightarrow> local_apic \<Rightarrow> bool" where
  "startable bsp_id local \<longleftrightarrow> la_flags local AND 1 \<noteq> 0 \<and> apic_id local \<noteq> bsp_id \<and> unat (apic_id local) < 16"

lemma start_local_spec:
  assumes "regs_mapped (plat S)" "icr_clears (plat S)"
  shows "\<exists>S'. start_local stacks b la S = Some S' \<and> sent (if startable b la then ipis (apic_id la) else []) (plat S) (plat S')
    \<and> PER_CPU_DATA S' = (if startable b la then (PER_CPU_DATA S)[unat (apic_id la) := cpu_data stacks (apic_id la)] else PER_CPU_DATA S)"
proof (cases "startable b la")
  case True
  then show ?thesis using start_ap_spec [OF assms, of "apic_id la" stacks] by (auto simp: start_local_def startable_def)
next
  case False
  have "sent [] (plat S) (plat S)" using sent_read [of "plat S" "lapic_reads (plat S)"] by simp
  moreover have "start_local stacks b la S = Some S"
    using False by (auto simp: start_local_def startable_def start_ap_def MAX_CPUS_def)
  ultimately show ?thesis using False by auto
qed

lemma start_all_spec:
  "regs_mapped (plat S) \<Longrightarrow> icr_clears (plat S) \<Longrightarrow> length (PER_CPU_DATA S) = 16 \<Longrightarrow>
   \<exists>S'. for_each ls (start_local stacks b) S = Some S' \<and> length (PER_CPU_DATA S') = 16
     \<and> sent (concat (map (\<lambda>la. ipis (apic_id la)) (filter (startable b) ls))) (plat S) (plat S')
     \<and> (\<forall>ap. unat ap < 16 \<longrightarrow> PER_CPU_DATA S' ! unat ap =
          (if ap \<in> apic_id ` set (filter (startable b) ls) then cpu_data stacks ap else PER_CPU_DATA S ! unat ap))"
proof (induction ls arbitrary: S)
  case Nil
  then show ?case using sent_read [of "plat S" "lapic_reads (plat S)"] by simp
next
  case (Cons la ls)
  obtain S1 where S1: "start_local stacks b la S = Some S1" "sent (if startable b la then ipis (apic_id la) else []) (plat S) (plat S1)"
    "PER_CPU_DATA S1 = (if startable b la then (PER_CPU_DATA S)[unat (apic_id la) := cpu_data stacks (apic_id la)] else PER_CPU_DATA S)"
    using start_local_spec [OF Cons.prems(1,2)] by blast
  have k: "regs_mapped (plat S1)" "icr_clears (plat S1)" "length (PER_CPU_DATA S1) = 16"
    using sent_keeps [OF S1(2)] Cons.prems S1(3) by simp_all
  obtain S' where S': "for_each ls (start_local stacks b) S1 = Some S'" "length (PER_CPU_DATA S') = 16"
    "sent (concat (map (\<lambda>la. ipis (apic_id la)) (filter (startable b) ls))) (plat S1) (plat S')"
    "\<forall>ap. unat ap < 16 \<longrightarrow> PER_CPU_DATA S' ! unat ap =
          (if ap \<in> apic_id ` set (filter (startable b) ls) then cpu_data stacks ap else PER_CPU_DATA S1 ! unat ap)"
    using Cons.IH [OF k] by blast
  have "PER_CPU_DATA S' ! unat ap =
      (if ap \<in> apic_id ` set (filter (startable b) (la # ls)) then cpu_data stacks ap else PER_CPU_DATA S ! unat ap)" if "unat ap < 16" for ap
  proof (cases "startable b la \<and> ap = apic_id la")
    case True
    then show ?thesis using S'(4) [rule_format, OF that] S1(3) Cons.prems(3) that by auto
  next
    case False
    then have "PER_CPU_DATA S1 ! unat ap = PER_CPU_DATA S ! unat ap"
      using S1(3) by (auto simp: nth_list_update word_unat_eq_iff)
    then show ?thesis using S'(4) [rule_format, OF that] False by auto
  qed
  moreover have "sent (concat (map (\<lambda>la. ipis (apic_id la)) (filter (startable b) (la # ls)))) (plat S) (plat S')"
    using sent_trans [OF S1(2) S'(3)] by (auto split: if_splits)
  ultimately show ?case using S1(1) S'(1,2) by (intro exI [of _ S']) simp
qed

section \<open>The whole start\<close>

lemma write_list_space: "write_list k a bs = Some k' \<Longrightarrow> space k' = space k"
  by (induction bs arbitrary: k a) (auto simp: bind_intros write_byte_def split: option.splits)

lemma map_registers_keeps:
  assumes "vm_inv (space (pmach P))" "b = m AND (0xFFFFF000 :: u64)" "map_registers b P = Some P'" "regs_mapped P"
  shows "regs_mapped P' \<and> (\<exists>v. P' = P\<lparr>pmach := (pmach P)\<lparr>space := v\<rparr>\<rparr>)"
proof (cases "translate (space (pmach P)) b")
  case (Some a)
  then have "P' = P\<lparr>pmach := (pmach P)\<lparr>space := space (pmach P)\<rparr>\<rparr>" using assms(3) by (simp add: map_registers_def)
  moreover from this have "regs_mapped P'" using assms(4) by simp
  ultimately show ?thesis by blast
next
  case None
  note f = apic_frame [OF assms(2)]
  obtain r v where m: "map_page (space (pmach P)) b (PhysFrame b) (PRESENT OR WRITABLE) = Some (r, v)"
    "case r of Inr _ \<Rightarrow> (\<forall>x. page_view v x = (if same_page x b then Some (start_address (PhysFrame b) + (x AND 0xFFF), ((PRESENT OR WRITABLE) OR PRESENT) AND NOT HUGE_PAGE)
        else page_view (space (pmach P)) x)) | Inl e \<Rightarrow> e = FrameAllocationFailed \<and> free_page_set (allocator v) = {} \<and> page_view v = page_view (space (pmach P))"
    using map_page_spec [OF assms(1) f(3,1), of b] by blast
  then have P': "P' = P\<lparr>pmach := (pmach P)\<lparr>space := v\<rparr>\<rparr>" using assms(3) None by (simp add: map_registers_def)
  have "translate (space (pmach P)) x \<noteq> None \<Longrightarrow> translate v x \<noteq> None" for x
    using m(2) by (cases r) (auto simp: translate_view)
  then show ?thesis using assms(4) unfolding P' regs_mapped_def by auto
qed

lemma prepare_trampoline_keeps:
  assumes "vm_inv (space (pmach P))" "prepare_trampoline P = Some P'" "regs_mapped P"
  shows "regs_mapped P' \<and> (\<exists>k. P' = P\<lparr>pmach := k\<rparr>)"
proof -
  obtain P1 k where P1: "map_registers 0x8000 P = Some P1" "write_list (pmach P1) 0x8000 ap_trampoline = Some k" "P' = P1\<lparr>pmach := k\<rparr>"
    using assms(2) by (auto simp: prepare_trampoline_def AP_TRAMPOLINE_PHYS_def bind_intros)
  have "regs_mapped P1 \<and> (\<exists>v. P1 = P\<lparr>pmach := (pmach P)\<lparr>space := v\<rparr>\<rparr>)"
    by (rule map_registers_keeps [OF assms(1) _ P1(1) assms(3), of "0x8000"]) simp
  then show ?thesis using P1(3) write_list_space [OF P1(2)] by (auto simp: regs_mapped_def)
qed

text \<open> C36: Which processors are started. On a system whose register page and trampoline page could be mapped and whose controller
  accepts interrupts, \<^verbatim>\<open>init_aps\<close> sends the start sequence to exactly the entries of the ACPI table that are enabled, are
  not the processor it runs on and have a number below 16, in table order, and to no other; exactly their
  per-processor data are filled in. Without a table it starts none.\<close>

theorem init_aps_starts_enabled:
  assumes "vm_inv (space (pmach P))" "length (pidt P) = 256" "pit_ends P" "read_msr 0x1B P AND 0xFFFFF000 \<noteq> 0" "icr_clears P"
    and "init_local_apic entry_addr P = Some P1" "prepare_trampoline P1 = Some P2"
    and "from_rsdp mem rsdp = Some t" "case t of None \<Rightarrow> ls = [] | Some t \<Rightarrow> local_apics mem t = Some ls"
  defines "bsp \<equiv> ucast (drop_bit 24 (lapic_answer P (lapic_reads P2) 0x20))"
  shows "\<exists>S. init_aps mem entry_addr stacks rsdp (smp_new P) = Some S
    \<and> lapic_log (plat S) = lapic_log P1 @ concat (map (\<lambda>la. ipis (apic_id la)) (filter (startable bsp) ls))
    \<and> (\<forall>ap. unat ap < 16 \<longrightarrow> PER_CPU_DATA S ! unat ap =
         (if ap \<in> apic_id ` set (filter (startable bsp) ls) then cpu_data stacks ap else PER_CPU_DATA (smp_new P) ! unat ap))"
proof -
  have r1: "regs_mapped P1" "vm_inv (space (pmach P1))" and a1: "lapic_answer P1 = lapic_answer P"
    using init_local_apic_result [OF assms(1-3) refl assms(4), of entry_addr] assms(6) by auto
  obtain k where P2: "P2 = P1\<lparr>pmach := k\<rparr>" "regs_mapped P2" using prepare_trampoline_keeps [OF r1(2) assms(7) r1(1)] by blast
  show ?thesis
  proof (cases t)
    case None
    then show ?thesis using assms(6-9) P2(1) by (simp add: init_aps_def smp_new_def)
  next
    case (Some u)
    let ?P3 = "P2\<lparr>lapic_reads := lapic_reads P2 + 1\<rparr>"
    let ?S = "(smp_new P)\<lparr>plat := ?P3\<rparr>"
    have ID: "local_apic_id P2 = Some (bsp, ?P3)"
      using reg_access(2) [OF P2(2), of "0x20"] a1 P2(1) by (simp add: local_apic_id_def APIC_REG_ID_def bsp_def)
    have "regs_mapped (plat ?S)" "icr_clears (plat ?S)" "length (PER_CPU_DATA ?S) = 16"
      using P2 a1 assms(5) by (simp_all add: icr_clears_def smp_new_def MAX_CPUS_def)
    then obtain S where S: "for_each ls (start_local stacks bsp) ?S = Some S"
      "sent (concat (map (\<lambda>la. ipis (apic_id la)) (filter (startable bsp) ls))) (plat ?S) (plat S)"
      "\<forall>ap. unat ap < 16 \<longrightarrow> PER_CPU_DATA S ! unat ap =
          (if ap \<in> apic_id ` set (filter (startable bsp) ls) then cpu_data stacks ap else PER_CPU_DATA ?S ! unat ap)"
      using start_all_spec [of ?S ls stacks bsp] by blast
    have "init_aps mem entry_addr stacks rsdp (smp_new P) = Some S"
      using assms(6-9) Some ID S(1) by (simp add: init_aps_def smp_new_def)
    moreover have "lapic_log (plat S) = lapic_log P1 @ concat (map (\<lambda>la. ipis (apic_id la)) (filter (startable bsp) ls))"
      using sent_keeps [OF S(2)] P2(1) by simp
    ultimately show ?thesis using S(3) by (intro exI [of _ S]) simp
  qed
qed

text \<open>An example: the address space of the boot code, the controller in it, and a table with one enabled processor.\<close>

definition boot_platform :: "buddy_allocator \<Rightarrow> platform" where
  "boot_platform a = demo_platform\<lparr>pmach := \<lparr>space = boot_vm (\<lambda>_. 0) a, ram = (\<lambda>_. 0)\<rparr>\<rparr>"

lemma write_list_mapped:
  "\<forall>i < length bs. translate (space k) (a + of_nat i) \<noteq> None \<Longrightarrow> \<exists>k'. write_list k a bs = Some k'"
proof (induction bs arbitrary: k a)
  case (Cons b bs)
  have "translate (space k) a \<noteq> None" using Cons.prems by force
  then obtain p where p: "translate (space k) a = Some p" by blast
  have "\<forall>i < length bs. translate (space k) (a + 1 + of_nat i) \<noteq> None"
    using Cons.prems by (metis (no_types, lifting) Suc_less_eq add.assoc length_Cons of_nat_Suc)
  then show ?case using Cons.IH [of "k\<lparr>ram := (ram k)(p := b)\<rparr>" "a + 1"] p by (simp add: write_byte_def)
qed simp

theorem init_aps_starts_enabled_witness:
  "\<exists>a S. init_aps demo_memory 0x201000 (\<lambda>_. 0x300000) 0x1000 (smp_new (boot_platform a)) = Some S
    \<and> lapic_log (plat S) = (0xF0, 0x1FF) # calibration (0xFFFFFFFF - 62500) @ ipis 5 \<and> stack_top (PER_CPU_DATA S ! 5) = 0x304000"
proof -
  let ?r = "\<lparr>mr_start = 0x400000, mr_end = 0x8000000, mr_kind = Usable\<rparr>"
  have "regions_disjoint 0x200000 0x400000 {} [?r]" by simp
  then obtain a where inv: "vm_inv (boot_vm (\<lambda>_. 0) a)"
    and view: "\<forall>x. unat x < 2 ^ 48 \<longrightarrow> page_view (boot_vm (\<lambda>_. 0) a) x = (if unat x < 2 ^ 30 then Some (x, 7) else None)"
    using boot_space [of "0x200000" "0x400000" "[?r]" "\<lambda>_. None" "\<lambda>_. 0"] by (auto simp: aligned_def)
  let ?P = "boot_platform a"
  have tr: "translate (space (pmach ?P)) x \<noteq> None" if "unat x < 2 ^ 30" for x
    using view that by (simp add: boot_platform_def translate_view)
  have p: "vm_inv (space (pmach ?P))" "length (pidt ?P) = 256" "pit_ends ?P" "read_msr 0x1B ?P AND 0xFFFFF000 = 0x600000"
    "lapic_answer ?P = (\<lambda>_ _. 0xFFFFFFFF - 62500)" "lapic_log ?P = []"
    using inv by (simp_all add: boot_platform_def demo_platform_def pit_ends_def read_msr_def)
  then have icr: "icr_clears ?P" by (simp add: icr_clears_def)
  have nz: "(0x600000 :: u64) \<noteq> 0" by simp
  obtain P1 where P1: "init_local_apic 0x201000 ?P = Some P1" "lapic_log P1 = (0xF0, 0x1FF) # calibration (0xFFFFFFFF - 62500)"
    and sp: "space (pmach P1) = space (pmach ?P)"
    using init_local_apic_result [OF p(1-3) p(4) [symmetric] nz, of "0x201000"] tr [of "0x600000"] p(5,6) by auto
  have "map_registers 0x8000 P1 = Some P1" using tr [of "0x8000"] by (auto simp: map_registers_def sp)
  moreover have "\<forall>i < length ap_trampoline. translate (space (pmach P1)) (0x8000 + of_nat i) \<noteq> None"
  proof (intro allI impI)
    fix i assume "i < length ap_trampoline"
    then have "unat (0x8000 + of_nat i :: u64) < 2 ^ 30"
      by (subst unat_add_no_wrap) (simp_all add: ap_trampoline_def unat_of_nat_small)
    then show "translate (space (pmach P1)) (0x8000 + of_nat i) \<noteq> None" unfolding sp by (rule tr)
  qed
  then obtain k where "write_list (pmach P1) 0x8000 ap_trampoline = Some k" using write_list_mapped by blast
  ultimately have P2: "prepare_trampoline P1 = Some (P1\<lparr>pmach := k\<rparr>)" by (simp add: prepare_trampoline_def AP_TRAMPOLINE_PHYS_def)
  have b: "(ucast (drop_bit 24 (lapic_answer ?P (lapic_reads (P1\<lparr>pmach := k\<rparr>)) 0x20)) :: u8) = 0xFF" by (simp add: p(5))
  let ?l = "\<lparr>processor_id = 1, apic_id = 5, la_flags = 1\<rparr>"
  have st: "filter (startable 0xFF) [?l] = [?l]" by (simp add: startable_def)
  have five: "unat (5 :: u8) < 16" "(5 :: u8) \<in> apic_id ` set [?l]" by simp_all
  obtain S where S: "init_aps demo_memory 0x201000 (\<lambda>_. 0x300000) 0x1000 (smp_new ?P) = Some S"
    "lapic_log (plat S) = lapic_log P1 @ ipis 5" "PER_CPU_DATA S ! unat (5 :: u8) = cpu_data (\<lambda>_. 0x300000) 5"
    using init_aps_starts_enabled [OF p(1-3) _ icr P1(1) P2 demo_from_rsdp, of "[?l]" "\<lambda>_. 0x300000"] demo_local_apics p(4) nz five
    unfolding b st by (auto dest: spec [of _ 5])
  then show ?thesis by (intro exI [of _ a] exI [of _ S]) (simp add: P1(2) cpu_data_def STACK_SIZE_def)
qed

text \<open>The trampoline is \<^verbatim>\<open>cli\<close> and a jump to itself: its displacement leads from the end of the jump back to its first byte. No started
  processor leaves it, and \<^verbatim>\<open>ap_entry\<close> never runs.\<close>

lemma trampoline_spins: "ap_trampoline ! 1 = 0xEB" "1 + 2 + sint (ap_trampoline ! 2) = 1"
  by (simp_all add: ap_trampoline_def)

end
