(* ===== verification/Security.thy ===== *)
theory Security
  imports Boot
begin

text \<open>
  The protection features of the processor (\<^verbatim>\<open>hammam/src/security/mod.rs\<close>): control register 4, the model specific registers, \<^verbatim>\<open>cpuid\<close>,
  which answers per leaf, and \<^verbatim>\<open>rdrand\<close>, whose answers are a sequence. The theory proves which bits the start sequence of
  \<^verbatim>\<open>main.rs\<close> sets, that it changes no other, and what this means together with the page tables of \<open>Boot\<close>.
\<close>

record cpu_state =
  cr4 :: u64
  cpu_msrs :: "u32 \<Rightarrow> u32 \<times> u32"
  cpuid_ebx :: "u32 \<Rightarrow> u64"
  cpuid_ecx :: "u32 \<Rightarrow> u64"
  rdrand :: "nat \<Rightarrow> u64"
  rdrand_used :: nat
  STACK_CANARY :: u64

definition next_rdrand :: "cpu_state \<Rightarrow> u64 \<times> cpu_state" where
  "next_rdrand c = (rdrand c (rdrand_used c), c\<lparr>rdrand_used := rdrand_used c + 1\<rparr>)"

definition kaslr_offset :: "cpu_state \<Rightarrow> u64 \<times> cpu_state" where
  "kaslr_offset c = (let (rand, c') = next_rdrand c in (rand AND 0x00FFFFFFFFF00000, c'))"

definition check_cpuid_leaf07_ebx :: "cpu_state \<Rightarrow> u64" where
  "check_cpuid_leaf07_ebx c = cpuid_ebx c 7"

definition enable_smep_smap :: "cpu_state \<Rightarrow> cpu_state" where
  "enable_smep_smap c =
     (let ebx = check_cpuid_leaf07_ebx c;
          has_smep = (ebx AND push_bit 7 1 \<noteq> 0);
          has_smap = (ebx AND push_bit 20 1 \<noteq> 0)
      in if \<not> has_smep \<and> \<not> has_smap then c
         else let n1 = (if has_smep then cr4 c OR push_bit 20 1 else cr4 c);
                  n2 = (if has_smap then n1 OR push_bit 21 1 else n1)
              in if n2 \<noteq> cr4 c then c\<lparr>cr4 := n2\<rparr> else c)"

text \<open>The control word of the floating point unit is not part of the state.\<close>

definition enable_sse :: "cpu_state \<Rightarrow> cpu_state" where
  "enable_sse c = (let new_cr4 = cr4 c OR push_bit 9 1 OR push_bit 10 1 in if new_cr4 \<noteq> cr4 c then c\<lparr>cr4 := new_cr4\<rparr> else c)"

text \<open>Reading a register, setting one bit and writing it back, as \<^verbatim>\<open>enable_nx\<close>, \<^verbatim>\<open>enable_spectre_mitigations\<close> and \<^verbatim>\<open>enable_stibp\<close> do it.\<close>

definition msr_value :: "cpu_state \<Rightarrow> u32 \<Rightarrow> u64" where
  "msr_value c msr = (case cpu_msrs c msr of (high, low) \<Rightarrow> push_bit 32 (ucast high) OR ucast low)"

definition set_msr_bit :: "u32 \<Rightarrow> nat \<Rightarrow> cpu_state \<Rightarrow> cpu_state" where
  "set_msr_bit msr n c =
     (let v = msr_value c msr OR push_bit n 1 in c\<lparr>cpu_msrs := (cpu_msrs c)(msr := (ucast (drop_bit 32 v), ucast v))\<rparr>)"

definition enable_nx :: "cpu_state \<Rightarrow> cpu_state" where
  "enable_nx c = set_msr_bit 0xC0000080 11 c"

definition cpuid_ecx_leaf01 :: "cpu_state \<Rightarrow> u64" where
  "cpuid_ecx_leaf01 c = cpuid_ecx c 1"

definition init_canary :: "cpu_state \<Rightarrow> cpu_state" where
  "init_canary c =
     (if cpuid_ecx_leaf01 c AND push_bit 30 1 = 0 then c\<lparr>STACK_CANARY := 0xDEADBEEFCAFEBABE\<rparr>
      else let (val, c') = next_rdrand c in c'\<lparr>STACK_CANARY := val\<rparr>)"

definition enable_cfi :: "cpu_state \<Rightarrow> cpu_state" where
  "enable_cfi c = c"

definition enable_spectre_mitigations :: "cpu_state \<Rightarrow> cpu_state" where
  "enable_spectre_mitigations c = set_msr_bit 0x48 0 c"

definition enable_stibp :: "cpu_state \<Rightarrow> cpu_state" where
  "enable_stibp c = set_msr_bit 0x48 1 c"

definition security_init_all :: "cpu_state \<Rightarrow> cpu_state" where
  "security_init_all c = enable_stibp (enable_spectre_mitigations (init_canary (enable_nx (enable_smep_smap c))))"

text \<open>What \<^verbatim>\<open>_start_multiboot2\<close> calls instead.\<close>

definition start_protection :: "cpu_state \<Rightarrow> cpu_state" where
  "start_protection c = init_canary (enable_sse (enable_nx (enable_smep_smap c)))"

section \<open>The bits\<close>

lemma and_bit: "(a AND push_bit n 1 \<noteq> 0) = bit (a :: u64) n"
  using and_exp_eq_0_iff_not_bit [of a n] by (simp add: push_bit_eq_mult)

lemma enable_smep_smap_eq:
  "enable_smep_smap c = c\<lparr>cr4 := cr4 c OR (if bit (cpuid_ebx c 7) 7 then push_bit 20 1 else 0) OR (if bit (cpuid_ebx c 7) 20 then push_bit 21 1 else 0)\<rparr>"
  unfolding enable_smep_smap_def check_cpuid_leaf07_ebx_def Let_def and_bit by (auto simp: or.assoc)

lemma enable_sse_eq: "enable_sse c = c\<lparr>cr4 := cr4 c OR push_bit 9 1 OR push_bit 10 1\<rparr>"
  by (simp add: enable_sse_def Let_def)

lemma msr_value_set: "msr_value (set_msr_bit msr n c) m = (if m = msr then msr_value c msr OR push_bit n 1 else msr_value c m)"
proof -
  have "push_bit 32 (ucast (ucast (drop_bit 32 v) :: u32)) OR ucast (ucast v :: u32) = (v :: u64)" for v
    by (rule bit_word_eqI) (auto simp: bit_simps)
  then have "msr_value (c\<lparr>cpu_msrs := (cpu_msrs c)(msr := (ucast (drop_bit 32 v), ucast v))\<rparr>) m = (if m = msr then v else msr_value c m)" for v
    by (simp add: msr_value_def)
  then show ?thesis unfolding set_msr_bit_def Let_def .
qed

lemma init_canary_frame: "cr4 (init_canary c) = cr4 c" "msr_value (init_canary c) m = msr_value c m"
  by (simp_all add: init_canary_def next_rdrand_def msr_value_def)

lemma set_msr_bit_frame: "cr4 (set_msr_bit msr n c) = cr4 c" "cpuid_ecx (set_msr_bit msr n c) = cpuid_ecx c"
  by (simp_all add: set_msr_bit_def Let_def)

text \<open>The protection the kernel starts with. After the calls of \<^verbatim>\<open>main.rs\<close>, a bit of control register 4 is set exactly if it was before, or is
  one of the two SSE bits, or is SMEP or SMAP on a processor that has them; of all model registers only the no-execute bit of
  \<^verbatim>\<open>EFER\<close> is added, so that the speculation controls stay as they were. The stack canary is the next random number, zero if the generator
  answers zero, or the fixed one on a processor without a generator.\<close>

lemma start_protection_bits:
  "cr4 (start_protection c) = cr4 c OR (if bit (cpuid_ebx c 7) 7 then 0x100000 else 0) OR (if bit (cpuid_ebx c 7) 20 then 0x200000 else 0) OR 0x600
   \<and> msr_value (start_protection c) m = (if m = 0xC0000080 then msr_value c m OR 0x800 else msr_value c m)
   \<and> STACK_CANARY (start_protection c) = (if bit (cpuid_ecx c 1) 30 then rdrand c (rdrand_used c) else 0xDEADBEEFCAFEBABE)"
proof (intro conjI)
  show "cr4 (start_protection c) = cr4 c OR (if bit (cpuid_ebx c 7) 7 then 0x100000 else 0) OR (if bit (cpuid_ebx c 7) 20 then 0x200000 else 0) OR 0x600"
    by (simp add: start_protection_def init_canary_frame enable_sse_eq enable_nx_def set_msr_bit_frame enable_smep_smap_eq or.assoc)
  have "msr_value (start_protection c) m = msr_value (enable_nx (enable_smep_smap c)) m"
    by (simp add: start_protection_def init_canary_frame enable_sse_eq) (simp add: msr_value_def)
  also have "\<dots> = (if m = 0xC0000080 then msr_value (enable_smep_smap c) m OR 0x800 else msr_value (enable_smep_smap c) m)"
    by (simp add: enable_nx_def msr_value_set)
  also have "msr_value (enable_smep_smap c) m = msr_value c m" by (simp add: enable_smep_smap_eq) (simp add: msr_value_def)
  finally show "msr_value (start_protection c) m = (if m = 0xC0000080 then msr_value c m OR 0x800 else msr_value c m)" .
  have "cpuid_ecx (enable_sse (enable_nx (enable_smep_smap c))) = cpuid_ecx c" "rdrand (enable_sse (enable_nx (enable_smep_smap c))) = rdrand c"
    "rdrand_used (enable_sse (enable_nx (enable_smep_smap c))) = rdrand_used c"
    by (simp_all add: enable_sse_eq enable_nx_def set_msr_bit_def Let_def enable_smep_smap_eq)
  moreover have "(x AND push_bit 30 1 = 0) = (\<not> bit (x :: u64) 30)" for x using and_bit [of x 30] by blast
  ultimately show "STACK_CANARY (start_protection c) = (if bit (cpuid_ecx c 1) 30 then rdrand c (rdrand_used c) else 0xDEADBEEFCAFEBABE)"
    unfolding start_protection_def init_canary_def cpuid_ecx_leaf01_def next_rdrand_def by simp
qed

text \<open>The kernel address offset is a multiple of 1 MiB, and some of them are not multiples of 2 MiB.\<close>

lemma kaslr_offset_alignment:
  "fst (kaslr_offset c) AND 0xFFFFF = 0" "rdrand c (rdrand_used c) = 0x100000 \<Longrightarrow> fst (kaslr_offset c) AND 0x1FFFFF \<noteq> 0"
proof -
  have "(r AND 0x00FFFFFFFFF00000) AND 0xFFFFF = r AND (0x00FFFFFFFFF00000 AND 0xFFFFF)" for r :: u64 by (simp only: and.assoc)
  then show "fst (kaslr_offset c) AND 0xFFFFF = 0" by (simp add: kaslr_offset_def next_rdrand_def)
  show "rdrand c (rdrand_used c) = 0x100000 \<Longrightarrow> fst (kaslr_offset c) AND 0x1FFFFF \<noteq> 0" by (simp add: kaslr_offset_def next_rdrand_def)
qed

section \<open>Protection and address space together\<close>

text \<open>The checks of the processor for an access in kernel mode to a page with the given flags: with SMEP an instruction is not fetched from a user
  page, with SMAP and a clear \<^verbatim>\<open>AC\<close> flag data of a user page are not accessed.\<close>

definition kernel_fetch_ok :: "cpu_state \<Rightarrow> page_flags \<Rightarrow> bool" where
  "kernel_fetch_ok c fl \<longleftrightarrow> contains fl PRESENT \<and> \<not> (bit (cr4 c) 20 \<and> contains fl USER_ACCESSIBLE)"

definition kernel_access_ok :: "cpu_state \<Rightarrow> bool \<Rightarrow> page_flags \<Rightarrow> bool" where
  "kernel_access_ok c ac fl \<longleftrightarrow> contains fl PRESENT \<and> \<not> (bit (cr4 c) 21 \<and> \<not> ac \<and> contains fl USER_ACCESSIBLE)"

text \<open> C37: On a processor with SMEP the kernel cannot run after it has switched it on. All of the first GiB, where the kernel lies, is mapped for user
  access by the boot tables, so that after \<^verbatim>\<open>enable_smep_smap\<close> no instruction of it can be fetched; with SMAP no datum of it can be
  accessed. On a processor with neither, both work as before.\<close>

theorem smep_stops_kernel:
  assumes "aligned kstart 0" and "aligned kend 0" and "unat kstart \<le> 0x21b000" and "0x21e000 \<le> unat kend"
    and "\<forall>r \<in> set memory_map. mr_kind r = Usable \<longrightarrow> unat (mr_start r) + 4096 < 2 ^ 64"
    and "\<forall>r \<in> set memory_map. unat (mr_end r) \<le> 2 ^ 52"
    and "regions_disjoint kstart kend {} memory_map" and "cr4 c AND 0x300000 = 0" and "unat a < 2 ^ 30"
  shows "\<exists>s fl. buddy_init kstart kend (buddy_new memory) memory_map = Some s \<and> page_view (boot_vm m s) a = Some (a, fl)
    \<and> kernel_fetch_ok (enable_smep_smap c) fl = (\<not> bit (cpuid_ebx c 7) 7)
    \<and> kernel_access_ok (enable_smep_smap c) False fl = (\<not> bit (cpuid_ebx c 7) 20)"
proof -
  obtain s where s: "buddy_init kstart kend (buddy_new memory) memory_map = Some s" "page_view (boot_vm m s) a = Some (a, 7)"
    using boot_space [OF assms(1-7), of memory m] assms(9) by fastforce
  have "bit (cr4 c AND 0x300000) n \<longleftrightarrow> bit (cr4 c) n \<and> (n = 20 \<or> n = 21)" for n
  proof -
    have "(0x300000 :: u64) = push_bit 20 1 OR push_bit 21 1" by simp
    then show ?thesis by (simp only: bit_simps) auto
  qed
  then have z: "\<not> bit (cr4 c) 20" "\<not> bit (cr4 c) 21" using assms(8) by (metis bit_0_eq bot_apply bot_bool_def)+
  have f: "contains 7 PRESENT" "contains 7 USER_ACCESSIBLE" by (simp_all add: contains_def PRESENT_def USER_ACCESSIBLE_def)
  have b: "bit (cr4 (enable_smep_smap c)) 20 = bit (cpuid_ebx c 7) 7" "bit (cr4 (enable_smep_smap c)) 21 = bit (cpuid_ebx c 7) 20"
    using z unfolding enable_smep_smap_eq by (auto simp: bit_or_iff bit_push_bit_iff simp del: push_bit_of_1)
  show ?thesis using s f by (auto simp: kernel_fetch_ok_def kernel_access_ok_def b)
qed

definition demo_cpu :: cpu_state where
  "demo_cpu = \<lparr>cr4 = 0x20, cpu_msrs = (\<lambda>_. (0, 0)), cpuid_ebx = (\<lambda>_. 0x80), cpuid_ecx = (\<lambda>_. 0), rdrand = (\<lambda>_. 0), rdrand_used = 0, STACK_CANARY = 0\<rparr>"

theorem smep_stops_kernel_witness:
  "\<exists>s fl. page_view (boot_vm (\<lambda>_. 0) s) 0x200000 = Some (0x200000, fl) \<and> \<not> kernel_fetch_ok (enable_smep_smap demo_cpu) fl
    \<and> kernel_access_ok (enable_smep_smap demo_cpu) False fl"
proof -
  let ?r = "\<lparr>mr_start = 0x400000, mr_end = 0x8000000, mr_kind = Usable\<rparr>"
  have "regions_disjoint 0x200000 0x400000 {} [?r]" by simp
  then show ?thesis
    using smep_stops_kernel [of "0x200000" "0x400000" "[?r]" demo_cpu "0x200000" "\<lambda>_. None" "\<lambda>_. 0"]
    by (auto simp: aligned_def demo_cpu_def)
qed

end
