(* ===== verification/Multiboot.thy ===== *)
theory Multiboot
  imports Mem Physical
begin

text \<open>
  The memory map of the boot loader (\<^verbatim>\<open>hammam/src/main.rs\<close>, \<^verbatim>\<open>parse_multiboot2_memory_map\<close>): a walk over the tags of the
  Multiboot2 information structure and over the entries of its memory map tags, into a fixed array of regions. The walk
  over the tags does not end on every input, so it is a partial function.
\<close>

definition MAX_MEMORY_REGIONS :: nat where
  "MAX_MEMORY_REGIONS = 64"

record mb2_tag =
  tag_type :: u32
  tag_size :: u32

record mb2_mmap_tag = mb2_tag +
  entry_size :: u32
  entry_version :: u32

record mb2_mmap_entry =
  base_addr :: u64
  mm_length :: u64
  entry_type :: u32

record mb2_boot_info =
  total_size :: u32

definition read_tag :: "memory \<Rightarrow> u64 \<Rightarrow> mb2_tag" where
  "read_tag m p = \<lparr>tag_type = load_u32 m p, tag_size = load_u32 m (p + 4)\<rparr>"

definition read_mmap_tag :: "memory \<Rightarrow> u64 \<Rightarrow> mb2_mmap_tag" where
  "read_mmap_tag m p = \<lparr>tag_type = load_u32 m p, tag_size = load_u32 m (p + 4), entry_size = load_u32 m (p + 8),
     entry_version = load_u32 m (p + 12)\<rparr>"

definition read_mmap_entry :: "memory \<Rightarrow> u64 \<Rightarrow> mb2_mmap_entry" where
  "read_mmap_entry m p = \<lparr>base_addr = load_u64 m p, mm_length = load_u64 m (p + 8), entry_type = load_u32 m (p + 16)\<rparr>"

definition region_kind :: "u32 \<Rightarrow> memory_kind" where
  "region_kind t = (if t = 1 then Usable else if t = 3 then AcpiReclaimable else if t = 4 then AcpiNvs else Reserved)"

text \<open>The entries of one tag: \<open>entries_start\<close> is the address behind the tag's header, \<open>count\<close> the number of regions
  written so far. The byte counts come from 32-bit fields, so their sums do not wrap.\<close>

function mmap_entries ::
  "memory \<Rightarrow> u64 \<Rightarrow> nat \<Rightarrow> nat \<Rightarrow> nat \<Rightarrow> memory_region list \<Rightarrow> nat \<Rightarrow> (memory_region list \<times> nat) option" where
  "mmap_entries m entries_start esize entries_byte_count offset regions count =
     (if offset + esize \<le> entries_byte_count \<and> count < length regions then
        let entry = read_mmap_entry m (entries_start + of_nat offset) in
        do {
          region_end \<leftarrow> checked_add (base_addr entry) (mm_length entry);
          mmap_entries m entries_start esize entries_byte_count (offset + esize)
            (regions[count := \<lparr>mr_start = base_addr entry, mr_end = region_end, mr_kind = region_kind (entry_type entry)\<rparr>])
            (count + 1)
        }
      else Some (regions, count))"
  by pat_completeness auto
termination
  by (relation "measure (\<lambda>(m, s, e, n, off, rs, c). length rs - c)") auto

declare mmap_entries.simps [simp del]

partial_function (option) parse_tags ::
  "memory \<Rightarrow> u64 \<Rightarrow> u64 \<Rightarrow> memory_region list \<Rightarrow> nat \<Rightarrow> (memory_region list \<times> nat) option" where
  "parse_tags m end_ptr tag_ptr regions count =
     do {
       tag_end \<leftarrow> checked_add (ucast tag_ptr :: u32) 8;
       if tag_end \<le> ucast end_ptr then
         let tag = read_tag m tag_ptr in
         if tag_type tag = 0 then Some (regions, count)
         else do {
           (regions', count') \<leftarrow>
             (if tag_type tag = 6 then
                let mmap = read_mmap_tag m tag_ptr in
                mmap_entries m (tag_ptr + 16) (unat (entry_size mmap)) (unat (tag_size mmap) - 16) 0 regions count
              else Some (regions, count));
           padded \<leftarrow> checked_add (tag_size tag) 7;
           let aligned_size = (ucast (padded AND NOT 7) :: u64);
           parse_tags m end_ptr (tag_ptr + aligned_size) regions' count'
         }
       else Some (regions, count)
     }"

definition parse_multiboot2_memory_map ::
  "memory \<Rightarrow> u32 \<Rightarrow> memory_region list \<Rightarrow> (memory_region list \<times> nat) option" where
  "parse_multiboot2_memory_map m mbi_ptr regions =
     do {
       let boot_info = \<lparr>total_size = load_u32 m (ucast mbi_ptr)\<rparr>;
       end_ptr \<leftarrow> checked_add mbi_ptr (total_size boot_info);
       first \<leftarrow> checked_add mbi_ptr 8;
       parse_tags m (ucast end_ptr) (ucast first) regions 0
     }"

text \<open>The array that the entry point passes.\<close>

definition initial_regions :: "memory_region list" where
  "initial_regions = replicate MAX_MEMORY_REGIONS \<lparr>mr_start = 0, mr_end = 0, mr_kind = Reserved\<rparr>"

text \<open>The part of the entry point that hands the memory map to the page allocator; \<open>memory\<close> is the contents of the
  free pages, which the allocator overwrites.\<close>

definition init_physical_memory ::
  "memory \<Rightarrow> u32 \<Rightarrow> u64 \<Rightarrow> u64 \<Rightarrow> (u64 \<Rightarrow> u64 option) \<Rightarrow> buddy_allocator option" where
  "init_physical_memory m mbi_ptr kstart kend memory =
     do {
       (regions, region_count) \<leftarrow> parse_multiboot2_memory_map m mbi_ptr initial_regions;
       if 0 < region_count then buddy_init kstart kend (buddy_new memory) (take region_count regions)
       else Some (buddy_new memory)
     }"

section \<open>Reference reading\<close>

definition padded_size :: "memory \<Rightarrow> u64 \<Rightarrow> nat" where
  "padded_size m p = (unat (load_u32 m (p + 4)) + 7) div 8 * 8"

text \<open>\<open>tag_chain m e p ps\<close>: the tags from \<open>p\<close> on start at the addresses \<open>ps\<close>, one behind the other, up to the
  closing tag or the end \<open>e\<close> of the structure, which lies below 4 GiB.\<close>

primrec tag_chain :: "memory \<Rightarrow> nat \<Rightarrow> u64 \<Rightarrow> u64 list \<Rightarrow> bool" where
  "tag_chain m e p [] \<longleftrightarrow> unat p + 8 < 2 ^ 32 \<and> (e < unat p + 8 \<or> load_u32 m p = 0)"
| "tag_chain m e p (q # qs) \<longleftrightarrow> q = p \<and> unat p + 8 \<le> e \<and> load_u32 m p \<noteq> 0 \<and> 8 \<le> unat (load_u32 m (p + 4))
     \<and> unat p + padded_size m p + 8 < 2 ^ 32 \<and> tag_chain m e (p + of_nat (padded_size m p)) qs"

definition entry_region :: "memory \<Rightarrow> u64 \<Rightarrow> memory_region" where
  "entry_region m p = \<lparr>mr_start = load_u64 m p, mr_end = load_u64 m p + load_u64 m (p + 8),
     mr_kind = region_kind (load_u32 m (p + 16))\<rparr>"

definition entry_addrs :: "memory \<Rightarrow> u64 \<Rightarrow> u64 list" where
  "entry_addrs m p = (if load_u32 m p = 6
     then map (\<lambda>i. p + 16 + of_nat (i * unat (load_u32 m (p + 8))))
            [0 ..< (unat (load_u32 m (p + 4)) - 16) div unat (load_u32 m (p + 8))]
     else [])"

definition entry_fits :: "memory \<Rightarrow> u64 \<Rightarrow> bool" where
  "entry_fits m p \<longleftrightarrow> unat (load_u64 m p) + unat (load_u64 m (p + 8)) < 2 ^ 64"

text \<open>Writing a list of regions into the array from an index on, as far as there is room.\<close>

definition fill :: "'a list \<Rightarrow> nat \<Rightarrow> 'a list \<Rightarrow> 'a list" where
  "fill rs c xs = take c rs @ take (length rs - c) xs @ drop (c + length xs) rs"

lemma fill_Cons: "c < length rs \<Longrightarrow> fill rs c (x # xs) = fill (rs[c := x]) (Suc c) xs"
proof -
  assume c: "c < length rs"
  then have "length rs - c = Suc (length rs - Suc c)" by simp
  moreover have "take (Suc c) (rs[c := x]) = take c rs @ [x]" using c by (simp add: take_Suc_conv_app_nth)
  ultimately show ?thesis by (simp add: fill_def)
qed

lemma fill_full [simp]: "length rs \<le> c \<Longrightarrow> fill rs c xs = rs"
  by (simp add: fill_def)

lemma fill_Nil [simp]: "fill rs c [] = rs"
  by (simp add: fill_def)

lemma length_fill [simp]: "length (fill rs c xs) = length rs"
proof (induction xs arbitrary: rs c)
  case (Cons x xs)
  then show ?case by (cases "c < length rs") (simp_all add: fill_Cons)
qed simp

lemma fill_append: "c \<le> length rs \<Longrightarrow> fill (fill rs c xs) (min (length rs) (c + length xs)) ys = fill rs c (xs @ ys)"
proof (induction xs arbitrary: rs c)
  case Nil
  then show ?case by (simp add: min_def)
next
  case (Cons x xs)
  show ?case
  proof (cases "c < length rs")
    case True
    then show ?thesis using Cons.IH [of "Suc c" "rs[c := x]"] by (simp add: fill_Cons)
  next
    case False
    then show ?thesis by simp
  qed
qed

lemma take_fill: "take (min (length rs) (length xs)) (fill rs 0 xs) = take (length rs) xs"
  by (simp add: fill_def min_def)

lemma mmap_entries_spec:
  assumes "0 < esize"
  shows "n = (bytes - offset) div esize \<Longrightarrow> c \<le> length rs \<Longrightarrow>
    \<forall>i < n. entry_fits m (s + of_nat (offset + i * esize)) \<Longrightarrow>
    mmap_entries m s esize bytes offset rs c =
      Some (fill rs c (map (\<lambda>i. entry_region m (s + of_nat (offset + i * esize))) [0 ..< n]), min (length rs) (c + n))"
proof (induction n arbitrary: offset rs c)
  case 0
  then have "bytes - offset < esize" using assms by (simp add: div_eq_0_iff)
  then have "\<not> offset + esize \<le> bytes" by linarith
  then show ?case using 0 by (subst mmap_entries.simps) simp
next
  case (Suc n)
  have "1 * esize \<le> (bytes - offset) div esize * esize" unfolding Suc.prems(1) [symmetric] by simp
  then have room: "offset + esize \<le> bytes" using div_times_less_eq_dividend [of "bytes - offset" esize] assms by linarith
  show ?case
  proof (cases "c < length rs")
    case True
    let ?x = "entry_region m (s + of_nat offset)"
    have n: "n = (bytes - (offset + esize)) div esize"
    proof -
      define b where "b = bytes - (offset + esize)"
      have "bytes - offset = b + esize" using room by (simp add: b_def)
      then have "(bytes - offset) div esize = b div esize + 1" using assms div_add_self2 [of esize b] by simp
      then show ?thesis using Suc.prems(1) by (simp add: b_def)
    qed
    have f0: "entry_fits m (s + of_nat offset)" using Suc.prems(3) by force
    have fs: "\<forall>i < n. entry_fits m (s + of_nat ((offset + esize) + i * esize))"
    proof (intro allI impI)
      fix i assume "i < n"
      then have "entry_fits m (s + of_nat (offset + Suc i * esize))" using Suc.prems(3) by blast
      then show "entry_fits m (s + of_nat ((offset + esize) + i * esize))" by (simp add: algebra_simps)
    qed
    have "mmap_entries m s esize bytes offset rs c = mmap_entries m s esize bytes (offset + esize) (rs[c := ?x]) (c + 1)"
      using room True f0
      by (subst mmap_entries.simps) (simp add: read_mmap_entry_def entry_fits_def checked_add_def entry_region_def)
    also have "\<dots> = Some (fill (rs[c := ?x]) (c + 1) (map (\<lambda>i. entry_region m (s + of_nat ((offset + esize) + i * esize))) [0 ..< n]),
        min (length rs) (c + 1 + n))"
      using Suc.IH [OF n _ fs, of "c + 1" "rs[c := ?x]"] True by simp
    also have "map (\<lambda>i. entry_region m (s + of_nat ((offset + esize) + i * esize))) [0 ..< n]
        = map (\<lambda>i. entry_region m (s + of_nat (offset + i * esize))) [1 ..< Suc n]"
      by (simp add: map_Suc_upt [symmetric] algebra_simps comp_def del: upt_Suc)
    finally show ?thesis using True by (simp add: upt_conv_Cons fill_Cons del: upt_Suc)
  next
    case False
    then show ?thesis using Suc.prems(2) by (subst mmap_entries.simps) simp
  qed
qed

lemma unat_ucast32: "unat (p :: u64) < 2 ^ 32 \<Longrightarrow> unat (ucast p :: u32) = unat p"
  by (simp add: unsigned_ucast_eq take_bit_nat_eq_self_iff)

lemma padded_size_word:
  assumes "unat (z :: u32) + 7 < 2 ^ 32"
  shows "checked_add z 7 = Some (z + 7)" "(ucast ((z + 7) AND NOT 7) :: u64) = of_nat ((unat z + 7) div 8 * 8)"
proof -
  show "checked_add z 7 = Some (z + 7)" using assms by (simp add: checked_add_def)
  have m: "(7 :: u32) = mask 3" by (simp add: mask_eq_exp_minus_1)
  have u: "unat (z + 7) = unat z + 7" using assms by (simp add: unat_add_no_wrap)
  have "unat ((z + 7) AND NOT 7) = (unat z + 7) - (unat z + 7) mod 2 ^ 3"
    unfolding m by (simp only: unat_and_not_mask) (simp add: m [symmetric] u)
  also have "\<dots> = (unat z + 7) div 8 * 8" using minus_mod_eq_div_mult [of "unat z + 7" 8] by simp
  finally show "(ucast ((z + 7) AND NOT 7) :: u64) = of_nat ((unat z + 7) div 8 * 8)"
    by (metis of_nat_unat)
qed

lemma tag_entries:
  assumes "c \<le> length rs" and "load_u32 m p = 6 \<Longrightarrow> 0 < unat (load_u32 m (p + 8))"
    and "\<forall>a \<in> set (entry_addrs m p). entry_fits m a"
  shows "(if tag_type (read_tag m p) = 6 then
            let mmap = read_mmap_tag m p in
            mmap_entries m (p + 16) (unat (entry_size mmap)) (unat (tag_size mmap) - 16) 0 rs c
          else Some (rs, c))
    = Some (fill rs c (map (entry_region m) (entry_addrs m p)), min (length rs) (c + length (entry_addrs m p)))"
proof (cases "load_u32 m p = 6")
  case True
  let ?e = "unat (load_u32 m (p + 8))" and ?b = "unat (load_u32 m (p + 4)) - 16"
  have addrs: "entry_addrs m p = map (\<lambda>i. p + 16 + of_nat (0 + i * ?e)) [0 ..< ?b div ?e]" using True by (simp add: entry_addrs_def)
  have "\<forall>i < ?b div ?e. entry_fits m (p + 16 + of_nat (0 + i * ?e))" using assms(3) unfolding addrs by simp
  from mmap_entries_spec [OF assms(2) [OF True] _ assms(1) this] show ?thesis
    using True by (simp add: read_tag_def read_mmap_tag_def addrs comp_def)
next
  case False
  then show ?thesis using assms(1) by (simp add: read_tag_def entry_addrs_def min_def)
qed

lemma parse_tags_spec:
  assumes "e < 2 ^ 32" and "unat end_ptr = e"
  shows "tag_chain m e p ps \<Longrightarrow> c \<le> length rs \<Longrightarrow> \<forall>q \<in> set ps. load_u32 m q = 6 \<longrightarrow> 0 < unat (load_u32 m (q + 8)) \<Longrightarrow>
    \<forall>a \<in> set (concat (map (entry_addrs m) ps)). entry_fits m a \<Longrightarrow>
    parse_tags m end_ptr p rs c =
      Some (fill rs c (map (entry_region m) (concat (map (entry_addrs m) ps))),
        min (length rs) (c + length (concat (map (entry_addrs m) ps))))"
proof (induction ps arbitrary: p rs c)
  case Nil
  then have p: "unat p + 8 < 2 ^ 32" "e < unat p + 8 \<or> load_u32 m p = 0" by simp_all
  have u: "unat (ucast p :: u32) = unat p" "unat (ucast end_ptr :: u32) = e" using p assms by (simp_all add: unat_ucast32)
  then have a: "checked_add (ucast p :: u32) 8 = Some (ucast p + 8)" "unat (ucast p + 8 :: u32) = unat p + 8"
    using p(1) by (simp_all add: checked_add_def unat_add_no_wrap)
  have "ucast p + 8 \<le> (ucast end_ptr :: u32) \<longleftrightarrow> unat p + 8 \<le> e" by (simp only: word_le_nat_alt a(2) u(2))
  then show ?case using p(2) a(1) Nil.prems(2) by (subst parse_tags.simps) (auto simp: read_tag_def min_def)
next
  case (Cons q ps)
  then have p: "q = p" "unat p + 8 \<le> e" "load_u32 m p \<noteq> 0" "8 \<le> unat (load_u32 m (p + 4))"
    "unat p + padded_size m p + 8 < 2 ^ 32" "tag_chain m e (p + of_nat (padded_size m p)) ps" by simp_all
  have u: "unat (ucast p :: u32) = unat p" "unat (ucast end_ptr :: u32) = e" using p assms by (simp_all add: unat_ucast32)
  then have a: "checked_add (ucast p :: u32) 8 = Some (ucast p + 8)" "unat (ucast p + 8 :: u32) = unat p + 8"
    using p(2) assms(1) by (simp_all add: checked_add_def unat_add_no_wrap)
  have le: "ucast p + 8 \<le> (ucast end_ptr :: u32)" using p(2) by (simp only: word_le_nat_alt a(2) u(2))
  have "unat (load_u32 m (p + 4)) \<le> padded_size m p" unfolding padded_size_def by linarith
  then have "unat (load_u32 m (p + 4)) + 7 < 2 ^ 32" using p(5) by linarith
  note z = padded_size_word [OF this]
  note t = tag_entries [of c rs m p]
  let ?xs = "map (entry_region m) (entry_addrs m p)"
  have "parse_tags m end_ptr p rs c = parse_tags m end_ptr (p + of_nat (padded_size m p)) (fill rs c ?xs)
      (min (length rs) (c + length (entry_addrs m p)))"
    using t Cons.prems p(1,3) a(1) le z by (subst parse_tags.simps) (simp add: read_tag_def padded_size_def)
  also have "\<dots> = Some (fill (fill rs c ?xs) (min (length rs) (c + length ?xs)) (map (entry_region m) (concat (map (entry_addrs m) ps))),
      min (length rs) (min (length rs) (c + length (entry_addrs m p)) + length (concat (map (entry_addrs m) ps))))"
    using Cons.IH [OF p(6), of "min (length rs) (c + length (entry_addrs m p))" "fill rs c ?xs"] Cons.prems by simp
  finally show ?case using fill_append [OF Cons.prems(2), of ?xs] p(1) by (simp add: min_def add.assoc)
qed

section \<open>Properties\<close>

text \<open>The first 64 regions of the memory map tags at \<open>ps\<close>.\<close>

definition mapped_regions :: "memory \<Rightarrow> u64 list \<Rightarrow> memory_region list" where
  "mapped_regions m ps = take 64 (map (entry_region m) (concat (map (entry_addrs m) ps)))"

lemma parse_spec:
  assumes fit: "unat mbi + unat (load_u32 m (ucast mbi)) < 2 ^ 32" "unat mbi + 8 < 2 ^ 32"
    and ch: "tag_chain m (unat mbi + unat (load_u32 m (ucast mbi))) (ucast (mbi + 8)) ps"
    and sz: "\<forall>q \<in> set ps. load_u32 m q = 6 \<longrightarrow> 0 < unat (load_u32 m (q + 8))"
    and ef: "\<forall>a \<in> set (concat (map (entry_addrs m) ps)). entry_fits m a"
  shows "\<exists>regions. parse_multiboot2_memory_map m mbi initial_regions = Some (regions, length (mapped_regions m ps))
    \<and> take (length (mapped_regions m ps)) regions = mapped_regions m ps"
proof -
  let ?t = "load_u32 m (ucast mbi)" and ?xs = "map (entry_region m) (concat (map (entry_addrs m) ps))"
  have e: "checked_add mbi ?t = Some (mbi + ?t)" "checked_add mbi 8 = Some (mbi + 8)" "unat (mbi + ?t) = unat mbi + unat ?t"
    using fit by (simp_all add: checked_add_def unat_add_no_wrap)
  have u: "unat (ucast (mbi + ?t) :: u64) = unat mbi + unat ?t" using e(3) fit(1) by (simp add: unsigned_ucast_eq take_bit_nat_eq_self_iff)
  have l: "length initial_regions = 64" by (simp add: initial_regions_def MAX_MEMORY_REGIONS_def)
  have "parse_tags m (ucast (mbi + ?t)) (ucast (mbi + 8)) initial_regions 0 = Some (fill initial_regions 0 ?xs, min 64 (length ?xs))"
    using parse_tags_spec [OF fit(1) u ch _ sz ef, of 0 initial_regions] l by simp
  then have "parse_multiboot2_memory_map m mbi initial_regions = Some (fill initial_regions 0 ?xs, length (mapped_regions m ps))"
    using e by (simp add: parse_multiboot2_memory_map_def mapped_regions_def min.commute)
  moreover have "take (length (mapped_regions m ps)) (fill initial_regions 0 ?xs) = mapped_regions m ps"
    using take_fill [of initial_regions ?xs] unfolding l by (simp add: mapped_regions_def min.commute)
  ultimately show ?thesis by blast
qed

text \<open> C21: The boot path turns the boot loader's memory map into free pages. If the tags of the information structure follow
  one another below 4 GiB, memory map entries have a positive size and no region wraps around the address space,
  then the walk ends and writes the first 64 entries in order into the array, and the page allocator started on them
  manages exactly the whole usable pages outside the kernel image and page 0.\<close>

theorem boot_manages_memory_map:
  assumes "unat mbi + unat (load_u32 m (ucast mbi)) < 2 ^ 32" and "unat mbi + 8 < 2 ^ 32"
    and "tag_chain m (unat mbi + unat (load_u32 m (ucast mbi))) (ucast (mbi + 8)) ps"
    and "\<forall>q \<in> set ps. load_u32 m q = 6 \<longrightarrow> 0 < unat (load_u32 m (q + 8))"
    and "\<forall>a \<in> set (concat (map (entry_addrs m) ps)). entry_fits m a"
    and k: "aligned kstart 0" "aligned kend 0" "kstart \<le> kend"
    and low: "\<forall>r \<in> set (mapped_regions m ps). mr_kind r = Usable \<longrightarrow> unat (mr_start r) + 4096 < 2 ^ 64"
    and dj: "regions_disjoint kstart kend {} (mapped_regions m ps)"
  shows "(\<exists>regions. parse_multiboot2_memory_map m mbi initial_regions = Some (regions, length (mapped_regions m ps))
      \<and> take (length (mapped_regions m ps)) regions = mapped_regions m ps)
    \<and> (\<exists>s. init_physical_memory m mbi kstart kend memory = Some s \<and> buddy_invar s
      \<and> free_page_set s = (\<Union>r \<in> set (mapped_regions m ps). usable_pages kstart kend r))"
proof -
  obtain regions where p: "parse_multiboot2_memory_map m mbi initial_regions = Some (regions, length (mapped_regions m ps))"
    "take (length (mapped_regions m ps)) regions = mapped_regions m ps" using parse_spec [OF assms(1-5)] by blast
  obtain s where s: "buddy_init kstart kend (buddy_new memory) (mapped_regions m ps) = Some s"
    and fr: "fresh_rel s (\<Union>r \<in> set (mapped_regions m ps). usable_pages kstart kend r)"
    using buddy_init_spec [OF fresh_rel_new k low dj] by auto
  have "init_physical_memory m mbi kstart kend memory = Some s"
    using p s by (cases "mapped_regions m ps") (simp_all add: init_physical_memory_def)
  moreover from fr have "buddy_invar s \<and> free_page_set s = (\<Union>r \<in> set (mapped_regions m ps). usable_pages kstart kend r)"
    by (rule fresh_relE) (auto simp: buddy_invar_def free_page_set_eq)
  ultimately show ?thesis using p by blast
qed

text \<open>An information structure at \<open>0x9000\<close> with one memory map tag of one usable region and the closing tag.\<close>

definition demo_mbi :: "u8 list" where
  "demo_mbi = [56, 0, 0, 0, 0, 0, 0, 0] @ [6, 0, 0, 0, 40, 0, 0, 0, 24, 0, 0, 0, 0, 0, 0, 0]
     @ [0, 0, 0x20, 0, 0, 0, 0, 0, 0, 0x20, 0, 0, 0, 0, 0, 0, 1, 0, 0, 0, 0, 0, 0, 0] @ [0, 0, 0, 0, 8, 0, 0, 0]"

abbreviation demo_mem :: memory where
  "demo_mem \<equiv> mem_at 0x9000 demo_mbi"

lemma demo_loads:
  "load_u32 demo_mem 0x9000 = 56" "load_u32 demo_mem 0x9008 = 6" "load_u32 demo_mem 0x900C = 40" "load_u32 demo_mem 0x9010 = 24"
  "load_u64 demo_mem 0x9018 = 0x200000" "load_u64 demo_mem 0x9020 = 0x2000" "load_u32 demo_mem 0x9028 = 1" "load_u32 demo_mem 0x9030 = 0"
  by (simp_all add: load_u32_def load_u64_def load_bytes_def upt_small mem_at_def demo_mbi_def)

theorem boot_manages_memory_map_witness:
  "\<exists>s. init_physical_memory demo_mem 0x9000 0x100000 0x180000 (\<lambda>_. None) = Some s \<and> free_page_set s = {0x200, 0x201}"
proof -
  have a: "entry_addrs demo_mem 0x9008 = [0x9018]" by (simp add: entry_addrs_def demo_loads)
  have r: "mapped_regions demo_mem [0x9008] = [\<lparr>mr_start = 0x200000, mr_end = 0x202000, mr_kind = Usable\<rparr>]"
    by (simp add: mapped_regions_def a entry_region_def demo_loads region_kind_def)
  have "usable_pages 0x100000 0x180000 \<lparr>mr_start = 0x200000, mr_end = 0x202000, mr_kind = Usable\<rparr> = {0x200, 0x201}"
    by (auto simp: usable_pages_def)
  moreover have "tag_chain demo_mem 0x9038 0x9008 [0x9008]" by (simp add: padded_size_def demo_loads)
  moreover have "entry_fits demo_mem 0x9018" by (simp add: entry_fits_def demo_loads)
  ultimately show ?thesis
    using boot_manages_memory_map [of "0x9000" demo_mem "[0x9008]" "0x100000" "0x180000" "\<lambda>_. None"]
    by (simp add: a r demo_loads aligned_def) blast
qed

text \<open>A tag of size zero is never passed: the walk stays on it for ever.\<close>

lemma empty_tag_hangs:
  assumes "tag_type (read_tag m p) \<noteq> 0" and "tag_type (read_tag m p) \<noteq> 6" and "tag_size (read_tag m p) = 0"
    and "unat (ucast p :: u32) + 8 \<le> unat (ucast end_ptr :: u32)"
  shows "parse_tags m end_ptr p rs c = None"
proof (rule ccontr)
  assume "parse_tags m end_ptr p rs c \<noteq> None"
  then obtain y where "parse_tags m end_ptr p rs c = Some y" by blast
  then have "m \<noteq> m \<or> p \<noteq> p \<or> end_ptr \<noteq> end_ptr"
  proof (rule parse_tags.raw_induct [rotated, where P = "\<lambda>m' e q _ _ _. m' \<noteq> m \<or> q \<noteq> p \<or> e \<noteq> end_ptr"], goal_cases)
    case (1 f m' e q rs' c' y')
    have "unat (ucast end_ptr :: u32) < 2 ^ 32" using unsigned_less [of "ucast end_ptr :: u32", where 'a = nat] by simp
    then have a: "checked_add (ucast p :: u32) 8 = Some (ucast p + 8)" "unat (ucast p + 8 :: u32) = unat (ucast p :: u32) + 8"
      using assms(4) by (simp_all add: checked_add_def unat_add_no_wrap)
    then have le: "ucast p + 8 \<le> (ucast end_ptr :: u32)" using assms(4) by (simp add: word_le_nat_alt)
    have z: "checked_add (0 :: u32) 7 = Some 7" by (simp add: checked_add_def)
    show ?case
    proof (rule ccontr)
      assume "\<not> ?case"
      then have eq: "m' = m" "q = p" "e = end_ptr" by simp_all
      have "f m end_ptr p rs' c' = Some y'" using 1(2) assms(1-3) a(1) le z unfolding eq by simp
      then show False using 1(1) by blast
    qed
  qed
  then show False by simp
qed

end
