(* ===== verification/Alloc.thy ===== *)
theory Alloc
  imports Prelude
begin

text \<open>
  Byte allocators: the contract of \<^verbatim>\<open>core::alloc::GlobalAlloc\<close> as an interface, the runs of a client over it, and
  the bump allocators of the user programs (\<^verbatim>\<open>dealduck/src/allocator.rs\<close>, \<^verbatim>\<open>userspace/dealduck/src/allocator.rs\<close>,
  \<^verbatim>\<open>userspace/net-server/src/alloc_impl.rs\<close>), which provide it. The kernel heap provides it in theory \<open>Heap\<close>.
\<close>

section \<open>Layouts\<close>

text \<open>\<^verbatim>\<open>Layout\<close>: the alignment is a power of two and the size rounded up to it is at most \<^verbatim>\<open>isize::MAX\<close>; a request
  of \<^verbatim>\<open>GlobalAlloc\<close> has a nonzero size.\<close>

record layout =
  lay_size :: usize
  lay_align :: usize

definition layout_ok :: "layout \<Rightarrow> bool" where
  "layout_ok l \<longleftrightarrow> 0 < unat (lay_size l) \<and> (\<exists>n \<le> 62. lay_align l = 2 ^ n)
     \<and> unat (lay_size l) + unat (lay_align l) \<le> 2 ^ 63"

text \<open>\<^verbatim>\<open>(x + align - 1) & !(align - 1)\<close>\<close>

definition align_up :: "usize \<Rightarrow> usize \<Rightarrow> usize option" where
  "align_up x align =
     do {
       s \<leftarrow> checked_add x align;
       up \<leftarrow> checked_sub s 1;
       m \<leftarrow> checked_sub align 1;
       Some (up AND NOT m)
     }"

lemma round_up_nat:
  fixes x n :: nat
  assumes "0 < n"
  shows "n dvd (x + n - 1) - (x + n - 1) mod n" "x \<le> (x + n - 1) - (x + n - 1) mod n"
    "(x + n - 1) - (x + n - 1) mod n < x + n"
proof -
  have "(x + n - 1) mod n < n" using assms by simp
  then show "x \<le> (x + n - 1) - (x + n - 1) mod n" using assms by linarith
  show "(x + n - 1) - (x + n - 1) mod n < x + n" using assms by linarith
  show "n dvd (x + n - 1) - (x + n - 1) mod n" by (rule dvd_minus_mod)
qed

lemma pow2_minus_one: "(2 ^ n :: 'a::len word) - 1 = mask n"
  by (simp add: mask_eq_exp_minus_1)

lemma align_up_pow2:
  assumes "n \<le> 62" and "unat x + 2 ^ n < 2 ^ 64"
  shows "\<exists>y. align_up x (2 ^ n) = Some y \<and> 2 ^ n dvd unat y \<and> unat x \<le> unat y \<and> unat y < unat x + 2 ^ n
    \<and> unat y = (unat x + 2 ^ n - 1) - (unat x + 2 ^ n - 1) mod 2 ^ n"
proof -
  have n: "unat (2 ^ n :: u64) = 2 ^ n" using assms(1) by (simp add: unat_pow2)
  have s: "checked_add x (2 ^ n) = Some (x + 2 ^ n)" "unat (x + 2 ^ n) = unat x + 2 ^ n"
    using assms n by (simp_all add: checked_add_def unat_add_no_wrap)
  have "1 \<le> unat x + 2 ^ n" using one_le_power [of "2 :: nat" n] by linarith
  then have one: "(1 :: u64) \<le> x + 2 ^ n" "(1 :: u64) \<le> 2 ^ n" using s(2) n by (simp_all add: word_le_nat_alt)
  have u: "unat (x + 2 ^ n - 1) = unat x + 2 ^ n - 1" using one(1) s(2) by (simp add: unat_sub)
  have "align_up x (2 ^ n) = Some ((x + 2 ^ n - 1) AND NOT (mask n))"
    using one by (simp add: align_up_def s(1) checked_sub_def pow2_minus_one)
  moreover have "unat ((x + 2 ^ n - 1) AND NOT (mask n)) = (unat x + 2 ^ n - 1) - (unat x + 2 ^ n - 1) mod 2 ^ n"
    by (simp only: unat_and_not_mask u)
  ultimately show ?thesis using round_up_nat [of "2 ^ n" "unat x"] by auto
qed

section \<open>The interface and its clients\<close>

definition block_bytes :: "nat \<Rightarrow> u64 \<Rightarrow> nat set" where
  "block_bytes n p = {unat p ..< unat p + n}"

inductive client_step ::
  "('s \<Rightarrow> layout \<Rightarrow> (u64 option \<times> 's) option) \<Rightarrow> ('s \<Rightarrow> u64 \<Rightarrow> layout \<Rightarrow> 's) \<Rightarrow> ('s \<Rightarrow> u64 \<Rightarrow> 'h \<Rightarrow> 's)
    \<Rightarrow> 's \<times> (u64 \<times> layout) set \<Rightarrow> 's \<times> (u64 \<times> layout) set \<Rightarrow> bool"
  for alloc dealloc poke where
  obtained: "layout_ok l \<Longrightarrow> alloc s l = Some (Some p, s') \<Longrightarrow>
    client_step alloc dealloc poke (s, H) (s', insert (p, l) H)"
| null: "layout_ok l \<Longrightarrow> alloc s l = Some (None, s') \<Longrightarrow> client_step alloc dealloc poke (s, H) (s', H)"
| released: "(p, l) \<in> H \<Longrightarrow> client_step alloc dealloc poke (s, H) (dealloc s p l, H - {(p, l)})"
| stored: "(p, l) \<in> H \<Longrightarrow> unat a \<in> block_bytes (unat (lay_size l)) p \<Longrightarrow>
    client_step alloc dealloc poke (s, H) (poke s a v, H)"

definition live_ok :: "(layout \<Rightarrow> nat) \<Rightarrow> (layout \<Rightarrow> nat) \<Rightarrow> nat set \<Rightarrow> nat set \<Rightarrow> (u64 \<times> layout) set \<Rightarrow> bool" where
  "live_ok footprint grain managed free H \<longleftrightarrow>
     (\<forall>(p, l) \<in> H. layout_ok l \<and> grain l dvd unat p \<and> block_bytes (footprint l) p \<inter> free = {}
        \<and> block_bytes (footprint l) p \<subseteq> managed)
     \<and> pairwise (\<lambda>(p, l) (q, m). block_bytes (footprint l) p \<inter> block_bytes (footprint m) q = {}) H
     \<and> free \<subseteq> managed"

text \<open>The reserved bytes of a block are at least the requested ones, its alignment is at least the requested one; memory a released block gives back is at most
  what it had reserved. A store of the client inside a block it holds leaves the allocator alone.\<close>

locale byte_allocator =
  fixes alloc :: "'s \<Rightarrow> layout \<Rightarrow> (u64 option \<times> 's) option"
    and dealloc :: "'s \<Rightarrow> u64 \<Rightarrow> layout \<Rightarrow> 's"
    and poke :: "'s \<Rightarrow> u64 \<Rightarrow> 'h \<Rightarrow> 's"
    and footprint :: "layout \<Rightarrow> nat"
    and grain :: "layout \<Rightarrow> nat"
    and free :: "'s \<Rightarrow> nat set"
    and limit :: "nat set"
    and invar :: "'s \<Rightarrow> bool"
  assumes footprint_ge: "unat (lay_size l) \<le> footprint l"
    and grain_align: "layout_ok l \<Longrightarrow> unat (lay_align l) dvd grain l"
    and free_limit: "invar s \<Longrightarrow> free s \<subseteq> limit"
    and alloc_total: "invar s \<Longrightarrow> layout_ok l \<Longrightarrow> \<exists>r s'. alloc s l = Some (r, s')"
    and alloc_block: "invar s \<Longrightarrow> layout_ok l \<Longrightarrow> alloc s l = Some (Some p, s') \<Longrightarrow>
      invar s' \<and> grain l dvd unat p \<and> block_bytes (footprint l) p \<subseteq> free s
      \<and> free s' \<subseteq> free s - block_bytes (footprint l) p"
    and alloc_null: "invar s \<Longrightarrow> layout_ok l \<Longrightarrow> alloc s l = Some (None, s') \<Longrightarrow>
      invar s' \<and> free s' = free s"
    and dealloc_block: "invar s \<Longrightarrow> layout_ok l \<Longrightarrow> grain l dvd unat p \<Longrightarrow>
      block_bytes (footprint l) p \<inter> free s = {} \<Longrightarrow> block_bytes (footprint l) p \<subseteq> limit \<Longrightarrow>
      invar (dealloc s p l) \<and> free (dealloc s p l) \<subseteq> free s \<union> block_bytes (footprint l) p"
    and poke_block: "invar s \<Longrightarrow> unat a \<notin> free s \<Longrightarrow> invar (poke s a v) \<and> free (poke s a v) = free s"
begin

lemma step_obtained:
  assumes s: "invar s" and ok: "live_ok footprint grain managed (free s) H" and l: "layout_ok l"
    and a: "alloc s l = Some (Some p, s')"
  shows "invar s' \<and> live_ok footprint grain managed (free s') (insert (p, l) H)"
proof -
  note b = alloc_block [OF s l a]
  have d: "\<forall>(q, m) \<in> H. block_bytes (footprint m) q \<inter> free s = {}" using ok by (auto simp: live_ok_def)
  have e: "\<forall>(q, m) \<in> H. block_bytes (footprint m) q \<inter> block_bytes (footprint l) p = {}" using d b by blast
  have "pairwise (\<lambda>(p, l) (q, m). block_bytes (footprint l) p \<inter> block_bytes (footprint m) q = {}) (insert (p, l) H)"
    using ok e by (auto simp: live_ok_def pairwise_insert Int_commute)
  moreover have "\<forall>(q, m) \<in> insert (p, l) H. layout_ok m \<and> grain m dvd unat q
      \<and> block_bytes (footprint m) q \<inter> free s' = {} \<and> block_bytes (footprint m) q \<subseteq> managed"
    using ok l b by (fastforce simp: live_ok_def)
  moreover have "free s' \<subseteq> managed" using ok b by (auto simp: live_ok_def)
  ultimately show ?thesis using b by (simp add: live_ok_def)
qed

lemma step_released:
  assumes s: "invar s" and ok: "live_ok footprint grain managed (free s) H" and m: "managed \<subseteq> limit" and p: "(p, l) \<in> H"
  shows "invar (dealloc s p l) \<and> live_ok footprint grain managed (free (dealloc s p l)) (H - {(p, l)})"
proof -
  have "layout_ok l" "grain l dvd unat p" "block_bytes (footprint l) p \<inter> free s = {}"
    "block_bytes (footprint l) p \<subseteq> managed" using ok p by (auto simp: live_ok_def)
  note b = dealloc_block [OF s this(1-3)] and sub = this(4)
  have inv: "invar (dealloc s p l)" "free (dealloc s p l) \<subseteq> free s \<union> block_bytes (footprint l) p" using b sub m by auto
  have "\<forall>(q, k) \<in> H - {(p, l)}. block_bytes (footprint k) q \<inter> block_bytes (footprint l) p = {}"
    using ok p unfolding live_ok_def pairwise_def by fast
  then have "\<forall>(q, k) \<in> H - {(p, l)}. block_bytes (footprint k) q \<inter> free (dealloc s p l) = {}"
    using ok inv(2) by (fastforce simp: live_ok_def)
  moreover have "free (dealloc s p l) \<subseteq> managed" using inv(2) sub ok by (auto simp: live_ok_def)
  moreover have "pairwise (\<lambda>(p, l) (q, m). block_bytes (footprint l) p \<inter> block_bytes (footprint m) q = {}) (H - {(p, l)})"
    using ok unfolding live_ok_def by (auto intro: pairwise_subset)
  ultimately show ?thesis using inv(1) ok by (auto simp: live_ok_def)
qed

lemma client_step_ok:
  assumes "client_step alloc dealloc poke (s, H) (s', H')" and "invar s" and "managed \<subseteq> limit"
    and "live_ok footprint grain managed (free s) H"
  shows "invar s' \<and> live_ok footprint grain managed (free s') H'"
  using assms(1)
proof (cases rule: client_step.cases)
  case (stored p l a v)
  then have "unat a \<in> block_bytes (footprint l) p" using footprint_ge [of l] by (auto simp: block_bytes_def)
  then have "unat a \<notin> free s" using stored(3) assms(4) by (auto simp: live_ok_def)
  then show ?thesis using poke_block [OF assms(2)] stored assms(4) by simp
next
  case (obtained l p)
  then show ?thesis using step_obtained [OF assms(2,4)] by simp
next
  case (null l)
  then show ?thesis using alloc_null [OF assms(2) null(2,3)] assms(4) by simp
next
  case (released p l)
  then show ?thesis using step_released [OF assms(2,4,3)] by simp
qed

lemma client_run_ok:
  assumes "(client_step alloc dealloc poke)\<^sup>*\<^sup>* (s, {}) (s', H)" and "invar s"
  shows "invar s' \<and> live_ok footprint grain (free s) (free s') H"
  using assms(1)
proof (induction rule: rtranclp_induct2)
  case refl
  with assms(2) show ?case by (simp add: live_ok_def)
next
  case (step t P u Q)
  then show ?case using client_step_ok [OF step(2)] free_limit [OF assms(2)] by blast
qed

lemma live_blocks_disjoint:
  assumes "(client_step alloc dealloc poke)\<^sup>*\<^sup>* (s, {}) (s', H)" and "invar s"
    and "(p, l) \<in> H" and "(q, m) \<in> H" and "(p, l) \<noteq> (q, m)"
  shows "block_bytes (unat (lay_size l)) p \<inter> block_bytes (unat (lay_size m)) q = {}"
proof -
  have "block_bytes (footprint l) p \<inter> block_bytes (footprint m) q = {}"
    using client_run_ok [OF assms(1,2)] assms(3-5) unfolding live_ok_def pairwise_def by fast
  moreover have "block_bytes (unat (lay_size k)) r \<subseteq> block_bytes (footprint k) r" for k r
    using footprint_ge [of k] by (auto simp: block_bytes_def)
  ultimately show ?thesis by blast
qed

end

section \<open>Bump allocators\<close>

definition BUMP_HEAP_SIZE :: usize where
  "BUMP_HEAP_SIZE = 1024 * 1024"

text \<open>The static heap's address, the \<^verbatim>\<open>next\<close> counter and the buffers passed to the \<^verbatim>\<open>write\<close> system call.\<close>

record bump_allocator =
  heap_start :: usize
  bump_next :: usize
  written :: "u8 list list"

definition bump_alloc :: "bump_allocator \<Rightarrow> layout \<Rightarrow> (u64 option \<times> bump_allocator) option" where
  "bump_alloc b l =
     do {
       let base = (if bump_next b = 0 then heap_start b else bump_next b);
       aligned \<leftarrow> align_up base (lay_align l);
       new_next \<leftarrow> checked_add aligned (lay_size l);
       heap_end \<leftarrow> checked_add (heap_start b) BUMP_HEAP_SIZE;
       if heap_end < new_next then Some (None, b) else Some (Some aligned, b\<lparr>bump_next := new_next\<rparr>)
     }"

definition bump_dealloc :: "bump_allocator \<Rightarrow> u64 \<Rightarrow> layout \<Rightarrow> bump_allocator" where
  "bump_dealloc b p l = b"

text \<open>The service manager's variant prints the address of the heap before the first allocation, and refuses
  to allocate when the address is outside the range the kernel loads programs to.\<close>

definition hex_digit :: "u8 \<Rightarrow> u8" where
  "hex_digit nibble = (if nibble < 10 then of_char CHR ''0'' + nibble else of_char CHR ''a'' + nibble - 10)"

primrec hex_digits :: "nat \<Rightarrow> usize \<Rightarrow> u8 list \<Rightarrow> u8 list" where
  "hex_digits 0 val buf = buf"
| "hex_digits (Suc i) val buf = hex_digits i (drop_bit 4 val) (hex_digit (ucast (val AND 0xF)) # buf)"

definition announce_heap :: "bump_allocator \<Rightarrow> bump_allocator" where
  "announce_heap b =
     (if bump_next b = 0
      then b\<lparr>written := written b @ [map of_char ''[dealduck] alloc start: '', hex_digits 16 (heap_start b) [] @ [10]]\<rparr>
      else b)"

definition dealduck_alloc :: "bump_allocator \<Rightarrow> layout \<Rightarrow> (u64 option \<times> bump_allocator) option" where
  "dealduck_alloc b l =
     (let b1 = announce_heap b in
      if heap_start b1 = 0 \<or> heap_start b1 < 0x10000000 \<or> 0xFFFFFFFF < heap_start b1
      then Some (None, b1\<lparr>written := written b1 @
             [map of_char ''[dealduck] alloc: HEAP addr INVALID (0 or out of range)!'' @ [10]]\<rparr>)
      else bump_alloc b1 l)"

definition bump_base :: "bump_allocator \<Rightarrow> nat" where
  "bump_base b = (if bump_next b = 0 then unat (heap_start b) else unat (bump_next b))"

definition bump_free :: "bump_allocator \<Rightarrow> nat set" where
  "bump_free b = {bump_base b ..< unat (heap_start b) + 2 ^ 20}"

definition bump_ok :: "bump_allocator \<Rightarrow> bool" where
  "bump_ok b \<longleftrightarrow> 0 < unat (heap_start b) \<and> unat (heap_start b) + 2 ^ 20 \<le> 2 ^ 62
     \<and> unat (heap_start b) \<le> bump_base b \<and> bump_base b \<le> unat (heap_start b) + 2 ^ 20"

lemma bump_alloc_spec:
  assumes "bump_ok b" and "layout_ok l"
  shows "\<exists>a. unat (lay_align l) dvd unat a \<and> bump_base b \<le> unat a \<and> unat a < bump_base b + unat (lay_align l)
    \<and> bump_alloc b l = Some (if unat a + unat (lay_size l) \<le> unat (heap_start b) + 2 ^ 20
        then (Some a, b\<lparr>bump_next := a + lay_size l\<rparr>) else (None, b))
    \<and> unat (a + lay_size l) = unat a + unat (lay_size l)"
proof -
  obtain n where n: "n \<le> 62" "lay_align l = 2 ^ n" "unat (lay_align l) = 2 ^ n" "unat (lay_size l) + 2 ^ n \<le> 2 ^ 63"
    using assms(2) by (auto simp: layout_ok_def unat_pow2)
  define base where "base = (if bump_next b = 0 then heap_start b else bump_next b)"
  have ub: "unat base = bump_base b" by (simp add: base_def bump_base_def)
  have le: "unat base \<le> 2 ^ 62" using assms(1) ub by (auto simp: bump_ok_def)
  obtain a where a: "align_up base (2 ^ n) = Some a" "2 ^ n dvd unat a" "unat base \<le> unat a" "unat a < unat base + 2 ^ n"
    using align_up_pow2 [OF n(1), of base] le n(4) by fastforce
  have fit: "unat a + unat (lay_size l) < 2 ^ 64" using a(4) le n(4) by simp
  have hs: "unat (BUMP_HEAP_SIZE) = 2 ^ 20" by (simp add: BUMP_HEAP_SIZE_def)
  have e: "checked_add (heap_start b) BUMP_HEAP_SIZE = Some (heap_start b + BUMP_HEAP_SIZE)"
    "unat (heap_start b + BUMP_HEAP_SIZE) = unat (heap_start b) + 2 ^ 20"
    using assms(1) hs by (auto simp: bump_ok_def checked_add_def unat_add_no_wrap)
  have s: "checked_add a (lay_size l) = Some (a + lay_size l)" "unat (a + lay_size l) = unat a + unat (lay_size l)"
    using fit by (simp_all add: checked_add_def unat_add_no_wrap)
  have "bump_alloc b l = Some (if unat a + unat (lay_size l) \<le> unat (heap_start b) + 2 ^ 20
        then (Some a, b\<lparr>bump_next := a + lay_size l\<rparr>) else (None, b))"
    using a(1) e(1) s(1) by (simp add: bump_alloc_def base_def [symmetric] n(2) word_less_nat_alt e(2) s(2))
  then show ?thesis using a ub n(3) s(2) by auto
qed

lemma bump_alloc_block:
  assumes "bump_ok b" and "layout_ok l" and "bump_alloc b l = Some (Some p, b')"
  shows "bump_ok b' \<and> unat (lay_align l) dvd unat p \<and> block_bytes (unat (lay_size l)) p \<subseteq> bump_free b
    \<and> bump_free b' \<subseteq> bump_free b - block_bytes (unat (lay_size l)) p"
proof -
  obtain a where a: "unat (lay_align l) dvd unat a" "bump_base b \<le> unat a"
    "bump_alloc b l = Some (if unat a + unat (lay_size l) \<le> unat (heap_start b) + 2 ^ 20
        then (Some a, b\<lparr>bump_next := a + lay_size l\<rparr>) else (None, b))" 
    "unat (a + lay_size l) = unat a + unat (lay_size l)"
    using bump_alloc_spec [OF assms(1,2)] by blast
  then have p: "p = a" "b' = b\<lparr>bump_next := a + lay_size l\<rparr>" "unat a + unat (lay_size l) \<le> unat (heap_start b) + 2 ^ 20"
    using assms(3) by (auto split: if_splits)
  have "0 < unat (a + lay_size l)" using a(4) assms(2) by (simp add: layout_ok_def)
  then have "bump_base b' = unat a + unat (lay_size l)" using a(4) p(2) by (auto simp: bump_base_def)
  then show ?thesis using a(1,2) p assms(1) by (auto simp: bump_ok_def bump_free_def block_bytes_def)
qed

lemma bump_alloc_null: "bump_alloc b l = Some (None, b') \<Longrightarrow> b' = b"
  by (auto simp: bump_alloc_def Let_def split: bind_splits if_splits)

interpretation bump: byte_allocator bump_alloc bump_dealloc "\<lambda>b a (v :: unit). b" "\<lambda>l. unat (lay_size l)"
  "\<lambda>l. unat (lay_align l)" bump_free UNIV bump_ok
proof
  show "bump_ok s \<Longrightarrow> layout_ok l \<Longrightarrow> \<exists>r s'. bump_alloc s l = Some (r, s')" for s l
    using bump_alloc_spec by (metis surj_pair)
  show "bump_ok s \<Longrightarrow> layout_ok l \<Longrightarrow> bump_alloc s l = Some (None, s') \<Longrightarrow> bump_ok s' \<and> bump_free s' = bump_free s" for s l s'
    using bump_alloc_null by blast
qed (use bump_alloc_block in \<open>auto simp: bump_dealloc_def\<close>)

lemma announce_heap_simps [simp]:
  "heap_start (announce_heap b) = heap_start b" "bump_next (announce_heap b) = bump_next b"
  "bump_base (announce_heap b) = bump_base b" "bump_free (announce_heap b) = bump_free b"
  "bump_ok (announce_heap b) = bump_ok b"
  by (simp_all add: announce_heap_def bump_base_def bump_free_def bump_ok_def)

lemma written_irrelevant [simp]:
  "bump_free (b\<lparr>written := w\<rparr>) = bump_free b" "bump_ok (b\<lparr>written := w\<rparr>) = bump_ok b"
  by (simp_all add: bump_free_def bump_base_def bump_ok_def)

interpretation dealduck_bump: byte_allocator dealduck_alloc bump_dealloc "\<lambda>b a (v :: unit). b"
  "\<lambda>l. unat (lay_size l)"
  "\<lambda>l. unat (lay_align l)" bump_free UNIV bump_ok
proof
  show "bump_ok s \<Longrightarrow> layout_ok l \<Longrightarrow> \<exists>r s'. dealduck_alloc s l = Some (r, s')" for s l
    using bump.alloc_total [of "announce_heap s" l] by (simp add: dealduck_alloc_def Let_def)
  show "bump_ok s \<Longrightarrow> layout_ok l \<Longrightarrow> dealduck_alloc s l = Some (None, s') \<Longrightarrow> bump_ok s' \<and> bump_free s' = bump_free s" for s l s'
    using bump_alloc_null [of "announce_heap s" l s'] by (auto simp: dealduck_alloc_def Let_def split: if_splits)
  show "bump_ok s \<Longrightarrow> layout_ok l \<Longrightarrow> dealduck_alloc s l = Some (Some p, s') \<Longrightarrow>
      bump_ok s' \<and> unat (lay_align l) dvd unat p \<and> block_bytes (unat (lay_size l)) p \<subseteq> bump_free s
      \<and> bump_free s' \<subseteq> bump_free s - block_bytes (unat (lay_size l)) p" for s l p s'
    using bump_alloc_block [of "announce_heap s" l p s'] by (simp add: dealduck_alloc_def Let_def split: if_splits)
qed (auto simp: bump_dealloc_def)

section \<open>Properties\<close>

text \<open>The bump allocators of the user programs never hand out memory twice. Over every run from a fresh allocator
  whose static heap lies above address zero, held blocks are aligned as requested, inside the heap and pairwise
  disjoint; this holds for the plain allocator and for the service manager's variant that reports on the console.\<close>

lemma bump_blocks_disjoint:
  assumes "0 < unat (heap_start b)" and "unat (heap_start b) + 2 ^ 20 \<le> 2 ^ 62" and "bump_next b = 0"
    and "alloc = bump_alloc \<or> alloc = dealduck_alloc"
    and "(client_step alloc bump_dealloc (\<lambda>b a (v :: unit). b))\<^sup>*\<^sup>* (b, {}) (b', H)"
  shows "(\<forall>(p, l) \<in> H. unat (lay_align l) dvd unat p
       \<and> block_bytes (unat (lay_size l)) p \<subseteq> {unat (heap_start b) ..< unat (heap_start b) + 2 ^ 20})
    \<and> (\<forall>(p, l) \<in> H. \<forall>(q, m) \<in> H. (p, l) \<noteq> (q, m) \<longrightarrow>
         block_bytes (unat (lay_size l)) p \<inter> block_bytes (unat (lay_size m)) q = {})"
proof -
  have i: "bump_ok b" "bump_free b = {unat (heap_start b) ..< unat (heap_start b) + 2 ^ 20}"
    using assms(1-3) by (auto simp: bump_ok_def bump_base_def bump_free_def)
  have "live_ok (\<lambda>l. unat (lay_size l)) (\<lambda>l. unat (lay_align l)) (bump_free b) (bump_free b') H"
    using assms(4,5) bump.client_run_ok [OF _ i(1)] dealduck_bump.client_run_ok [OF _ i(1)] by blast
  then show ?thesis unfolding i(2) live_ok_def pairwise_def by fast
qed

definition demo_bump :: bump_allocator where
  "demo_bump = \<lparr>heap_start = 0x10001000, bump_next = 0, written = []\<rparr>"

end
