(* ===== verification/Heap.thy ===== *)
theory Heap
  imports Alloc
begin

text \<open>
  The kernel heap (\<^verbatim>\<open>hammam/src/mm/heap.rs\<close>): a first-fit allocator over a linked list of holes whose headers sit
  in the free memory itself. The model keeps the headers as functions from addresses; the lock around the allocator
  makes every call one step. The heap provides the byte allocator interface.
\<close>

section \<open>State\<close>

definition HEAP_SIZE :: usize where
  "HEAP_SIZE = 4 * 1024 * 1024"

text \<open>\<^verbatim>\<open>size_of::<Hole>()\<close> and \<^verbatim>\<open>align_of::<Hole>()\<close>: a \<^verbatim>\<open>usize\<close> and an optional raw pointer, which has no niche.\<close>

definition HOLE_SIZE :: usize where
  "HOLE_SIZE = 24"

definition HOLE_ALIGN :: usize where
  "HOLE_ALIGN = 8"

record linked_heap =
  head_next :: "u64 option"
  hole_size :: "u64 \<Rightarrow> usize"
  hole_next :: "u64 \<Rightarrow> u64 option"

datatype hole_ref = HeadHole | HoleAt u64

fun next_of_ref :: "linked_heap \<Rightarrow> hole_ref \<Rightarrow> u64 option" where
  "next_of_ref h HeadHole = head_next h"
| "next_of_ref h (HoleAt a) = hole_next h a"

fun set_next :: "linked_heap \<Rightarrow> hole_ref \<Rightarrow> u64 option \<Rightarrow> linked_heap" where
  "set_next h HeadHole v = h\<lparr>head_next := v\<rparr>"
| "set_next h (HoleAt a) v = h\<lparr>hole_next := (hole_next h)(a := v)\<rparr>"

definition write_hole :: "linked_heap \<Rightarrow> u64 \<Rightarrow> usize \<Rightarrow> u64 option \<Rightarrow> linked_heap" where
  "write_hole h a n nxt = h\<lparr>hole_size := (hole_size h)(a := n), hole_next := (hole_next h)(a := nxt)\<rparr>"

section \<open>Operations\<close>

definition heap_new :: "(u64 \<Rightarrow> usize) \<Rightarrow> (u64 \<Rightarrow> u64 option) \<Rightarrow> linked_heap" where
  "heap_new msize mnext = \<lparr>head_next = None, hole_size = msize, hole_next = mnext\<rparr>"

definition heap_init :: "linked_heap \<Rightarrow> usize \<Rightarrow> usize \<Rightarrow> linked_heap" where
  "heap_init h start_addr n = (write_hole h start_addr n None)\<lparr>head_next := Some start_addr\<rparr>"

text \<open>A hole that is large enough is cut: the rest becomes a hole of its own if a header fits, and is given away otherwise.\<close>

definition take_hole ::
  "linked_heap \<Rightarrow> hole_ref \<Rightarrow> u64 \<Rightarrow> usize \<Rightarrow> usize \<Rightarrow> usize \<Rightarrow> (u64 option \<times> linked_heap) option" where
  "take_hole h prev cur sz aligned_addr required_size =
     (let next_hole = hole_next h cur; remaining_size = hole_size h cur - required_size in
      if HOLE_SIZE \<le> remaining_size then
        do {
          new_hole_addr \<leftarrow> checked_add aligned_addr sz;
          Some (Some aligned_addr, set_next (write_hole h new_hole_addr remaining_size next_hole) prev (Some new_hole_addr))
        }
      else Some (Some aligned_addr, set_next h prev next_hole))"

partial_function (option) alloc_loop ::
  "linked_heap \<Rightarrow> hole_ref \<Rightarrow> usize \<Rightarrow> usize \<Rightarrow> (u64 option \<times> linked_heap) option" where
  "alloc_loop h prev sz align =
     (case next_of_ref h prev of
        None \<Rightarrow> Some (None, h)
      | Some cur \<Rightarrow>
          do {
            aligned_addr \<leftarrow> align_up cur align;
            padding \<leftarrow> checked_sub aligned_addr cur;
            required_size \<leftarrow> checked_add sz padding;
            if required_size \<le> hole_size h cur then take_hole h prev cur sz aligned_addr required_size
            else alloc_loop h (HoleAt cur) sz align
          })"

definition alloc_raw :: "linked_heap \<Rightarrow> usize \<Rightarrow> usize \<Rightarrow> (u64 option \<times> linked_heap) option" where
  "alloc_raw h sz align =
     do {
       let size1 = max sz HOLE_SIZE;
       let align1 = max align HOLE_ALIGN;
       size2 \<leftarrow> align_up size1 align1;
       alloc_loop h HeadHole size2 align1
     }"

definition dealloc_raw :: "linked_heap \<Rightarrow> u64 \<Rightarrow> usize \<Rightarrow> usize \<Rightarrow> linked_heap" where
  "dealloc_raw h ptr sz align = (write_hole h ptr (max sz HOLE_SIZE) (head_next h))\<lparr>head_next := Some ptr\<rparr>"

text \<open>\<^verbatim>\<open>GlobalAlloc\<close> for \<^verbatim>\<open>LockedHeap\<close>; a null pointer is \<open>None\<close>.\<close>

definition locked_heap_init :: "linked_heap \<Rightarrow> usize \<Rightarrow> linked_heap" where
  "locked_heap_init h heap_space = heap_init h heap_space HEAP_SIZE"

definition heap_alloc :: "linked_heap \<Rightarrow> layout \<Rightarrow> (u64 option \<times> linked_heap) option" where
  "heap_alloc h l = alloc_raw h (lay_size l) (lay_align l)"

definition heap_dealloc :: "linked_heap \<Rightarrow> u64 \<Rightarrow> layout \<Rightarrow> linked_heap" where
  "heap_dealloc h ptr l = dealloc_raw h ptr (lay_size l) (lay_align l)"

section \<open>The hole list\<close>

abbreviation holes :: "linked_heap \<Rightarrow> u64 list \<Rightarrow> bool" where
  "holes h hs \<equiv> chain (hole_next h) (head_next h) hs"

definition hole_bytes :: "linked_heap \<Rightarrow> u64 \<Rightarrow> nat set" where
  "hole_bytes h a = {unat a ..< unat a + unat (hole_size h a)}"

definition hole_ok :: "linked_heap \<Rightarrow> u64 \<Rightarrow> bool" where
  "hole_ok h a \<longleftrightarrow> 24 \<le> unat (hole_size h a) \<and> 8 dvd unat a \<and> unat a + unat (hole_size h a) \<le> 2 ^ 62"

definition heap_rel :: "linked_heap \<Rightarrow> u64 list \<Rightarrow> bool" where
  "heap_rel h hs \<longleftrightarrow> holes h hs \<and> (\<forall>a \<in> set hs. hole_ok h a)
     \<and> pairwise (\<lambda>a b. hole_bytes h a \<inter> hole_bytes h b = {}) (set hs)"

definition heap_free :: "linked_heap \<Rightarrow> nat set" where
  "heap_free h = {x. \<exists>hs. holes h hs \<and> (\<exists>a \<in> set hs. x \<in> hole_bytes h a)}"

definition heap_ok :: "linked_heap \<Rightarrow> bool" where
  "heap_ok h \<longleftrightarrow> (\<exists>hs. heap_rel h hs)"

lemma heap_free_eq: "holes h hs \<Longrightarrow> heap_free h = (\<Union>a \<in> set hs. hole_bytes h a)"
  by (auto simp: heap_free_def dest: chain_unique)

lemma heap_okE:
  assumes "heap_ok h"
  obtains hs where "heap_rel h hs" "holes h hs" "heap_free h = (\<Union>a \<in> set hs. hole_bytes h a)"
  using assms by (auto simp: heap_ok_def heap_rel_def heap_free_eq)

primrec ref_after :: "hole_ref \<Rightarrow> u64 list \<Rightarrow> hole_ref" where
  "ref_after r [] = r"
| "ref_after r (u # us) = ref_after (HoleAt u) us"

lemma ref_after_last: "us \<noteq> [] \<Longrightarrow> ref_after r us = HoleAt (last us)"
  by (induction us arbitrary: r) auto

lemma set_next_size [simp]: "hole_size (set_next h r v) = hole_size h"
  by (cases r) auto

text \<open>Replacing one element of the list by a list of at most one fresh hole.\<close>

lemma holes_replace:
  assumes "chain m h0 (us @ c # vs)" and "n \<notin> set us \<union> set vs"
  shows "us = [] \<Longrightarrow> chain (m(n := m c)) (Some n) (n # vs)"
    and "us \<noteq> [] \<Longrightarrow> chain (m(n := m c, last us := Some n)) h0 (us @ n # vs)"
proof -
  have vs: "chain m (m c) vs" using assms(1) by (rule chain_suffix)
  then show "us = [] \<Longrightarrow> chain (m(n := m c)) (Some n) (n # vs)" using assms(2) by simp
  assume "us \<noteq> []"
  then show "chain (m(n := m c, last us := Some n)) h0 (us @ n # vs)"
    using assms chain_distinct [OF assms(1)]
  proof (induction us arbitrary: h0)
    case (Cons u us)
    show ?case
    proof (cases "us = []")
      case True
      have "chain (m(n := m c, u := Some n)) (m c) vs" using Cons.prems vs by (simp del: fun_upd_apply)
      then show ?thesis using True Cons.prems by (simp del: fun_upd_apply add: fun_upd_same fun_upd_other)
    next
      case False
      then have "u \<noteq> last us" "last us \<in> set us" using Cons.prems by auto
      then show ?thesis using Cons False by auto
    qed
  qed simp
qed

definition aligned_at :: "nat \<Rightarrow> u64 \<Rightarrow> u64" where
  "aligned_at n a = (case align_up a (2 ^ n) of None \<Rightarrow> 0 | Some y \<Rightarrow> y)"

definition fits :: "linked_heap \<Rightarrow> usize \<Rightarrow> nat \<Rightarrow> u64 \<Rightarrow> bool" where
  "fits h sz n a \<longleftrightarrow> unat (aligned_at n a) + unat sz \<le> unat a + unat (hole_size h a)"

lemma aligned_at_bounds:
  assumes "unat a \<le> 2 ^ 62" and "n \<le> 62"
  shows "align_up a (2 ^ n) = Some (aligned_at n a)" "2 ^ n dvd unat (aligned_at n a)"
    "unat a \<le> unat (aligned_at n a)" "unat (aligned_at n a) < unat a + 2 ^ n"
proof -
  have "(2 :: nat) ^ n \<le> 2 ^ 62" using assms(2) by (intro power_increasing) auto
  then have "unat a + 2 ^ n < 2 ^ 64" using assms(1) by simp
  from align_up_pow2 [OF assms(2) this] obtain y where y: "align_up a (2 ^ n) = Some y" "2 ^ n dvd unat y"
    "unat a \<le> unat y" "unat y < unat a + 2 ^ n" by blast
  then have "aligned_at n a = y" by (simp add: aligned_at_def)
  with y show "align_up a (2 ^ n) = Some (aligned_at n a)" "2 ^ n dvd unat (aligned_at n a)"
    "unat a \<le> unat (aligned_at n a)" "unat (aligned_at n a) < unat a + 2 ^ n" by simp_all
qed

lemma required_size:
  assumes c: "hole_ok h c" and n: "n \<le> 62" and s: "unat sz + 2 ^ n < 2 ^ 64"
  shows "unat (sz + (aligned_at n c - c)) = unat sz + (unat (aligned_at n c) - unat c)"
    and "c \<le> aligned_at n c" and "unat sz + unat (aligned_at n c - c) < 2 ^ 64"
    and "sz + (aligned_at n c - c) \<le> hole_size h c \<longleftrightarrow> fits h sz n c"
proof -
  have c62: "unat c \<le> 2 ^ 62" using c by (simp add: hole_ok_def)
  note a = aligned_at_bounds [OF c62 n]
  show le: "c \<le> aligned_at n c" using a(3) by (simp add: word_le_nat_alt)
  have pad: "unat (aligned_at n c - c) = unat (aligned_at n c) - unat c" using le by (simp add: unat_sub)
  show req: "unat sz + unat (aligned_at n c - c) < 2 ^ 64" using a(3,4) s pad by linarith
  then show u: "unat (sz + (aligned_at n c - c)) = unat sz + (unat (aligned_at n c) - unat c)"
    using pad by (simp add: unat_add_no_wrap)
  show "sz + (aligned_at n c - c) \<le> hole_size h c \<longleftrightarrow> fits h sz n c"
    using a(3) unfolding word_le_nat_alt u fits_def by linarith
qed

lemma alloc_step:
  assumes c: "hole_ok h c" and n: "n \<le> 62" and s: "unat sz + 2 ^ n < 2 ^ 64" and nx: "next_of_ref h prev = Some c"
  shows "alloc_loop h prev sz (2 ^ n) =
    (if fits h sz n c then take_hole h prev c sz (aligned_at n c) (sz + (aligned_at n c - c))
     else alloc_loop h (HoleAt c) sz (2 ^ n))"
proof -
  have "align_up c (2 ^ n) = Some (aligned_at n c)" using aligned_at_bounds(1) [of c n] c n by (simp add: hole_ok_def)
  moreover have "checked_sub (aligned_at n c) c = Some (aligned_at n c - c)"
    "checked_add sz (aligned_at n c - c) = Some (sz + (aligned_at n c - c))"
    using required_size [OF c n s] by (simp_all add: checked_sub_def checked_add_def)
  ultimately show ?thesis using nx required_size(4) [OF c n s] by (subst alloc_loop.simps) simp
qed

text \<open>The walk is a first-fit search of the list.\<close>

lemma alloc_loop_first_fit:
  assumes "n \<le> 62" and "unat sz + 2 ^ n < 2 ^ 64"
  shows "chain (hole_next h) (next_of_ref h prev) xs \<Longrightarrow> \<forall>a \<in> set xs. hole_ok h a \<Longrightarrow>
    (if \<forall>a \<in> set xs. \<not> fits h sz n a then alloc_loop h prev sz (2 ^ n) = Some (None, h)
     else \<exists>us c vs. xs = us @ c # vs \<and> (\<forall>a \<in> set us. \<not> fits h sz n a) \<and> fits h sz n c
       \<and> alloc_loop h prev sz (2 ^ n)
         = take_hole h (ref_after prev us) c sz (aligned_at n c) (sz + (aligned_at n c - c)))"
proof (induction xs arbitrary: prev)
  case Nil
  then show ?case by (simp add: alloc_loop.simps)
next
  case (Cons x xs)
  have x: "hole_ok h x" "next_of_ref h prev = Some x" "chain (hole_next h) (next_of_ref h (HoleAt x)) xs"
    using Cons.prems by auto
  note st = alloc_step [OF x(1) assms x(2)]
  show ?case
  proof (cases "fits h sz n x")
    case True
    then have "x # xs = [] @ x # xs \<and> (\<forall>a \<in> set []. \<not> fits h sz n a) \<and> fits h sz n x
       \<and> alloc_loop h prev sz (2 ^ n)
         = take_hole h (ref_after prev []) x sz (aligned_at n x) (sz + (aligned_at n x - x))" using st by simp
    then show ?thesis using True by (auto intro: exI [of _ "[]"])
  next
    case False
    note IH = Cons.IH [OF x(3)]
    show ?thesis
    proof (cases "\<forall>a \<in> set xs. \<not> fits h sz n a")
      case True
      then show ?thesis using False IH Cons.prems(2) st by simp
    next
      case nf: False
      then obtain us c vs where "xs = us @ c # vs" "\<forall>a \<in> set us. \<not> fits h sz n a" "fits h sz n c"
        "alloc_loop h (HoleAt x) sz (2 ^ n)
         = take_hole h (ref_after (HoleAt x) us) c sz (aligned_at n c) (sz + (aligned_at n c - c))"
        using IH Cons.prems(2) unfolding if_not_P [OF nf] by auto
      then have "x # xs = (x # us) @ c # vs \<and> (\<forall>a \<in> set (x # us). \<not> fits h sz n a) \<and> fits h sz n c
       \<and> alloc_loop h prev sz (2 ^ n)
         = take_hole h (ref_after prev (x # us)) c sz (aligned_at n c) (sz + (aligned_at n c - c))"
        using False st by simp
      then show ?thesis using nf by (metis list.set_intros(2))
    qed
  qed
qed

section \<open>Cutting a hole\<close>

lemma heap_relD:
  assumes "heap_rel h hs"
  shows "holes h hs" "a \<in> set hs \<Longrightarrow> hole_ok h a"
    "a \<in> set hs \<Longrightarrow> b \<in> set hs \<Longrightarrow> a \<noteq> b \<Longrightarrow> hole_bytes h a \<inter> hole_bytes h b = {}"
  using assms by (auto simp: heap_rel_def pairwise_def)

lemma hole_start: "hole_ok h a \<Longrightarrow> unat a \<in> hole_bytes h a"
  by (auto simp: hole_ok_def hole_bytes_def)

text \<open>A list in which one hole has shrunk or gone is still a list of disjoint holes.\<close>

lemma heap_rel_shrink:
  assumes rel: "heap_rel h (us @ c # vs)" and ch: "holes h' (us @ ns @ vs)"
    and sz: "\<And>a. a \<in> set us \<union> set vs \<Longrightarrow> hole_size h' a = hole_size h a"
    and ns: "\<And>a. a \<in> set ns \<Longrightarrow> hole_ok h' a \<and> hole_bytes h' a \<subseteq> hole_bytes h c" and l: "length ns \<le> 1"
  shows "heap_rel h' (us @ ns @ vs)"
    and "heap_free h' = (heap_free h - hole_bytes h c) \<union> (\<Union>a \<in> set ns. hole_bytes h' a)"
proof -
  have d: "distinct (us @ c # vs)" using heap_relD(1) [OF rel] by (rule chain_distinct)
  have hb: "hole_bytes h' a = hole_bytes h a" if "a \<in> set us \<union> set vs" for a
    using sz [OF that] by (simp add: hole_bytes_def)
  have apart: "hole_bytes h a \<inter> hole_bytes h c = {}" if "a \<in> set us \<union> set vs" for a
    using heap_relD(3) [OF rel, of a c] that d by auto
  have ok: "\<forall>a \<in> set (us @ ns @ vs). hole_ok h' a"
    using heap_relD(2) [OF rel] sz ns by (auto simp: hole_ok_def)
  have "hole_bytes h' a \<inter> hole_bytes h' b = {}"
    if ab: "a \<in> set (us @ ns @ vs)" "b \<in> set (us @ ns @ vs)" "a \<noteq> b" for a b
  proof -
    consider "a \<in> set us \<union> set vs" "b \<in> set us \<union> set vs" | "a \<in> set us \<union> set vs" "b \<in> set ns"
      | "a \<in> set ns" "b \<in> set us \<union> set vs" | "a \<in> set ns" "b \<in> set ns" using ab by auto
    then show ?thesis
    proof cases
      case 1
      then show ?thesis using hb heap_relD(3) [OF rel, of a b] ab(3) by simp
    next
      case 2
      then show ?thesis using hb apart [of a] ns [of b] by blast
    next
      case 3
      then show ?thesis using hb apart [of b] ns [of a] by blast
    next
      case 4
      then show ?thesis using l ab(3) by (cases ns) auto
    qed
  qed
  then show "heap_rel h' (us @ ns @ vs)" using ch ok by (auto simp: heap_rel_def pairwise_def)
  have "heap_free h - hole_bytes h c = (\<Union>a \<in> set us \<union> set vs. hole_bytes h a)"
    unfolding heap_free_eq [OF heap_relD(1) [OF rel]] using apart by fastforce
  then show "heap_free h' = (heap_free h - hole_bytes h c) \<union> (\<Union>a \<in> set ns. hole_bytes h' a)"
    unfolding heap_free_eq [OF ch] using hb by auto
qed

lemma holes_unlink:
  assumes "holes h (us @ c # vs)"
  shows "holes (set_next h (ref_after HeadHole us) (hole_next h c)) (us @ vs)"
proof (cases "us = []")
  case True
  then show ?thesis using assms by simp
next
  case False
  then show ?thesis using chain_unlink [OF assms] by (simp add: ref_after_last)
qed

lemma holes_relink:
  assumes "holes h (us @ c # vs)" and "n \<notin> set us \<union> set vs"
  shows "holes (set_next (write_hole h n k (hole_next h c)) (ref_after HeadHole us) (Some n)) (us @ n # vs)"
proof (cases "us = []")
  case True
  then show ?thesis using holes_replace(1) [OF assms] by (simp add: write_hole_def)
next
  case False
  then show ?thesis using holes_replace(2) [OF assms] by (simp add: ref_after_last write_hole_def)
qed

lemma take_hole_spec:
  assumes rel: "heap_rel h (us @ c # vs)" and n: "3 \<le> n" "n \<le> 62" and s: "unat sz + 2 ^ n < 2 ^ 64"
    and fit: "fits h sz n c" and pos: "0 < unat sz" and dv: "2 ^ n dvd unat sz"
  shows "\<exists>h' hs. take_hole h (ref_after HeadHole us) c sz (aligned_at n c) (sz + (aligned_at n c - c))
      = Some (Some (aligned_at n c), h') \<and> heap_rel h' hs
    \<and> block_bytes (unat sz) (aligned_at n c) \<subseteq> hole_bytes h c
    \<and> heap_free h' \<subseteq> heap_free h - block_bytes (unat sz) (aligned_at n c)"
proof -
  let ?y = "aligned_at n c" and ?req = "sz + (aligned_at n c - c)" and ?p = "ref_after HeadHole us"
  have c: "hole_ok h c" using heap_relD(2) [OF rel] by simp
  then have c62: "unat c \<le> 2 ^ 62" by (simp add: hole_ok_def)
  note a = aligned_at_bounds [OF c62 n(2)]
  note r = required_size [OF c n(2) s]
  have e: "unat ?y + unat sz \<le> unat c + unat (hole_size h c)" "unat c + unat (hole_size h c) \<le> 2 ^ 62"
    using fit c by (simp_all add: fits_def hole_ok_def)
  have inside: "block_bytes (unat sz) ?y \<subseteq> hole_bytes h c" using e(1) a(3) by (auto simp: block_bytes_def hole_bytes_def)
  have rem: "unat (hole_size h c - ?req) = unat c + unat (hole_size h c) - (unat ?y + unat sz)"
    using r(4) fit a(3) e(1) by (simp add: unat_sub r(1))
  show ?thesis
  proof (cases "HOLE_SIZE \<le> hole_size h c - ?req")
    case True
    let ?new = "?y + sz"
    have new: "checked_add ?y sz = Some ?new" "unat ?new = unat ?y + unat sz"
      using e by (simp_all add: checked_add_def unat_add_no_wrap)
    define h' where "h' = set_next (write_hole h ?new (hole_size h c - ?req) (hole_next h c)) ?p (Some ?new)"
    have r24: "24 \<le> unat (hole_size h c - ?req)" using True by (simp add: word_le_nat_alt HOLE_SIZE_def)
    have nc: "unat ?new \<in> hole_bytes h c" "?new \<noteq> c" using new(2) rem r24 a(3) pos by (auto simp: hole_bytes_def)
    have fresh: "?new \<notin> set us \<union> set vs"
    proof
      assume m: "?new \<in> set us \<union> set vs"
      then have "hole_bytes h ?new \<inter> hole_bytes h c = {}" using heap_relD(3) [OF rel, of ?new c] nc(2) by auto
      moreover have "unat ?new \<in> hole_bytes h ?new" using heap_relD(2) [OF rel, of ?new] m hole_start by auto
      ultimately show False using nc(1) by blast
    qed
    have sz': "hole_size h' = (hole_size h)(?new := hole_size h c - ?req)" by (simp add: h'_def write_hole_def)
    have "(8 :: nat) dvd 2 ^ n" using le_imp_power_dvd [OF n(1), of "2 :: nat"] by simp
    then have "8 dvd unat ?new" using a(2) dv new(2) by (metis dvd_add dvd_trans)
    then have okn: "hole_ok h' ?new" using r24 rem new(2) e by (auto simp: hole_ok_def sz')
    have hbn: "hole_bytes h' ?new = {unat ?y + unat sz ..< unat c + unat (hole_size h c)}"
      using new(2) rem e(1) by (auto simp: hole_bytes_def sz')
    have ch: "holes h' (us @ [?new] @ vs)" using holes_relink [OF heap_relD(1) [OF rel] fresh] by (simp add: h'_def)
    have sub: "hole_bytes h' ?new \<subseteq> hole_bytes h c" unfolding hbn using a(3) by (auto simp: hole_bytes_def)
    have "a \<in> set us \<union> set vs \<Longrightarrow> hole_size h' a = hole_size h a" for a using fresh sz' by auto
    note sh = heap_rel_shrink [OF rel ch this] 
    have "heap_rel h' (us @ [?new] @ vs)" "heap_free h' = (heap_free h - hole_bytes h c) \<union> hole_bytes h' ?new"
      using sh okn sub by auto
    moreover have "hole_bytes h' ?new \<inter> block_bytes (unat sz) ?y = {}" unfolding hbn by (auto simp: block_bytes_def)
    moreover have "hole_bytes h c \<subseteq> heap_free h" using heap_free_eq [OF heap_relD(1) [OF rel]] by auto
    moreover have "take_hole h ?p c sz ?y ?req = Some (Some ?y, h')"
      using True new(1) by (simp add: take_hole_def h'_def)
    ultimately show ?thesis using inside sub by blast
  next
    case False
    define h' where "h' = set_next h ?p (hole_next h c)"
    have ch: "holes h' (us @ [] @ vs)" using holes_unlink [OF heap_relD(1) [OF rel]] by (simp add: h'_def)
    have "hole_size h' = hole_size h" by (simp add: h'_def)
    then have "heap_rel h' (us @ [] @ vs)" "heap_free h' = heap_free h - hole_bytes h c"
      using heap_rel_shrink [OF rel ch] by auto
    moreover have "take_hole h ?p c sz ?y ?req = Some (Some ?y, h')"
      using False by (simp add: take_hole_def h'_def)
    ultimately show ?thesis using inside by blast
  qed
qed

section \<open>The heap as a byte allocator\<close>

definition heap_footprint :: "layout \<Rightarrow> nat" where
  "heap_footprint l = max (unat (lay_size l)) 24"

definition rounded_align :: "layout \<Rightarrow> nat" where
  "rounded_align l = max (unat (lay_align l)) 8"

definition rounded_size :: "layout \<Rightarrow> nat" where
  "rounded_size l = (let n = heap_footprint l + rounded_align l - 1 in n - n mod rounded_align l)"

lemma layout_rounding:
  assumes "layout_ok l"
  obtains n sz where "3 \<le> n" "n \<le> 62" "unat sz + 2 ^ n < 2 ^ 64" "rounded_align l = 2 ^ n" "unat sz = rounded_size l"
    "heap_footprint l \<le> unat sz" "2 ^ n dvd unat sz" "unat (lay_align l) dvd 2 ^ n"
    "\<And>h. heap_alloc h l = alloc_loop h HeadHole sz (2 ^ n)"
proof -
  obtain k where k: "k \<le> 62" "lay_align l = 2 ^ k" "unat (lay_align l) = 2 ^ k" "unat (lay_size l) + 2 ^ k \<le> 2 ^ 63"
    using assms by (auto simp: layout_ok_def unat_pow2)
  define n where "n = max k 3"
  have n: "3 \<le> n" "n \<le> 62" using k(1) by (auto simp: n_def)
  have u8: "unat HOLE_ALIGN = 2 ^ 3" "unat HOLE_SIZE = 24" by (simp_all add: HOLE_ALIGN_def HOLE_SIZE_def)
  have mx: "max (2 ^ k) (2 ^ 3) = (2 :: nat) ^ n"
    unfolding n_def by (rule max_of_mono) (simp add: mono_def power_increasing)
  have al: "max (lay_align l) HOLE_ALIGN = 2 ^ n"
    using mx unat_pow2 [of n, where 'a = 64] n(2) by (intro word_unat_eq_iff [THEN iffD2]) (simp add: unat_max k(3) u8(1))
  have fp: "unat (max (lay_size l) HOLE_SIZE) = heap_footprint l" by (simp add: unat_max u8(2) heap_footprint_def)
  have "(2 :: nat) ^ k \<le> 2 ^ 62" using k(1) by (intro power_increasing) auto
  moreover have "(2 :: nat) ^ n \<le> 2 ^ k + 8" unfolding mx [symmetric] by simp
  ultimately have le: "(2 :: nat) ^ k \<le> 2 ^ 62" "(2 :: nat) ^ n \<le> 2 ^ k + 8" .
  have b: "heap_footprint l + 2 ^ n < 2 ^ 63 + 40" using le(2) k(4) by (simp add: heap_footprint_def)
  obtain sz where sz: "align_up (max (lay_size l) HOLE_SIZE) (2 ^ n) = Some sz" "2 ^ n dvd unat sz"
     "heap_footprint l \<le> unat sz" "unat sz < heap_footprint l + 2 ^ n" "unat sz = (heap_footprint l + 2 ^ n - 1) - (heap_footprint l + 2 ^ n - 1) mod 2 ^ n"
    using align_up_pow2 [OF n(2), of "max (lay_size l) HOLE_SIZE"] b fp by fastforce
  have ra: "rounded_align l = 2 ^ n" using mx k(3) by (simp add: rounded_align_def)
  show thesis
  proof (rule that [OF n])
    show "unat sz + 2 ^ n < 2 ^ 64" using sz(4) b le by simp
    show "rounded_align l = 2 ^ n" by (rule ra)
    show "unat sz = rounded_size l" using sz(5) by (simp add: rounded_size_def ra Let_def)
    show "heap_footprint l \<le> unat sz" "2 ^ n dvd unat sz" using sz by simp_all
    show "unat (lay_align l) dvd 2 ^ n" unfolding k(3) by (rule le_imp_power_dvd) (simp add: n_def)
    show "heap_alloc h l = alloc_loop h HeadHole sz (2 ^ n)" for h
      using sz(1) by (simp add: heap_alloc_def alloc_raw_def al)
  qed
qed

lemma heap_alloc_cases:
  assumes rel: "heap_rel h hs" and l: "layout_ok l"
  obtains (null) n sz where "n \<le> 62" "rounded_align l = 2 ^ n" "unat sz = rounded_size l"
      "\<forall>a \<in> set hs. \<not> fits h sz n a" "heap_alloc h l = Some (None, h)"
  | (hole) n sz us c vs h' hs' where "n \<le> 62" "rounded_align l = 2 ^ n" "unat sz = rounded_size l"
      "heap_footprint l \<le> unat sz" "hs = us @ c # vs" "fits h sz n c"
      "heap_alloc h l = Some (Some (aligned_at n c), h')" "heap_rel h' hs'"
      "rounded_align l dvd unat (aligned_at n c)" "block_bytes (unat sz) (aligned_at n c) \<subseteq> hole_bytes h c"
      "heap_free h' \<subseteq> heap_free h - block_bytes (unat sz) (aligned_at n c)"
proof -
  obtain n sz where n: "3 \<le> n" "n \<le> 62" "unat sz + 2 ^ n < 2 ^ 64" and ra: "rounded_align l = 2 ^ n" "unat sz = rounded_size l"
    and fp: "heap_footprint l \<le> unat sz" and dv: "2 ^ n dvd unat sz" "unat (lay_align l) dvd 2 ^ n"
    and run: "\<And>h. heap_alloc h l = alloc_loop h HeadHole sz (2 ^ n)"
    using layout_rounding [OF l] by metis
  have ch: "chain (hole_next h) (next_of_ref h HeadHole) hs" "\<forall>a \<in> set hs. hole_ok h a"
    using heap_relD(1,2) [OF rel] by auto
  note ff = alloc_loop_first_fit [OF n(2,3) ch]
  show thesis
  proof (cases "\<forall>a \<in> set hs. \<not> fits h sz n a")
    case True
    then have "heap_alloc h l = Some (None, h)" using ff run by simp
    then show thesis using null [OF n(2) ra True] by simp
  next
    case False
    then obtain us c vs where u: "hs = us @ c # vs" "fits h sz n c" "heap_alloc h l
         = take_hole h (ref_after HeadHole us) c sz (aligned_at n c) (sz + (aligned_at n c - c))"
      using ff unfolding if_not_P [OF False] run by blast
    have pos: "0 < unat sz" using fp by (simp add: heap_footprint_def)
    obtain h' hs' where t: "heap_alloc h l = Some (Some (aligned_at n c), h')" "heap_rel h' hs'"
      "block_bytes (unat sz) (aligned_at n c) \<subseteq> hole_bytes h c"
      "heap_free h' \<subseteq> heap_free h - block_bytes (unat sz) (aligned_at n c)"
      using take_hole_spec [OF rel [unfolded u(1)] n u(2) pos dv(1)] u(3) by metis
    have "hole_ok h c" using ch(2) u(1) by simp
    then have "2 ^ n dvd unat (aligned_at n c)" using aligned_at_bounds(2) [of c n] n(2) by (simp add: hole_ok_def)
    then show thesis using hole [OF n(2) ra fp u(1,2) t(1,2) _ t(3,4)] ra(1) by simp
  qed
qed

lemma heap_alloc_ok:
  assumes "heap_ok h" and "layout_ok l" and "heap_alloc h l = Some (Some p, h')"
  shows "heap_ok h' \<and> rounded_align l dvd unat p \<and> block_bytes (heap_footprint l) p \<subseteq> heap_free h
    \<and> heap_free h' \<subseteq> heap_free h - block_bytes (heap_footprint l) p"
proof -
  obtain hs where hs: "heap_rel h hs" "holes h hs" "heap_free h = (\<Union>a \<in> set hs. hole_bytes h a)"
    using assms(1) by (rule heap_okE)
  show ?thesis
  proof (cases rule: heap_alloc_cases [OF hs(1) assms(2)])
    case (2 n sz us c vs h1 hs1)
    then have "p = aligned_at n c" "h' = h1" using assms(3) by auto
    moreover have "block_bytes (heap_footprint l) p \<subseteq> block_bytes (unat sz) p" using 2(4) by (auto simp: block_bytes_def)
    moreover have "hole_bytes h c \<subseteq> heap_free h" using hs(3) 2(5) by auto
    ultimately show ?thesis using 2 by (auto simp: heap_ok_def)
  qed (use assms(3) in simp)
qed

lemma heap_push:
  assumes rel: "heap_rel h hs" and n: "24 \<le> unat n" "8 dvd unat p" "unat p + unat n \<le> 2 ^ 62"
    and d: "{unat p ..< unat p + unat n} \<inter> heap_free h = {}"
  shows "heap_rel ((write_hole h p n (head_next h))\<lparr>head_next := Some p\<rparr>) (p # hs)"
    and "heap_free ((write_hole h p n (head_next h))\<lparr>head_next := Some p\<rparr>) = heap_free h \<union> {unat p ..< unat p + unat n}"
proof -
  let ?h = "(write_hole h p n (head_next h))\<lparr>head_next := Some p\<rparr>"
  note free = heap_free_eq [OF heap_relD(1) [OF rel]]
  have fresh: "p \<notin> set hs"
  proof
    assume "p \<in> set hs"
    then have "unat p \<in> heap_free h" using free hole_start heap_relD(2) [OF rel] by blast
    moreover have "unat p \<in> {unat p ..< unat p + unat n}" using n(1) by simp
    ultimately show False using d by blast
  qed
  have ch: "holes ?h (p # hs)" using heap_relD(1) [OF rel] fresh by (simp add: write_hole_def)
  have old: "hole_bytes ?h a = hole_bytes h a" "hole_ok ?h a = hole_ok h a" if "a \<in> set hs" for a
    using that fresh by (auto simp: hole_bytes_def hole_ok_def write_hole_def)
  have new: "hole_bytes ?h p = {unat p ..< unat p + unat n}" "hole_ok ?h p"
    using n by (auto simp: hole_bytes_def hole_ok_def write_hole_def)
  have "pairwise (\<lambda>a b. hole_bytes ?h a \<inter> hole_bytes ?h b = {}) (set hs)"
    using rel old(1) by (auto simp: heap_rel_def pairwise_def)
  moreover have "hole_bytes ?h p \<inter> hole_bytes ?h a = {}" if "a \<in> set hs" for a
    using d that unfolding free new(1) old(1) [OF that] by blast
  ultimately have "pairwise (\<lambda>a b. hole_bytes ?h a \<inter> hole_bytes ?h b = {}) (set (p # hs))"
    by (auto simp: pairwise_insert Int_commute)
  moreover have "\<forall>a \<in> set (p # hs). hole_ok ?h a" using new(2) old(2) heap_relD(2) [OF rel] by auto
  ultimately show "heap_rel ?h (p # hs)" using ch by (simp add: heap_rel_def)
  show "heap_free ?h = heap_free h \<union> {unat p ..< unat p + unat n}"
    unfolding heap_free_eq [OF ch] free using old(1) new(1) by auto
qed

text \<open>A store of a client into memory it holds, at the place where a hole would have its header.\<close>

definition heap_poke :: "linked_heap \<Rightarrow> u64 \<Rightarrow> usize \<times> u64 option \<Rightarrow> linked_heap" where
  "heap_poke h a v = write_hole h a (fst v) (snd v)"

lemma heap_poke_ok:
  assumes "heap_ok h" and "unat a \<notin> heap_free h"
  shows "heap_ok (heap_poke h a v) \<and> heap_free (heap_poke h a v) = heap_free h"
proof -
  obtain hs where hs: "heap_rel h hs" "holes h hs" "heap_free h = (\<Union>a \<in> set hs. hole_bytes h a)"
    using assms(1) by (rule heap_okE)
  have fresh: "a \<notin> set hs" using assms(2) hole_start heap_relD(2) [OF hs(1)] unfolding hs(3) by blast
  have ch: "holes (heap_poke h a v) hs" using hs(2) fresh by (simp add: heap_poke_def write_hole_def)
  have old: "\<forall>b \<in> set hs. hole_bytes (heap_poke h a v) b = hole_bytes h b \<and> hole_ok (heap_poke h a v) b = hole_ok h b"
    using fresh by (auto simp: heap_poke_def write_hole_def hole_bytes_def hole_ok_def)
  then have "heap_rel (heap_poke h a v) hs" using hs(1) ch by (auto simp: heap_rel_def pairwise_def)
  moreover have "heap_free (heap_poke h a v) = heap_free h" unfolding heap_free_eq [OF ch] hs(3) using old by auto
  ultimately show ?thesis by (auto simp: heap_ok_def)
qed

lemma heap_dealloc_ok:
  assumes "heap_ok h" and l: "layout_ok l" and p: "rounded_align l dvd unat p"
    and d: "block_bytes (heap_footprint l) p \<inter> heap_free h = {}" "block_bytes (heap_footprint l) p \<subseteq> {..< 2 ^ 62}"
  shows "heap_ok (heap_dealloc h p l) \<and> heap_free (heap_dealloc h p l) = heap_free h \<union> block_bytes (heap_footprint l) p"
proof -
  obtain hs where hs: "heap_rel h hs" using assms(1) by (rule heap_okE)
  have sz: "unat (max (lay_size l) HOLE_SIZE) = heap_footprint l" by (simp add: unat_max HOLE_SIZE_def heap_footprint_def)
  obtain n where "3 \<le> n" "rounded_align l = 2 ^ n" using layout_rounding [OF l] by metis
  then have "8 dvd rounded_align l" using le_imp_power_dvd [of 3 n "2 :: nat"] by simp
  then have p8: "8 dvd unat p" using p by (rule dvd_trans)
  have pos: "24 \<le> heap_footprint l" by (simp add: heap_footprint_def)
  then have "unat p + heap_footprint l - 1 \<in> block_bytes (heap_footprint l) p" by (simp add: block_bytes_def)
  then have "unat p + heap_footprint l - 1 < 2 ^ 62" using d(2) by blast
  then have e: "unat p + heap_footprint l \<le> 2 ^ 62" by linarith
  show ?thesis using heap_push [OF hs, of "max (lay_size l) HOLE_SIZE" p] pos p8 e d(1)
    by (auto simp: sz heap_ok_def heap_dealloc_def dealloc_raw_def block_bytes_def)
qed

lemma heap_free_limit: "heap_ok h \<Longrightarrow> heap_free h \<subseteq> {..< 2 ^ 62}"
  by (erule heap_okE) (fastforce simp: hole_bytes_def hole_ok_def dest: heap_relD(2))

interpretation heap: byte_allocator heap_alloc heap_dealloc heap_poke heap_footprint rounded_align heap_free
  "{..< 2 ^ 62}" heap_ok
proof
  show "unat (lay_size l) \<le> heap_footprint l" for l by (simp add: heap_footprint_def)
  show "unat (lay_align l) dvd rounded_align l" if "layout_ok l" for l using layout_rounding [OF that] by metis
  show "heap_free s \<subseteq> {..< 2 ^ 62}" if "heap_ok s" for s using that by (rule heap_free_limit)
  show "\<exists>r s'. heap_alloc s l = Some (r, s')" if "heap_ok s" "layout_ok l" for s l
    using that(1) by (rule heap_okE) (metis heap_alloc_cases [OF _ that(2)])
  show "heap_ok s' \<and> heap_free s' = heap_free s" if t: "heap_ok s" "layout_ok l" "heap_alloc s l = Some (None, s')" for s l s'
  proof -
    obtain hs where "heap_rel s hs" using t(1) by (auto simp: heap_ok_def)
    then have "s' = s" using t(2,3) by (cases rule: heap_alloc_cases) auto
    then show ?thesis using t(1) by simp
  qed
qed (use heap_alloc_ok heap_dealloc_ok heap_poke_ok in auto)

lemma heap_init_rel:
  assumes "8 dvd unat start" and "unat start + unat n \<le> 2 ^ 62" and "24 \<le> unat n"
  shows "heap_rel (heap_init h start n) [start]" "heap_free (heap_init h start n) = {unat start ..< unat start + unat n}"
    "hole_size (heap_init h start n) start = n"
proof -
  let ?e = "h\<lparr>head_next := None\<rparr>"
  have e: "heap_rel ?e []" "heap_free ?e = {}" by (auto simp: heap_rel_def heap_free_def)
  have i: "heap_init h start n = (write_hole ?e start n (head_next ?e))\<lparr>head_next := Some start\<rparr>"
    by (simp add: heap_init_def write_hole_def)
  show "heap_rel (heap_init h start n) [start]" "heap_free (heap_init h start n) = {unat start ..< unat start + unat n}"
    using heap_push [OF e(1), of n start] assms e(2) by (auto simp: i)
  show "hole_size (heap_init h start n) start = n" by (simp add: heap_init_def write_hole_def)
qed

lemma heap_init_ok:
  assumes "8 dvd unat start" and "unat start + unat n \<le> 2 ^ 62" and "24 \<le> unat n"
  shows "heap_ok (heap_init h start n) \<and> heap_free (heap_init h start n) = {unat start ..< unat start + unat n}"
  using heap_init_rel [OF assms] by (auto simp: heap_ok_def)

section \<open>Properties\<close>

text \<open> C17: The kernel heap never hands out memory twice. From an initialised heap, over every run of allocations,
  releases of held blocks and arbitrary stores into held blocks, each held block is aligned as requested and lies in
  the heap region, two held blocks share no byte, and the next request of any valid layout returns (a pointer or null).\<close>

theorem heap_blocks_disjoint:
  assumes "8 dvd unat start" and "unat start + 2 ^ 22 \<le> 2 ^ 62"
    and "(client_step heap_alloc heap_dealloc heap_poke)\<^sup>*\<^sup>* (locked_heap_init h start, {}) (h', H)"
  shows "(\<forall>(p, l) \<in> H. unat (lay_align l) dvd unat p
       \<and> block_bytes (unat (lay_size l)) p \<subseteq> {unat start ..< unat start + 2 ^ 22})
    \<and> (\<forall>(p, l) \<in> H. \<forall>(q, m) \<in> H. (p, l) \<noteq> (q, m) \<longrightarrow>
         block_bytes (unat (lay_size l)) p \<inter> block_bytes (unat (lay_size m)) q = {})
    \<and> (\<forall>l. layout_ok l \<longrightarrow> (\<exists>r h''. heap_alloc h' l = Some (r, h'')))"
proof -
  have i: "heap_ok (locked_heap_init h start)" "heap_free (locked_heap_init h start) = {unat start ..< unat start + 2 ^ 22}"
    using heap_init_ok [OF assms(1), of HEAP_SIZE h] assms(2) by (simp_all add: locked_heap_init_def HEAP_SIZE_def)
  note r = heap.client_run_ok [OF assms(3) i(1)]
  have "unat (lay_align l) dvd unat p \<and> block_bytes (unat (lay_size l)) p \<subseteq> {unat start ..< unat start + 2 ^ 22}"
    if "(p, l) \<in> H" for p l
  proof -
    have "layout_ok l" "rounded_align l dvd unat p" "block_bytes (heap_footprint l) p \<subseteq> {unat start ..< unat start + 2 ^ 22}"
      using r that unfolding i(2) live_ok_def by auto
    then show ?thesis using heap.grain_align [of l] heap.footprint_ge [of l] dvd_trans by (fastforce simp: block_bytes_def)
  qed
  moreover have "\<forall>l. layout_ok l \<longrightarrow> (\<exists>r h''. heap_alloc h' l = Some (r, h''))" using heap.alloc_total r by blast
  ultimately show ?thesis using heap.live_blocks_disjoint [OF assms(3) i(1)] by blast
qed

definition demo_layout :: layout where
  "demo_layout = \<lparr>lay_size = 100, lay_align = 16\<rparr>"

definition blank_heap :: linked_heap where
  "blank_heap = heap_new (\<lambda>_. 0) (\<lambda>_. None)"

lemma demo_layout_ok: "layout_ok demo_layout"
proof -
  have "(16 :: u64) = 2 ^ 4" by simp
  then have "\<exists>n \<le> 62. (16 :: u64) = 2 ^ n" by (intro exI [of _ 4]) simp
  then show ?thesis by (simp add: layout_ok_def demo_layout_def)
qed

lemma demo_alloc:
  "heap_alloc (locked_heap_init blank_heap 0x100000) demo_layout
     = Some (Some 0x100000, set_next (write_hole (locked_heap_init blank_heap 0x100000) 0x100070 0x3FFF90 None) HeadHole (Some 0x100070))"
  by (simp add: heap_alloc_def demo_layout_def alloc_raw_def HOLE_SIZE_def HOLE_ALIGN_def align_up_def checked_add_def
      checked_sub_def locked_heap_init_def heap_init_def HEAP_SIZE_def write_hole_def take_hole_def blank_heap_def heap_new_def
      alloc_loop.simps)

theorem heap_blocks_disjoint_witness:
  "\<exists>h'. (client_step heap_alloc heap_dealloc heap_poke)\<^sup>*\<^sup>* (locked_heap_init blank_heap 0x100000, {}) (h', {(0x100000, demo_layout)})
     \<and> block_bytes 100 0x100000 \<subseteq> {0x100000 ..< 0x500000} \<and> (\<exists>r h''. heap_alloc h' demo_layout = Some (r, h''))"
proof -
  obtain h' where a: "heap_alloc (locked_heap_init blank_heap 0x100000) demo_layout = Some (Some 0x100000, h')"
    using demo_alloc by blast
  have run: "(client_step heap_alloc heap_dealloc heap_poke)\<^sup>*\<^sup>* (locked_heap_init blank_heap 0x100000, {}) (h', {(0x100000, demo_layout)})"
    by (intro r_into_rtranclp client_step.obtained demo_layout_ok a)
  show ?thesis using heap_blocks_disjoint [OF _ _ run] run demo_layout_ok by (fastforce simp: demo_layout_def)
qed

text \<open>A request is refused only when it has to be: on a well-formed hole list, \<^verbatim>\<open>alloc\<close> answers null, leaving the heap
  as it is, exactly if no hole has room for the rounded size at any position aligned to the rounded alignment.\<close>

lemma heap_null_iff_no_room:
  assumes "heap_rel h hs" and "layout_ok l"
  shows "heap_alloc h l = Some (None, h) \<longleftrightarrow>
    (\<forall>a \<in> set hs. \<forall>p. rounded_align l dvd p \<and> unat a \<le> p \<longrightarrow> unat a + unat (hole_size h a) < p + rounded_size l)"
proof -
  have up: "unat (aligned_at n a) \<le> p"
    if t: "unat a \<le> 2 ^ 62" "n \<le> 62" "2 ^ n dvd p" "unat a \<le> p" for n a p
  proof (rule ccontr)
    assume "\<not> ?thesis"
    then have lt: "p < unat (aligned_at n a)" by simp
    obtain i j where i: "unat (aligned_at n a) = 2 ^ n * i" "p = 2 ^ n * j"
      using aligned_at_bounds(2) [OF t(1,2)] t(3) by (auto simp: dvd_def)
    then have "j + 1 \<le> i" using lt by simp
    then have "2 ^ n * (j + 1) \<le> 2 ^ n * i" by (rule mult_le_mono2)
    then have "p + 2 ^ n \<le> unat (aligned_at n a)" using i by (simp add: distrib_left)
    then show False using aligned_at_bounds(4) [OF t(1,2)] t(4) by linarith
  qed
  show ?thesis
    using assms
  proof (cases rule: heap_alloc_cases)
    case (null n sz)
    have "unat a + unat (hole_size h a) < p + rounded_size l"
      if "a \<in> set hs" "rounded_align l dvd p" "unat a \<le> p" for a p
    proof -
      have "unat a \<le> 2 ^ 62" using heap_relD(2) [OF assms(1) that(1)] by (simp add: hole_ok_def)
      then have "unat (aligned_at n a) \<le> p" using up null(1,2) that by simp
      moreover have "\<not> fits h sz n a" using null(4) that(1) by simp
      ultimately show ?thesis using null(3) by (simp add: fits_def)
    qed
    then show ?thesis using null(5) by auto
  next
    case (hole n sz us c vs h' hs')
    have c: "c \<in> set hs" "unat c \<le> 2 ^ 62" using heap_relD(2) [OF assms(1), of c] hole(5) by (simp_all add: hole_ok_def)
    have "unat c \<le> unat (aligned_at n c)" using aligned_at_bounds(3) [OF c(2) hole(1)] .
    moreover have "\<not> unat c + unat (hole_size h c) < unat (aligned_at n c) + rounded_size l"
      using hole(3,6) by (simp add: fits_def)
    ultimately show ?thesis using c(1) hole(7,9) by auto
  qed
qed

definition demo_tight :: linked_heap where
  "demo_tight = heap_init blank_heap 0x1008 32"

lemma demo_tight_rel: "heap_rel demo_tight [0x1008]"
  by (simp add: demo_tight_def heap_init_def write_hole_def heap_rel_def hole_ok_def)

text \<open>\<^verbatim>\<open>dealloc\<close> gives back the requested size only, so that the bytes added by rounding are lost: a release after an
  allocation does not restore the free memory unless the size was a multiple of the alignment.\<close>

lemma heap_rounding_is_lost:
  assumes "heap_ok h" and "layout_ok l" and "heap_alloc h l = Some (Some p, h')" and "heap_footprint l < rounded_size l"
  shows "unat p + heap_footprint l \<in> heap_free h" and "unat p + heap_footprint l \<notin> heap_free (heap_dealloc h' p l)"
proof -
  obtain hs where hs: "heap_rel h hs" "heap_free h = (\<Union>a \<in> set hs. hole_bytes h a)"
    using assms(1) by (rule heap_okE)
  obtain n us c vs and sz :: usize where e: "unat sz = rounded_size l" "hs = us @ c # vs" "p = aligned_at n c"
    "block_bytes (unat sz) p \<subseteq> hole_bytes h c" "heap_free h' \<subseteq> heap_free h - block_bytes (unat sz) p"
    using hs(1) assms(2)
  proof (cases rule: heap_alloc_cases)
    case (hole n sz us c vs h1 hs1)
    then have "p = aligned_at n c" "h' = h1" using assms(3) by simp_all
    then show thesis using hole that by metis
  qed (use assms(3) in simp)
  have x: "unat p + heap_footprint l \<in> block_bytes (unat sz) p" using assms(4) e(1) by (simp add: block_bytes_def)
  then show "unat p + heap_footprint l \<in> heap_free h" using e(2,4) hs(2) by auto
  note a = heap_alloc_ok [OF assms(1-3)]
  have "block_bytes (heap_footprint l) p \<inter> heap_free h' = {}" "block_bytes (heap_footprint l) p \<subseteq> {..< 2 ^ 62}"
    using a heap_free_limit [OF assms(1)] by auto
  then have "heap_free (heap_dealloc h' p l) = heap_free h' \<union> block_bytes (heap_footprint l) p"
    using heap_dealloc_ok [of h' l p] a assms(2) by blast
  then show "unat p + heap_footprint l \<notin> heap_free (heap_dealloc h' p l)" using x e(5) by (auto simp: block_bytes_def)
qed

end
