(* ===== verification/Gdt.thy ===== *)
theory Gdt
  imports Mem
begin

text \<open>
  The segment descriptors and the task state segment of \<^verbatim>\<open>hammam/src/arch/x86_64/gdt.rs\<close>. The lemmas decode what the
  processor reads from the table the code builds, at the bit positions of the AMD64 descriptor formats: the base and limit
  of the task state segment come back, and the privilege level of the user segments does not.
\<close>

definition KERNEL_CODE :: u16 where "KERNEL_CODE = 0x08"
definition KERNEL_DATA :: u16 where "KERNEL_DATA = 0x10"
definition USER_CODE :: u16 where "USER_CODE = 0x18 OR 3"
definition USER_DATA :: u16 where "USER_DATA = 0x20 OR 3"
definition TSS_SELECTOR :: u16 where "TSS_SELECTOR = 0x28"

record tss =
  reserved0 :: u32
  rsp0 :: u64
  rsp1 :: u64
  rsp2 :: u64
  reserved1 :: u64
  ist1 :: u64
  ist2 :: u64
  ist3 :: u64
  ist4 :: u64
  ist5 :: u64
  ist6 :: u64
  ist7 :: u64
  reserved2 :: u64
  reserved3 :: u16
  iomap_base :: u16

text \<open>\<^verbatim>\<open>size_of::<Tss>()\<close> of the packed structure: one u32, twelve u64 and two u16.\<close>

definition TSS_SIZE :: nat where
  "TSS_SIZE = 4 + 12 * 8 + 2 * 2"

definition tss_new :: tss where
  "tss_new = \<lparr>reserved0 = 0, rsp0 = 0, rsp1 = 0, rsp2 = 0, reserved1 = 0, ist1 = 0, ist2 = 0, ist3 = 0, ist4 = 0,
     ist5 = 0, ist6 = 0, ist7 = 0, reserved2 = 0, reserved3 = 0, iomap_base = of_nat TSS_SIZE\<rparr>"

definition null_descriptor :: u64 where
  "null_descriptor = 0"

definition code_descriptor :: "u8 \<Rightarrow> u64" where
  "code_descriptor dpl = (let fl = 0xA09B OR push_bit 45 (ucast dpl) in push_bit 40 fl OR 0xFFFF)"

definition data_descriptor :: "u8 \<Rightarrow> u64" where
  "data_descriptor dpl = (let fl = 0xA093 OR push_bit 45 (ucast dpl) in push_bit 40 fl OR 0xFFFF)"

definition tss_descriptor :: "u64 \<Rightarrow> u32 \<Rightarrow> u64 \<times> u64" where
  "tss_descriptor b limit =
     (let base_low = b AND 0xFFFFFF;
          base_high = drop_bit 24 b AND 0xFF;
          low = push_bit 40 0x0089 OR (ucast limit AND 0xFFFF) OR push_bit 16 base_low OR push_bit 56 (base_high AND 0xFF);
          high = drop_bit 32 b AND 0xFFFFFFFF
      in (low, high))"

record gdt =
  table :: "u64 list"
  gdt_tss :: tss

text \<open>The table and the task state segment after \<^verbatim>\<open>init\<close>; the addresses of the two statics are parameters.\<close>

definition gdt_init :: "u64 \<Rightarrow> u64 \<Rightarrow> gdt \<Rightarrow> gdt" where
  "gdt_init int_stack tss_ptr g =
     (let t = (gdt_tss g)\<lparr>iomap_base := of_nat TSS_SIZE, ist1 := int_stack + 8192\<rparr>;
          d = tss_descriptor tss_ptr (of_nat (TSS_SIZE - 1))
      in \<lparr>table = [null_descriptor, code_descriptor 0, data_descriptor 0, code_descriptor 3, data_descriptor 3, fst d, snd d],
          gdt_tss = t\<rparr>)"

text \<open>
  The end of \<^verbatim>\<open>init\<close> loads the processor: the ten bytes of \<^verbatim>\<open>GDT_DESCRIPTOR\<close> for \<^verbatim>\<open>lgdt\<close>, the code selector by the far
  return, the data selectors and the task register.
\<close>

record segment_regs =
  gdtr_limit :: u16
  gdtr_base :: u64
  cs_sel :: u16
  ds_sel :: u16
  es_sel :: u16
  ss_sel :: u16
  task_sel :: u16

definition gdt_descriptor :: "u64 \<Rightarrow> u8 list" where
  "gdt_descriptor gdt_ptr = le_bytes 2 (7 * 8 - 1) @ le_bytes 8 (unat gdt_ptr)"

definition lgdt :: "u8 list \<Rightarrow> segment_regs \<Rightarrow> segment_regs" where
  "lgdt d r = r\<lparr>gdtr_limit := of_nat (le_nat (take 2 d)), gdtr_base := of_nat (le_nat (take 8 (drop 2 d)))\<rparr>"

definition gdt_load :: "u64 \<Rightarrow> segment_regs \<Rightarrow> segment_regs" where
  "gdt_load gdt_ptr r =
     (let r1 = lgdt (gdt_descriptor gdt_ptr) r;
          r2 = r1\<lparr>cs_sel := KERNEL_CODE\<rparr>;
          r3 = r2\<lparr>ds_sel := KERNEL_DATA, es_sel := KERNEL_DATA, ss_sel := KERNEL_DATA\<rparr>
      in r3\<lparr>task_sel := TSS_SELECTOR\<rparr>)"

section \<open>What the processor reads\<close>

definition descriptor_dpl :: "u64 \<Rightarrow> nat" where
  "descriptor_dpl d = unat (drop_bit 45 d AND 3)"

definition descriptor_base :: "u64 \<times> u64 \<Rightarrow> u64" where
  "descriptor_base d = (drop_bit 16 (fst d) AND 0xFFFFFF) OR push_bit 24 (drop_bit 56 (fst d) AND 0xFF) OR push_bit 32 (snd d AND 0xFFFFFFFF)"

lemma bit_consts:
  "(0xFFFFFF :: u64) = mask 24" "(0xFF :: u64) = mask 8" "(0xFFFFFFFF :: u64) = mask 32" "(0xFFFF :: u64) = mask 16"
  by (simp_all add: mask_eq_exp_minus_1)

lemma bit_tss_type: "bit (0x890000000000 :: nat) n \<longleftrightarrow> n = 40 \<or> n = 43 \<or> n = 47" (is ?n)
  "bit (0x890000000000 :: int) n \<longleftrightarrow> n = 40 \<or> n = 43 \<or> n = 47" (is ?i)
proof -
  have "(0x890000000000 :: nat) = push_bit 40 1 OR push_bit 43 1 OR push_bit 47 1"
    "(0x890000000000 :: int) = push_bit 40 1 OR push_bit 43 1 OR push_bit 47 1" by simp_all
  then show ?n ?i by (simp_all only: bit_simps) auto
qed

lemma bit_tss_low:
  "n < 64 \<Longrightarrow> bit (fst (tss_descriptor b limit)) n \<longleftrightarrow> n = 40 \<or> n = 43 \<or> n = 47 \<or> n < 16 \<and> bit limit n
     \<or> 16 \<le> n \<and> n < 40 \<and> bit b (n - 16) \<or> 56 \<le> n \<and> bit b (n - 32)"
  unfolding tss_descriptor_def Let_def fst_conv bit_consts
  by (auto simp: bit_simps bit_tss_type add.commute)

lemma bit_tss_high: "bit (snd (tss_descriptor b limit)) n \<longleftrightarrow> n < 32 \<and> bit b (n + 32)"
  unfolding tss_descriptor_def Let_def snd_conv bit_consts by (auto simp: bit_simps add.commute)

text \<open>Base and limit of the task state segment survive the split over the descriptor's fields.\<close>

lemma tss_base_roundtrip: "descriptor_base (tss_descriptor b limit) = b"
proof (rule bit_word_eqI)
  fix n assume n: "n < LENGTH(64)"
  consider "n < 24" | "24 \<le> n" "n < 32" | "32 \<le> n" by linarith
  then show "bit (descriptor_base (tss_descriptor b limit)) n = bit b n"
  proof cases
    case 1
    then show ?thesis unfolding descriptor_base_def bit_consts by (simp add: bit_simps bit_tss_low bit_tss_high)
  next
    case 2
    then have "n - 24 < 8" by linarith
    then show ?thesis using 2 unfolding descriptor_base_def bit_consts by (simp add: bit_simps bit_tss_low bit_tss_high)
  next
    case 3
    then have "\<not> n - 24 < 8" "n - 32 < 32" "n - 32 < 64" using n by simp_all
    then show ?thesis using 3 n unfolding descriptor_base_def bit_consts by (simp add: bit_simps bit_tss_high)
  qed
qed

lemma tss_limit_roundtrip: "fst (tss_descriptor b limit) AND 0xFFFF = ucast limit AND 0xFFFF"
  unfolding bit_consts by (rule bit_word_eqI) (auto simp: bit_simps bit_tss_low)

text \<open>The level is shifted out of the word: the user segments are the kernel segments.\<close>

lemma user_segments_have_kernel_level:
  "code_descriptor dpl = code_descriptor 0" "data_descriptor dpl = data_descriptor 0"
  "descriptor_dpl (code_descriptor dpl) = 0" "descriptor_dpl (data_descriptor dpl) = 0"
proof -
  have "push_bit 40 (a OR push_bit 45 (ucast dpl)) = push_bit 40 (a :: u64)" for a
    by (rule bit_word_eqI) (auto simp: bit_simps)
  then show c: "code_descriptor dpl = code_descriptor 0" "data_descriptor dpl = data_descriptor 0"
    by (simp_all add: code_descriptor_def data_descriptor_def)
  show "descriptor_dpl (code_descriptor dpl) = 0" "descriptor_dpl (data_descriptor dpl) = 0"
    unfolding c by (simp_all add: descriptor_dpl_def code_descriptor_def data_descriptor_def)
qed

text \<open>
  A 64-bit \<^verbatim>\<open>sysret\<close> loads the code selector from bits 63 to 48 of \<^verbatim>\<open>STAR\<close> plus 16, with privilege level 3. With the value
  the kernel writes there this is the selector of the task state segment, not of the user code segment.
\<close>

definition sysret_code_selector :: "u64 \<Rightarrow> u64" where
  "sysret_code_selector star = (drop_bit 48 star + 16) OR 3"

lemma sysret_selects_tss:
  "sysret_code_selector (push_bit 48 (ucast USER_CODE) OR push_bit 32 (ucast KERNEL_CODE)) = ucast TSS_SELECTOR OR 3"
  by (simp add: sysret_code_selector_def USER_CODE_def KERNEL_CODE_def TSS_SELECTOR_def)

section \<open>The loaded segments\<close>

text \<open>The descriptor of a selector, and the kinds of descriptor the processor accepts in the registers.\<close>

definition selected :: "u64 list \<Rightarrow> u16 \<Rightarrow> u64" where
  "selected t sel = t ! (unat sel div 8)"

definition is_code64 :: "u64 \<Rightarrow> bool" where
  "is_code64 d \<longleftrightarrow> bit d 47 \<and> bit d 44 \<and> bit d 43 \<and> bit d 53 \<and> \<not> bit d 54"

definition is_writable_data :: "u64 \<Rightarrow> bool" where
  "is_writable_data d \<longleftrightarrow> bit d 47 \<and> bit d 44 \<and> \<not> bit d 43 \<and> bit d 41"

definition is_free_tss :: "u64 \<Rightarrow> bool" where
  "is_free_tss d \<longleftrightarrow> bit d 47 \<and> \<not> bit d 44 \<and> bit d 43 \<and> \<not> bit d 42 \<and> \<not> bit d 41 \<and> bit d 40"

lemma gdt_load_regs: "gdt_load gdt_ptr r = \<lparr>gdtr_limit = 55, gdtr_base = gdt_ptr, cs_sel = 8, ds_sel = 16, es_sel = 16, ss_sel = 16, task_sel = 40\<rparr>"
proof -
  have "unat gdt_ptr < 256 ^ 8" using unsigned_less [of gdt_ptr, where 'a = nat] by simp
  then have b: "le_nat (le_bytes 8 (unat gdt_ptr)) = unat gdt_ptr" unfolding le_nat_le_bytes by simp
  have l: "le_nat (le_bytes 2 55) = 55" unfolding le_nat_le_bytes by simp
  show ?thesis
    by (simp add: gdt_load_def lgdt_def gdt_descriptor_def Let_def b l KERNEL_CODE_def KERNEL_DATA_def TSS_SELECTOR_def
        segment_regs.defs del: le_bytes.simps)
qed

lemma segment_kinds:
  "is_code64 (code_descriptor n)" "is_writable_data (data_descriptor n)"
  "is_free_tss (fst (tss_descriptor b limit))"
proof -
  show "is_code64 (code_descriptor n)" unfolding user_segments_have_kernel_level(1) [of n]
    by (simp add: is_code64_def code_descriptor_def bit_numeral_rec)
  show "is_writable_data (data_descriptor n)" unfolding user_segments_have_kernel_level(2) [of n]
    by (simp add: is_writable_data_def data_descriptor_def bit_numeral_rec)
  show "is_free_tss (fst (tss_descriptor b limit))" by (simp add: is_free_tss_def bit_tss_low)
qed

text \<open> C27: The segments are well typed. Whatever the registers held, after \<^verbatim>\<open>init\<close> the processor uses the whole new table, and every
  selector it has loaded lies inside it and has a descriptor of the kind its register needs: \<^verbatim>\<open>cs\<close> a present 64-bit code
  segment of level 0, the data registers writable data segments of level 0, and the task register an available task state segment,
  whose base and limit are those of the kernel's structure, with the interrupt stack as its first entry. The two user selectors
  are code and data segments as well, but of level 0 too.\<close>

theorem loaded_segments_well_typed:
  "let g = gdt_init int_stack tss_ptr g0; r = gdt_load gdt_ptr r0; t = table g in
    gdtr_base r = gdt_ptr \<and> unat (gdtr_limit r) + 1 = 8 * length t
    \<and> (\<forall>sel \<in> {cs_sel r, ds_sel r, es_sel r, ss_sel r, task_sel r + 8, USER_CODE, USER_DATA}. unat (sel AND NOT 7) + 7 \<le> unat (gdtr_limit r))
    \<and> is_code64 (selected t (cs_sel r)) \<and> descriptor_dpl (selected t (cs_sel r)) = 0
    \<and> (\<forall>sel \<in> {ds_sel r, es_sel r, ss_sel r}. is_writable_data (selected t sel) \<and> descriptor_dpl (selected t sel) = 0)
    \<and> is_free_tss (selected t (task_sel r))
    \<and> descriptor_base (selected t (task_sel r), selected t (task_sel r + 8)) = tss_ptr
    \<and> selected t (task_sel r) AND 0xFFFF = 103 \<and> ist1 (gdt_tss g) = int_stack + 8192
    \<and> is_code64 (selected t USER_CODE) \<and> is_writable_data (selected t USER_DATA)
    \<and> descriptor_dpl (selected t USER_CODE) = 0 \<and> descriptor_dpl (selected t USER_DATA) = 0"
proof -
  have "fst (tss_descriptor tss_ptr 103) AND 0xFFFF = 103" unfolding tss_limit_roundtrip by simp
  moreover have "descriptor_base (fst (tss_descriptor tss_ptr 103), snd (tss_descriptor tss_ptr 103)) = tss_ptr"
    by (simp add: tss_base_roundtrip)
  ultimately show ?thesis
    by (simp add: gdt_init_def gdt_load_regs selected_def Let_def segment_kinds user_segments_have_kernel_level(3,4) TSS_SIZE_def
        USER_CODE_def USER_DATA_def)
qed

theorem loaded_segments_well_typed_witness:
  "let g = gdt_init 0x320000 0x310000 \<lparr>table = replicate 7 0, gdt_tss = tss_new\<rparr>;
       r = gdt_load 0x300000 \<lparr>gdtr_limit = 0, gdtr_base = 0, cs_sel = 0, ds_sel = 0, es_sel = 0, ss_sel = 0, task_sel = 0\<rparr>
   in is_code64 (selected (table g) (cs_sel r)) \<and> is_writable_data (selected (table g) (ss_sel r)) \<and> ist1 (gdt_tss g) = 0x322000"
  using loaded_segments_well_typed [of "0x320000" "0x310000" "\<lparr>table = replicate 7 0, gdt_tss = tss_new\<rparr>" "0x300000"
      "\<lparr>gdtr_limit = 0, gdtr_base = 0, cs_sel = 0, ds_sel = 0, es_sel = 0, ss_sel = 0, task_sel = 0\<rparr>"]
  unfolding Let_def by (elim conjE) (intro conjI; simp)

end
