(* ===== verification/Start.thy ===== *)
theory Start
  imports Smp Security Multiboot Heap Gdt
begin

text \<open>
  The entry point of the kernel, \<^verbatim>\<open>_start_multiboot2\<close> of \<^verbatim>\<open>hammam/src/main.rs\<close>: the components of the other theories, called
  in the order of the code on one state of the whole computer, up to the switch into the first process. The panics of
  \<^verbatim>\<open>expect\<close> are values; \<open>None\<close> is a fault, an arithmetic panic or a loop that does not end. The log lines are not part of the model.
\<close>

section \<open>The computer\<close>

text \<open>
  What the kernel is linked with: the addresses of its statics and handlers, and the two embedded programs.
\<close>

record kernel_image =
  kernel_start :: u64
  kernel_end :: u64
  idt_static :: u64
  gdt_static :: u64
  tss_static :: u64
  int_stack :: u64
  heap_space :: u64
  dummy_handler :: u64
  timer_entry :: u64
  entry_addr :: u64
  trampoline_addr :: u64
  INIT_ELF :: "u8 list"
  NET_SERVER_ELF :: "u8 list"

text \<open>
  The state. The interrupt controller and timer are those of \<open>Apic\<close>; the machine, the model registers and the interrupt table they share
  with the rest are kept in the other components, and \<open>platform_of\<close> puts them together.
\<close>

record computer =
  kst :: kernel
  cpu :: cpu_state
  segments :: segment_regs
  GDT :: gdt
  IDT :: "idt_entry list"
  IDTR :: idtr
  pic_writes :: "(u16 \<times> u8) list"
  HEAP_ALLOCATOR :: linked_heap
  devices :: platform

definition platform_of :: "computer \<Rightarrow> platform" where
  "platform_of C = (devices C)\<lparr>pmach := mach (kst C), pmsrs := cpu_msrs (cpu C), pidt := IDT C\<rparr>"

definition with_platform :: "computer \<Rightarrow> platform \<Rightarrow> computer" where
  "with_platform C P =
     C\<lparr>kst := (kst C)\<lparr>mach := pmach P\<rparr>, cpu := (cpu C)\<lparr>cpu_msrs := pmsrs P\<rparr>, IDT := pidt P, devices := P\<rparr>"

section \<open>The entry point\<close>

datatype boot_panic = HeapExhausted | InitramfsRoot | NoInit | StatFailed | ReadFailed | NoProcess process_error

text \<open>Serial port, segments, legacy interrupt controllers, interrupt table and protection bits; \<open>inb\<close> answers the mask registers.\<close>

definition start_hardware :: "kernel_image \<Rightarrow> (u16 \<Rightarrow> u8) \<Rightarrow> computer \<Rightarrow> computer" where
  "start_hardware I inb C =
     (let C1 = C\<lparr>kst := (kst C)\<lparr>uart0 := serial_init (uart0 (kst C))\<rparr>\<rparr>;
          C2 = C1\<lparr>GDT := gdt_init (int_stack I) (tss_static I) (GDT C1), segments := gdt_load (gdt_static I) (segments C1)\<rparr>;
          C3 = C2\<lparr>pic_writes := pic_writes C2 @ pic_remap inb @ pic_disable\<rparr>;
          (t, r) = init_idt (dummy_handler I) (idt_static I) (IDT C3);
          C4 = C3\<lparr>IDT := t, IDTR := r\<rparr>
      in C4\<lparr>cpu := start_protection (cpu C4)\<rparr>)"

text \<open>The page allocator on the boot loader's memory map, the heap, and the vector of three numbers that tests it.\<close>

definition start_memory :: "kernel_image \<Rightarrow> u32 \<Rightarrow> computer \<Rightarrow> ((boot_panic \<times> computer) + computer) option" where
  "start_memory I mbi_ptr C =
     (let K = kst C; v = space (mach K) in
      do {
        a \<leftarrow> init_physical_memory (ram (mach K)) mbi_ptr (kernel_start I) (kernel_end I) (next_of (allocator v));
        (p, h) \<leftarrow> heap_alloc (locked_heap_init (HEAP_ALLOCATOR C) (heap_space I)) \<lparr>lay_size = 12, lay_align = 4\<rparr>;
        let C' = C\<lparr>kst := set_space K (v\<lparr>allocator := a\<rparr>), HEAP_ALLOCATOR := h\<rparr>;
        Some (case p of None \<Rightarrow> Inl (HeapExhausted, C') | Some _ \<Rightarrow> Inr C')
      })"

text \<open>The archive is built, parsed and mounted; the parser has no error, so that its \<^verbatim>\<open>expect\<close> never fires.\<close>

definition mount_initramfs :: "kernel_image \<Rightarrow> (boot_panic + init_vnode vnode_ops \<times> init_vnode vfs_tree) option" where
  "mount_initramfs I =
     do {
       fs \<leftarrow> parse (build_initramfs (INIT_ELF I) (NET_SERVER_ELF I));
       Some (case lookup_path fs ''/'' of Inl _ \<Rightarrow> Inl InitramfsRoot | Inr root_vnode \<Rightarrow> Inr (init_ops fs, mount tree_new ''/'' root_vnode))
     }"

definition load_init :: "'v vnode_ops \<Rightarrow> 'v vfs_tree \<Rightarrow> (boot_panic + u8 list) option" where
  "load_init ops tree =
     (case lookup ops tree ''/init'' of Inl _ \<Rightarrow> Some (Inl NoInit) | Inr init_vnode \<Rightarrow>
       (case vn_stat ops init_vnode of Inl _ \<Rightarrow> Some (Inl StatFailed) | Inr st \<Rightarrow>
         do {
           rd \<leftarrow> vn_read ops init_vnode 0 (unat (st_size st));
           Some (case rd of Inl _ \<Rightarrow> Inl ReadFailed | Inr bs \<Rightarrow> Inr (fill_buffer (unat (st_size st)) bs))
         }))"

definition boot_syscall_init :: "kernel_image \<Rightarrow> computer \<Rightarrow> computer" where
  "boot_syscall_init I C =
     C\<lparr>cpu := (cpu C)\<lparr>cpu_msrs := syscall_init (ucast KERNEL_CODE) (ucast USER_CODE) (entry_addr I) (cpu_msrs (cpu C))\<rparr>\<rparr>"

text \<open>Everything before the timer. \<open>ep\<close> is the ELF parser, \<open>base\<close> the address of the kernel stack the heap gives the first task.\<close>

definition prepare_init ::
  "kernel_image \<Rightarrow> (u8 list \<Rightarrow> elf_file option) \<Rightarrow> (u16 \<Rightarrow> u8) \<Rightarrow> u64 \<Rightarrow> u32 \<Rightarrow> computer
    \<Rightarrow> ((boot_panic \<times> computer) + (init_vnode env \<times> computer)) option" where
  "prepare_init I ep inb base mbi_ptr C =
     do {
       r1 \<leftarrow> start_memory I mbi_ptr (start_hardware I inb C);
       (case r1 of Inl x \<Rightarrow> Some (Inl x) | Inr C1 \<Rightarrow>
         do {
           r2 \<leftarrow> mount_initramfs I;
           (case r2 of Inl e \<Rightarrow> Some (Inl (e, C1)) | Inr (ops, tree) \<Rightarrow>
             do {
               r3 \<leftarrow> load_init ops tree;
               (case r3 of Inl e \<Rightarrow> Some (Inl (e, C1)) | Inr elf_data \<Rightarrow>
                 (let C2 = boot_syscall_init I C1;
                      E = \<lparr>elf_parser = ep, trampoline = trampoline_addr I, VFS_ops = ops, VFS = tree\<rparr>
                  in do {
                    r4 \<leftarrow> create_init E base elf_data (kst C2);
                    Some (case r4 of Inl (e, K) \<Rightarrow> Inl (NoProcess e, C2\<lparr>kst := K\<rparr>) | Inr K \<Rightarrow> Inr (E, C2\<lparr>kst := K\<rparr>))
                  }))
             })
         })
     }"

definition start_multiboot2 ::
  "kernel_image \<Rightarrow> (u8 list \<Rightarrow> elf_file option) \<Rightarrow> (u16 \<Rightarrow> u8) \<Rightarrow> u64 \<Rightarrow> u32 \<Rightarrow> computer
    \<Rightarrow> ((boot_panic \<times> computer) + (init_vnode env \<times> computer)) option" where
  "start_multiboot2 I ep inb base mbi_ptr C =
     do {
       r \<leftarrow> prepare_init I ep inb base mbi_ptr C;
       (case r of Inl x \<Rightarrow> Some (Inl x) | Inr (E, C1) \<Rightarrow>
         do {
           P \<leftarrow> init_timer_only (timer_entry I) (platform_of C1);
           let C2 = with_platform C1 P;
           (to, s) \<leftarrow> start_scheduler (sched (kst C2));
           Some (Inr (E, C2\<lparr>kst := (kst C2)\<lparr>sched := s\<rparr>\<rparr>))
         })
     }"

section \<open>Memory\<close>

text \<open>
  What the boot loader and \<^verbatim>\<open>boot.rs\<close> hand over: tags that follow one another below 4 GiB, entries of positive size that do not wrap,
  disjoint usable regions, a page-aligned kernel image around the boot tables, which are the active tables.
\<close>

definition handed_over :: "kernel_image \<Rightarrow> u32 \<Rightarrow> u64 list \<Rightarrow> computer \<Rightarrow> bool" where
  "handed_over I mbi ps C \<longleftrightarrow> (let m = ram (mach (kst C)); rs = mapped_regions m ps in
     unat mbi + unat (load_u32 m (ucast mbi)) < 2 ^ 32 \<and> unat mbi + 8 < 2 ^ 32
     \<and> tag_chain m (unat mbi + unat (load_u32 m (ucast mbi))) (ucast (mbi + 8)) ps
     \<and> (\<forall>q \<in> set ps. load_u32 m q = 6 \<longrightarrow> 0 < unat (load_u32 m (q + 8)))
     \<and> (\<forall>a \<in> set (concat (map (entry_addrs m) ps)). entry_fits m a)
     \<and> (\<forall>r \<in> set rs. mr_kind r = Usable \<longrightarrow> unat (mr_start r) + 4096 < 2 ^ 64) \<and> (\<forall>r \<in> set rs. unat (mr_end r) \<le> 2 ^ 52)
     \<and> regions_disjoint (kernel_start I) (kernel_end I) {} rs
     \<and> aligned (kernel_start I) 0 \<and> aligned (kernel_end I) 0 \<and> unat (kernel_start I) \<le> 0x21b000 \<and> 0x21e000 \<le> unat (kernel_end I)
     \<and> (\<exists>d memory. space (mach (kst C)) = boot_vm d (buddy_new memory)))"

lemma start_hardware_frame:
  "kst (start_hardware I inb C) = (kst C)\<lparr>uart0 := serial_init (uart0 (kst C))\<rparr>"
  "HEAP_ALLOCATOR (start_hardware I inb C) = HEAP_ALLOCATOR C" "devices (start_hardware I inb C) = devices C"
  "IDT (start_hardware I inb C) = fst (init_idt (dummy_handler I) (idt_static I) (IDT C))"
  "cpu (start_hardware I inb C) = start_protection (cpu C)"
  by (simp_all add: start_hardware_def Let_def split: prod.split)

lemma handed_over_hardware: "handed_over I mbi ps C \<Longrightarrow> handed_over I mbi ps (start_hardware I inb C)"
  by (simp add: handed_over_def start_hardware_frame)

lemma boot_allocator:
  assumes "handed_over I mbi ps C"
  shows "\<exists>a. init_physical_memory (ram (mach (kst C))) mbi (kernel_start I) (kernel_end I) (next_of (allocator (space (mach (kst C))))) = Some a
    \<and> vm_inv ((space (mach (kst C)))\<lparr>allocator := a\<rparr>)
    \<and> (\<forall>x. unat x < 2 ^ 30 \<longrightarrow> page_view ((space (mach (kst C)))\<lparr>allocator := a\<rparr>) x = Some (x, 7))"
proof -
  let ?m = "ram (mach (kst C))" and ?v = "space (mach (kst C))"
  note h = assms [unfolded handed_over_def Let_def]
  obtain d memory where v: "?v = boot_vm d (buddy_new memory)" using h by blast
  obtain regions where p: "parse_multiboot2_memory_map ?m mbi initial_regions = Some (regions, length (mapped_regions ?m ps))"
    "take (length (mapped_regions ?m ps)) regions = mapped_regions ?m ps" using parse_spec [of mbi ?m ps] h by blast
  obtain a where a: "buddy_init (kernel_start I) (kernel_end I) (buddy_new memory) (mapped_regions ?m ps) = Some a" "vm_inv (boot_vm d a)"
    "\<forall>x. unat x < 2 ^ 48 \<longrightarrow> page_view (boot_vm d a) x = (if unat x < 2 ^ 30 then Some (x, 7) else None)"
    using boot_space [of "kernel_start I" "kernel_end I" "mapped_regions ?m ps" memory d] h by blast
  have "?v\<lparr>allocator := a\<rparr> = boot_vm d a" "next_of (allocator ?v) = memory" by (simp_all add: v boot_vm_def buddy_new_def)
  moreover have "init_physical_memory ?m mbi (kernel_start I) (kernel_end I) memory = Some a"
    using p a(1) by (cases "mapped_regions ?m ps") (simp_all add: init_physical_memory_def)
  ultimately show ?thesis using a(2,3) by auto
qed

lemma heap_test:
  assumes "8 dvd unat start" and "unat start + 2 ^ 22 \<le> 2 ^ 62"
  shows "\<exists>p h'. heap_alloc (locked_heap_init h start) \<lparr>lay_size = 12, lay_align = 4\<rparr> = Some (Some p, h') \<and> heap_ok h'"
proof -
  let ?h = "locked_heap_init h start" and ?l = "\<lparr>lay_size = 12, lay_align = 4\<rparr> :: layout"
  have n: "unat HEAP_SIZE = 2 ^ 22" by (simp add: HEAP_SIZE_def)
  have rel: "heap_rel ?h [start]" "hole_size ?h start = HEAP_SIZE"
    using heap_init_rel [of start HEAP_SIZE h] assms n by (simp_all add: locked_heap_init_def)
  have "lay_align ?l = 2 ^ 2" by simp
  then have l: "layout_ok ?l" unfolding layout_ok_def by (intro conjI exI [of _ 2]) simp_all
  have "rounded_align ?l dvd unat start \<and> \<not> unat start + unat (hole_size ?h start) < unat start + rounded_size ?l"
    using assms(1) by (simp add: rounded_align_def rounded_size_def heap_footprint_def rel(2) n)
  then have some: "heap_alloc ?h ?l \<noteq> Some (None, ?h)" unfolding heap_null_iff_no_room [OF rel(1) l] by fastforce
  show ?thesis using rel(1) l
  proof (cases rule: heap_alloc_cases)
    case null
    then show ?thesis using some by blast
  next
    case hole
    then show ?thesis unfolding heap_ok_def by blast
  qed
qed

lemma start_memory_result:
  assumes "handed_over I mbi ps C" and "8 dvd unat (heap_space I)" and "unat (heap_space I) + 2 ^ 22 \<le> 2 ^ 62"
  shows "\<exists>a h. start_memory I mbi C = Some (Inr (C\<lparr>kst := set_space (kst C) ((space (mach (kst C)))\<lparr>allocator := a\<rparr>), HEAP_ALLOCATOR := h\<rparr>))
    \<and> heap_ok h \<and> vm_inv ((space (mach (kst C)))\<lparr>allocator := a\<rparr>)"
proof -
  obtain a where a: "init_physical_memory (ram (mach (kst C))) mbi (kernel_start I) (kernel_end I) (next_of (allocator (space (mach (kst C))))) = Some a"
    "vm_inv ((space (mach (kst C)))\<lparr>allocator := a\<rparr>)" using boot_allocator [OF assms(1)] by blast
  obtain p h where "heap_alloc (locked_heap_init (HEAP_ALLOCATOR C) (heap_space I)) \<lparr>lay_size = 12, lay_align = 4\<rparr> = Some (Some p, h)" "heap_ok h"
    using heap_test [OF assms(2,3)] by blast
  then have "start_memory I mbi C = Some (Inr (C\<lparr>kst := set_space (kst C) ((space (mach (kst C)))\<lparr>allocator := a\<rparr>), HEAP_ALLOCATOR := h\<rparr>)) \<and> heap_ok h"
    using a(1) by (simp add: start_memory_def Let_def)
  then show ?thesis using a(2) by blast
qed

section \<open>The first program\<close>

lemma initramfs_init:
  assumes "length (INIT_ELF I) < 2 ^ 32" and "length (NET_SERVER_ELF I) < 2 ^ 32"
  shows "\<exists>ops tree. mount_initramfs I = Some (Inr (ops, tree)) \<and> load_init ops tree = Some (Inr (INIT_ELF I))"
proof -
  let ?a = "INIT_ELF I" and ?b = "NET_SERVER_ELF I"
  obtain fs rt where fs: "parse (build_initramfs ?a ?b) = Some fs" "lookup_path fs ''/'' = Inr rt"
    and L: "\<forall>(cs, d) \<in> set (boot_files ?a ?b). \<forall>path. components path = cs \<longrightarrow>
         lookup (init_ops fs) (mount tree_new ''/'' rt) path = Inr \<lparr>vn_entry = reg_entry d, vn_path = join cs\<rparr>"
    using archive_lookup [OF boot_files_ok [OF assms]] unfolding build_initramfs_archive by blast
  have c: "components ''/init'' = [''init'']" by (simp add: components_def slash_def)
  have "lookup (init_ops fs) (mount tree_new ''/'' rt) ''/init'' = Inr \<lparr>vn_entry = reg_entry ?a, vn_path = join [''init'']\<rparr>"
    using L c by (simp add: boot_files_def)
  moreover have "unat (of_nat (length ?a) :: u64) = length ?a" using assms(1) by (intro unat_of_nat_small) simp
  ultimately have "load_init (init_ops fs) (mount tree_new ''/'' rt) = Some (Inr ?a)"
    by (simp add: load_init_def init_ops_def init_stat_def init_read_def reg_entry_def slice_def fill_buffer_def)
  moreover have "mount_initramfs I = Some (Inr (init_ops fs, mount tree_new ''/'' rt))" using fs by (simp add: mount_initramfs_def)
  ultimately show ?thesis by blast
qed

text \<open>Process 1, and no other, has its program and its stack in memory, and its task is the only one of the scheduler.\<close>

definition first_process :: "kernel_image \<Rightarrow> elf_file \<Rightarrow> task_ref \<Rightarrow> kernel \<Rightarrow> bool" where
  "first_process I elf t K \<longleftrightarrow> boot_state K \<and> image_of (INIT_ELF I) elf (mach K) \<and> sched_inv (sched K) \<and> held_refs (sched K) = {#t#}
     \<and> user_entry (tasks (sched K) t) = entry_point elf + load_offset_of elf \<and> user_stack (tasks (sched K) t) = 0x08010000
     \<and> stack_words K (rsp (ctxt (tasks (sched K) t))) = trampoline_addr I"

lemma prepare_init_result:
  assumes ho: "handed_over I mbi ps C" and hp: "8 dvd unat (heap_space I)" "unat (heap_space I) + 2 ^ 22 \<le> 2 ^ 62"
    and sz: "length (INIT_ELF I) < 2 ^ 32" "length (NET_SERVER_ELF I) < 2 ^ 32"
    and elf: "ep (INIT_ELF I) = Some elf" "loadable (INIT_ELF I) elf" and base: "8 \<le> kernel_stack_new base"
    and fresh: "sched (kst C) = scheduler_new ts" "PROCESS_TABLE (kst C) = []"
  shows "(\<exists>e C1. prepare_init I ep inb base mbi C = Some (Inl (NoProcess e, C1)) \<and> free_page_set (allocator (space (mach (kst C1)))) = {})
    \<or> (\<exists>E C1. prepare_init I ep inb base mbi C = Some (Inr (E, C1)) \<and> first_process I elf (next_task (kst C)) (kst C1)
        \<and> heap_ok (HEAP_ALLOCATOR C1) \<and> devices C1 = devices C \<and> IDT C1 = IDT (start_hardware I inb C)
        \<and> cpu_msrs (cpu C1) = syscall_init (ucast KERNEL_CODE) (ucast USER_CODE) (entry_addr I) (cpu_msrs (start_protection (cpu C))))"
proof -
  let ?H = "start_hardware I inb C" and ?n = "next_task (kst C)"
  obtain a h where m: "start_memory I mbi ?H = Some (Inr (?H\<lparr>kst := set_space (kst ?H) ((space (mach (kst ?H)))\<lparr>allocator := a\<rparr>), HEAP_ALLOCATOR := h\<rparr>))"
    "heap_ok h" "vm_inv ((space (mach (kst ?H)))\<lparr>allocator := a\<rparr>)"
    using start_memory_result [OF handed_over_hardware [OF ho] hp] by blast
  define C1 where "C1 = ?H\<lparr>kst := set_space (kst ?H) ((space (mach (kst ?H)))\<lparr>allocator := a\<rparr>), HEAP_ALLOCATOR := h\<rparr>"
  obtain ops tree where fs: "mount_initramfs I = Some (Inr (ops, tree))" "load_init ops tree = Some (Inr (INIT_ELF I))"
    using initramfs_init [OF sz] by blast
  let ?C2 = "boot_syscall_init I C1" and ?E = "\<lparr>elf_parser = ep, trampoline = trampoline_addr I, VFS_ops = ops, VFS = tree\<rparr>"
  have run: "prepare_init I ep inb base mbi C = map_option (\<lambda>r. case r of Inl (e, K) \<Rightarrow> Inl (NoProcess e, ?C2\<lparr>kst := K\<rparr>) | Inr K \<Rightarrow> Inr (?E, ?C2\<lparr>kst := K\<rparr>))
      (create_init ?E base (INIT_ELF I) (kst ?C2))"
    using m(1) fs by (simp add: prepare_init_def C1_def [symmetric] Let_def map_option_bind) (simp add: map_option_case split: option.split)
  have k: "sched (kst ?C2) = scheduler_new ts" "next_task (kst ?C2) = ?n" "PROCESS_TABLE (kst ?C2) = []" "vm_inv (space (mach (kst ?C2)))"
    "HEAP_ALLOCATOR ?C2 = h" "devices ?C2 = devices C" "IDT ?C2 = IDT ?H"
    "cpu_msrs (cpu ?C2) = syscall_init (ucast KERNEL_CODE) (ucast USER_CODE) (entry_addr I) (cpu_msrs (start_protection (cpu C)))"
    using fresh m(3) by (simp_all add: boot_syscall_init_def C1_def set_space_def start_hardware_frame)
  have s: "sched_inv (sched (kst ?C2))" "runtime_room (sched (kst ?C2))" "held_refs (sched (kst ?C2)) = {#}"
    unfolding k(1) using sched_inv_new by (simp_all add: runtime_room_def held_refs_def) (simp_all add: scheduler_new_def)
  have "elf_parser ?E (INIT_ELF I) = Some elf" using elf(1) by simp
  from create_init_result [OF this elf(2) base k(4) s] show ?thesis
  proof (elim disjE exE conjE)
    fix e K1 assume "create_init ?E base (INIT_ELF I) (kst ?C2) = Some (Inl (e, K1))" "free_page_set (allocator (space (mach K1))) = {}"
    then show ?thesis unfolding run by simp
  next
    fix K assume K: "create_init ?E base (INIT_ELF I) (kst ?C2) = Some (Inr K)" "image_of (INIT_ELF I) elf (mach K)" "sched_inv (sched K)"
      "held_refs (sched K) = {#next_task (kst ?C2)#}" "user_entry (tasks (sched K) (next_task (kst ?C2))) = entry_point elf + load_offset_of elf"
      "user_stack (tasks (sched K) (next_task (kst ?C2))) = 0x08010000"
      "stack_words K (rsp (ctxt (tasks (sched K) (next_task (kst ?C2))))) = trampoline ?E"
    have "boot_state K" using K(1) k(3) by (rule create_init_boot_state)
    then have "first_process I elf ?n K" using K(2-7) k(2) by (simp add: first_process_def)
    then show ?thesis unfolding run using K(1) k(5-8) m(2) by simp
  qed
qed

section \<open>The timer and the switch\<close>

lemma image_of_keep:
  assumes "image_of dat elf m" "vm_inv (space m')" "ram m' = ram m"
    and "\<forall>x. page_view (space m) x \<noteq> None \<longrightarrow> page_view (space m') x = page_view (space m) x"
  shows "image_of dat elf m'"
proof -
  have r: "read_byte m x = Some b \<Longrightarrow> read_byte m' x = Some b" for x b
    using assms(3,4) by (auto simp: read_byte_def translate_view split: option.splits)
  have p: "map_option snd (page_view (space m) x) = Some f \<Longrightarrow> map_option snd (page_view (space m') x) = Some f" for x f
    using assms(4) by (metis option.simps(3) option.map(1))
  show ?thesis using assms(1,2) r p unfolding image_of_def by blast
qed

lemma first_process_keep:
  assumes "first_process I elf t K" "vm_inv (space m)" "ram m = ram (mach K)"
    and "\<forall>x. page_view (space (mach K)) x \<noteq> None \<longrightarrow> page_view (space m) x = page_view (space (mach K)) x"
  shows "first_process I elf t (K\<lparr>mach := m\<rparr>)"
  using assms image_of_keep [of "INIT_ELF I" elf "mach K" m] by (simp add: first_process_def boot_state_def)

lemma first_process_started:
  assumes "first_process I elf t K"
  shows "start_scheduler (sched K) = Some (t, (sched K)\<lparr>CURRENT_TASK := Some t\<rparr>)"
    "first_process I elf t (K\<lparr>sched := (sched K)\<lparr>CURRENT_TASK := Some t\<rparr>\<rparr>)"
proof -
  have i: "sched_inv (sched K)" "held_refs (sched K) = {#t#}" using assms by (simp_all add: first_process_def)
  have "current (sched K) = Some t"
  proof (cases "current (sched K)")
    case None
    then have "held_refs (sched K) = {#}" using i(1) by (simp add: sched_inv_def held_refs_def)
    then show ?thesis using i(2) by simp
  next
    case (Some c)
    then have "c \<in># held_refs (sched K)" by (simp add: held_refs_def)
    then show ?thesis using Some i(2) by simp
  qed
  then show "start_scheduler (sched K) = Some (t, (sched K)\<lparr>CURRENT_TASK := Some t\<rparr>)" by (simp add: start_scheduler_def)
  show "first_process I elf t (K\<lparr>sched := (sched K)\<lparr>CURRENT_TASK := Some t\<rparr>\<rparr>)"
    using assms by (simp add: first_process_def boot_state_def sched_inv_def held_refs_def)
qed

text \<open>The address of the interrupt controller is not touched before it is used.\<close>

lemma boot_msrs:
  assumes "cpu_msrs d = syscall_init k u en (cpu_msrs (start_protection c))"
  shows "cpu_msrs d 0x1B = cpu_msrs c 0x1B" "rdmsr (cpu_msrs d) MSR_LSTAR = en" "bit (rdmsr (cpu_msrs d) MSR_EFER) 0"
proof -
  have p: "cpu_msrs (start_protection c) 0x1B = cpu_msrs c 0x1B"
    by (simp add: start_protection_def enable_sse_eq enable_smep_smap_eq enable_nx_def set_msr_bit_def init_canary_def
        next_rdrand_def Let_def)
  then show "cpu_msrs d 0x1B = cpu_msrs c 0x1B"
    by (simp add: assms syscall_init_def Let_def wrmsr_def MSR_EFER_def MSR_STAR_def MSR_LSTAR_def MSR_SFMASK_def)
  show "rdmsr (cpu_msrs d) MSR_LSTAR = en" "bit (rdmsr (cpu_msrs d) MSR_EFER) 0"
    by (simp_all add: assms syscall_init_def Let_def rdmsr_wrmsr MSR_EFER_def MSR_STAR_def MSR_LSTAR_def MSR_SFMASK_def EFER_SCE_def bit_simps)
qed


text \<open>An example: a loader that reports the memory from 4 MiB to 128 MiB, and a program of three bytes.\<close>

definition boot_mbi :: "u8 list" where
  "boot_mbi = [56, 0, 0, 0, 0, 0, 0, 0] @ [6, 0, 0, 0, 40, 0, 0, 0, 24, 0, 0, 0, 0, 0, 0, 0]
     @ [0, 0, 0x40, 0, 0, 0, 0, 0, 0, 0, 0xC0, 0x07, 0, 0, 0, 0, 1, 0, 0, 0, 0, 0, 0, 0] @ [0, 0, 0, 0, 8, 0, 0, 0]"

definition demo_image :: kernel_image where
  "demo_image = \<lparr>kernel_start = 0x200000, kernel_end = 0x400000, idt_static = 0x300000, gdt_static = 0x310000, tss_static = 0x310038,
     int_stack = 0x320000, heap_space = 0x330000, dummy_handler = 0x201000, timer_entry = 0x202000, entry_addr = 0x203000,
     trampoline_addr = 0x204000, INIT_ELF = [0x7F, 0x90, 0xC3], NET_SERVER_ELF = []\<rparr>"

definition demo_computer :: computer where
  "demo_computer = \<lparr>kst = demo_kernel\<lparr>mach := \<lparr>space = boot_vm (\<lambda>_. 0) (buddy_new (\<lambda>_. None)), ram = mem_at 0x9000 boot_mbi\<rparr>\<rparr>,
     cpu = \<lparr>cr4 = 0x20, cpu_msrs = (\<lambda>_. (0, 0xFEE00900)), cpuid_ebx = (\<lambda>_. 0), cpuid_ecx = (\<lambda>_. 0), rdrand = (\<lambda>_. 0), rdrand_used = 0, STACK_CANARY = 0\<rparr>,
     segments = \<lparr>gdtr_limit = 23, gdtr_base = 0x21e000, cs_sel = 8, ds_sel = 16, es_sel = 16, ss_sel = 16, task_sel = 0\<rparr>, GDT = \<lparr>table = replicate 7 0, gdt_tss = tss_new\<rparr>, IDT = replicate 256 empty_entry,
     IDTR = \<lparr>idtr_limit = 0, idtr_base = 0\<rparr>, pic_writes = [], HEAP_ALLOCATOR = blank_heap, devices = demo_platform\<rparr>"

lemma demo_handed_over: "handed_over demo_image 0x9000 [0x9008] demo_computer"
proof -
  let ?m = "mem_at 0x9000 boot_mbi"
  have l: "load_u32 ?m 0x9000 = 56" "load_u32 ?m 0x9008 = 6" "load_u32 ?m 0x900C = 40" "load_u32 ?m 0x9010 = 24"
    "load_u64 ?m 0x9018 = 0x400000" "load_u64 ?m 0x9020 = 0x7C00000" "load_u32 ?m 0x9028 = 1" "load_u32 ?m 0x9030 = 0"
    by (simp_all add: load_u32_def load_u64_def load_bytes_def upt_small mem_at_def boot_mbi_def)
  have a: "entry_addrs ?m 0x9008 = [0x9018]" by (simp add: entry_addrs_def l)
  have r: "mapped_regions ?m [0x9008] = [\<lparr>mr_start = 0x400000, mr_end = 0x8000000, mr_kind = Usable\<rparr>]"
    by (simp add: mapped_regions_def a entry_region_def l region_kind_def)
  have "tag_chain ?m 0x9038 0x9008 [0x9008]" by (simp add: padded_size_def l)
  moreover have "entry_fits ?m 0x9018" by (simp add: entry_fits_def l)
  moreover have "ram (mach (kst demo_computer)) = ?m" "\<exists>d memory. space (mach (kst demo_computer)) = boot_vm d (buddy_new memory)"
    by (auto simp: demo_computer_def)
  moreover have "kernel_start demo_image = 0x200000" "kernel_end demo_image = 0x400000" by (simp_all add: demo_image_def)
  ultimately show ?thesis by (simp add: handed_over_def Let_def a r l aligned_def)
qed


end
