(* ===== verification/Dealduck.thy ===== *)
theory Dealduck
  imports Syscall
begin

text \<open>
  The service manager, process 1 (\<^verbatim>\<open>dealduck/src/unit.rs\<close> and \<^verbatim>\<open>dealduck/src/manager.rs\<close>, which \<^verbatim>\<open>userspace/dealduck\<close> repeats),
  running on the kernel of \<^verbatim>\<open>Syscall\<close>. The theory composes both sides of the system call interface and proves what the monitor loop
  can observe. The log lines of \<^verbatim>\<open>println!\<close> are not part of the model.
\<close>

section \<open>Units\<close>

datatype service_state = Stopped | Starting | Running | Failed

datatype restart_policy = No | OnFailure | Always

text \<open>The executable's path is a string of the manager's memory: its address and length.\<close>

record service_unit =
  unit_name :: string
  exec_path :: "u64 \<times> u64"
  unit_state :: service_state
  restart :: restart_policy
  unit_pid :: "u32 option"

definition unit_new :: "string \<Rightarrow> u64 \<times> u64 \<Rightarrow> service_unit" where
  "unit_new nm path = \<lparr>unit_name = nm, exec_path = path, unit_state = Stopped, restart = OnFailure, unit_pid = None\<rparr>"

type_synonym manager = "service_unit list"

definition manager_new :: manager where
  "manager_new = []"

definition register_unit :: "manager \<Rightarrow> string \<Rightarrow> u64 \<times> u64 \<Rightarrow> manager" where
  "register_unit us nm path = us @ [unit_new nm path]"

section \<open>System calls of the manager\<close>

text \<open>The \<^verbatim>\<open>syscall\<close> instruction as its caller sees it: the value returned and the kernel afterwards.\<close>

definition do_syscall :: "'v env \<Rightarrow> u64 \<Rightarrow> u64 \<Rightarrow> u64 \<Rightarrow> u64 \<Rightarrow> kernel \<Rightarrow> (i64 \<times> kernel) option" where
  "do_syscall E stack_base nr a0 a1 K =
     (case syscall_dispatch E stack_base nr a0 a1 0 K of
        Some (Returns v _, K') \<Rightarrow> Some (v, K') | _ \<Rightarrow> None)"

definition spawn :: "'v env \<Rightarrow> u64 \<Rightarrow> u64 \<times> u64 \<Rightarrow> kernel \<Rightarrow> (u32 option \<times> kernel) option" where
  "spawn E stack_base path K =
     do {
       (r, K') \<leftarrow> do_syscall E stack_base 2 (fst path) (snd path) K;
       Some (if sint r < 0 then None else Some (ucast r), K')
     }"

definition waitpid_nonblock :: "'v env \<Rightarrow> u64 \<Rightarrow> u32 \<Rightarrow> kernel \<Rightarrow> (i32 option \<times> kernel) option" where
  "waitpid_nonblock E stack_base p K =
     do {
       (result, K') \<leftarrow> do_syscall E stack_base 3 (ucast p) 1 K;
       Some (if result = 0 then None else Some (ucast result), K')
     }"

primrec start_all :: "'v env \<Rightarrow> u64 \<Rightarrow> manager \<Rightarrow> kernel \<Rightarrow> (manager \<times> kernel) option" where
  "start_all E stack_base [] K = Some ([], K)"
| "start_all E stack_base (u # us) K =
     do {
       (r, K1) \<leftarrow> spawn E stack_base (exec_path u) K;
       let u' = (case r of Some p \<Rightarrow> u\<lparr>unit_state := Running, unit_pid := Some p\<rparr> | None \<Rightarrow> u\<lparr>unit_state := Failed\<rparr>);
       (us', K2) \<leftarrow> start_all E stack_base us K1;
       Some (u' # us', K2)
     }"

text \<open>One unit in the loop of \<^verbatim>\<open>run\<close>.\<close>

definition check_unit :: "'v env \<Rightarrow> u64 \<Rightarrow> service_unit \<Rightarrow> kernel \<Rightarrow> (service_unit \<times> kernel) option" where
  "check_unit E stack_base u K =
     (if unit_state u = Running then
        (case unit_pid u of
           None \<Rightarrow> Some (u, K)
         | Some p \<Rightarrow>
             do {
               (status, K1) \<leftarrow> waitpid_nonblock E stack_base p K;
               if status = Some 0 \<or> (case status of Some s \<Rightarrow> sint s < 0 | None \<Rightarrow> False) then
                 let u1 = u\<lparr>unit_state := Failed\<rparr> in
                 if restart u1 = OnFailure then
                   do {
                     (r, K2) \<leftarrow> spawn E stack_base (exec_path u1) K1;
                     Some (case r of Some new_pid \<Rightarrow> u1\<lparr>unit_state := Running, unit_pid := Some new_pid\<rparr> | None \<Rightarrow> u1, K2)
                   }
                 else Some (u1, K1)
               else Some (u, K1)
             })
      else Some (u, K))"

text \<open>One round of the endless loop: all units, then the yield.\<close>

primrec check_units :: "'v env \<Rightarrow> u64 \<Rightarrow> manager \<Rightarrow> kernel \<Rightarrow> (manager \<times> kernel) option" where
  "check_units E stack_base [] K = Some ([], K)"
| "check_units E stack_base (u # us) K =
     do {
       (u', K1) \<leftarrow> check_unit E stack_base u K;
       (us', K2) \<leftarrow> check_units E stack_base us K1;
       Some (u' # us', K2)
     }"

definition run_round :: "'v env \<Rightarrow> u64 \<Rightarrow> manager \<Rightarrow> kernel \<Rightarrow> (manager \<times> kernel) option" where
  "run_round E stack_base us K =
     do {
       (us', K1) \<leftarrow> check_units E stack_base us K;
       (_, K2) \<leftarrow> do_syscall E stack_base 0 0 0 K1;
       Some (us', K2)
     }"

text \<open>The running system: rounds of the manager, and whatever other processes and the timer do in between.\<close>

inductive system_step :: "'v env \<Rightarrow> manager \<times> kernel \<Rightarrow> manager \<times> kernel \<Rightarrow> bool" for E :: "'v env" where
  step_round: "run_round E stack_base us K = Some (us', K') \<Longrightarrow> system_step E (us, K) (us', K')"
| step_other: "kernel_step E K K' \<Longrightarrow> system_step E (us, K) (us, K')"

section \<open>What the manager can observe\<close>

lemma do_syscall_step: "do_syscall E base nr a0 a1 K = Some (v, K') \<Longrightarrow> kernel_step E K K'"
  by (auto simp: do_syscall_def split: option.splits outcome.splits intro: step_syscall)

lemma spawn_number:
  assumes "spawn E base path K = Some (Some p, K')" and "others_alive K"
  shows "bt_contains_key (PROCESS_TABLE K') p"
proof -
  obtain r where r: "do_syscall E base 2 (fst path) (snd path) K = Some (r, K')" "\<not> sint r < 0" "p = ucast r"
    using assms(1) by (auto simp: spawn_def bind_intros split: if_splits)
  then obtain sw where "sys_exec E base (fst path) (snd path) K = Some (Returns r sw, K')"
    by (auto simp: do_syscall_def syscall_dispatch_def split: option.splits outcome.splits)
  then have "r = ucast (NEXT_PID K) \<and> spawned K K'" using sys_exec_effect r(2) by fastforce
  moreover have "(ucast (ucast (NEXT_PID K) :: i64) :: u32) = NEXT_PID K" by (rule bit_word_eqI) (simp add: bit_simps)
  moreover have "bt_ok (PROCESS_TABLE K)" using assms(2) by (simp add: others_alive_def)
  ultimately show ?thesis using r(3) spawned_table by auto
qed

text \<open>Every running unit is a number of the table.\<close>

definition units_known :: "manager \<times> kernel \<Rightarrow> bool" where
  "units_known s \<longleftrightarrow> (case s of (us, K) \<Rightarrow> others_alive K
     \<and> (\<forall>u \<in> set us. \<forall>p. unit_state u = Running \<longrightarrow> unit_pid u = Some p \<longrightarrow> p \<noteq> 1 \<longrightarrow> bt_contains_key (PROCESS_TABLE K) p))"

lemma units_known_step: "units_known (us, K) \<Longrightarrow> kernel_step E K K' \<Longrightarrow> units_known (us, K')"
  unfolding units_known_def using kernel_step_others_alive kernel_step_keeps_children by fastforce

lemma start_all_known:
  "start_all E base us K = Some (us', K') \<Longrightarrow> others_alive K \<Longrightarrow> units_known (us', K') \<and> (kernel_step E)\<^sup>*\<^sup>* K K'"
proof (induction us arbitrary: us' K)
  case Nil
  then show ?case by (simp add: units_known_def)
next
  case (Cons u us)
  obtain r K1 us1 where sp: "spawn E base (exec_path u) K = Some (r, K1)" "start_all E base us K1 = Some (us1, K')"
    and us': "us' = (case r of Some p \<Rightarrow> u\<lparr>unit_state := Running, unit_pid := Some p\<rparr> | None \<Rightarrow> u\<lparr>unit_state := Failed\<rparr>) # us1"
    using Cons.prems(1) by (auto simp: Let_def bind_intros)
  have k: "kernel_step E K K1" using sp(1) do_syscall_step by (auto simp: spawn_def bind_intros)
  have o1: "others_alive K1" using kernel_step_others_alive [OF k Cons.prems(2)] .
  have IH: "units_known (us1, K')" "(kernel_step E)\<^sup>*\<^sup>* K1 K'" using Cons.IH [OF sp(2) o1] by simp_all
  have keep: "(kernel_step E)\<^sup>*\<^sup>* K1 K2 \<Longrightarrow> p \<noteq> 1 \<Longrightarrow> bt_contains_key (PROCESS_TABLE K1) p \<Longrightarrow> bt_contains_key (PROCESS_TABLE K2) p" for K2 p
    by (induction rule: rtranclp_induct)
      (auto intro: kernel_step_keeps_children kernel_run_others_alive [OF _ o1])
  have "unit_state u' = Running \<longrightarrow> unit_pid u' = Some p \<longrightarrow> p \<noteq> 1 \<longrightarrow> bt_contains_key (PROCESS_TABLE K') p"
    if "u' = (case r of Some p \<Rightarrow> u\<lparr>unit_state := Running, unit_pid := Some p\<rparr> | None \<Rightarrow> u\<lparr>unit_state := Failed\<rparr>)" for u' p
    using that spawn_number [of E base "exec_path u" K _ K1] sp(1) Cons.prems(2) keep [OF IH(2)] by (auto split: option.splits)
  then show ?case using IH us' k by (auto simp: units_known_def)
qed

lemma waitpid_nonblock_running:
  assumes "others_alive K" and "bt_contains_key (PROCESS_TABLE K) p" and "p \<noteq> 1"
  shows "waitpid_nonblock E base p K = Some (None, K)"
proof -
  have id: "(ucast (ucast p :: u64) :: u32) = p" by (rule bit_word_eqI) (simp add: bit_simps)
  have "sys_waitpid (ucast p) 1 K = (0, K)" using sys_waitpid_keeps [OF assms(1), of "ucast p" 1] assms(2,3) by (simp add: id)
  then show ?thesis by (simp add: waitpid_nonblock_def do_syscall_def syscall_dispatch_def)
qed

lemma check_units_same:
  assumes "\<forall>u \<in> set us. unit_pid u \<noteq> Some 1"
  shows "units_known (us, K) \<Longrightarrow> check_units E base us K = Some (us, K)"
  using assms
proof (induction us)
  case (Cons u us)
  have "check_unit E base u K = Some (u, K)"
    using Cons.prems waitpid_nonblock_running [of K _ E base]
    by (cases "unit_pid u") (auto simp: check_unit_def units_known_def)
  then show ?case using Cons by (auto simp: units_known_def)
qed simp

lemma system_step_same:
  assumes pids: "\<forall>u \<in> set us. unit_pid u \<noteq> Some 1" and known: "units_known (us, K)" and st: "system_step E (us, K) s"
  shows "\<exists>K'. s = (us, K') \<and> units_known (us, K')"
  using st
proof (cases rule: system_step.cases)
  case (step_round base us' K')
  then obtain v where "do_syscall E base 0 0 0 K = Some (v, K')" "us' = us"
    using check_units_same [OF pids known, of E base] by (auto simp: run_round_def bind_intros)
  then show ?thesis using step_round units_known_step [OF known] do_syscall_step by blast
next
  case (step_other K')
  then show ?thesis using units_known_step [OF known] by blast
qed



end
