(* ===== verification/Println.thy ===== *)
theory Println
  imports Dealduck Alloc Boot
begin

text \<open>
  How user programs print: the \<^verbatim>\<open>println!\<close> macros of \<^verbatim>\<open>dealduck/src/println.rs\<close> and \<^verbatim>\<open>userspace/net-server/src/main.rs\<close>, which format into a
  block of the bump heap, that of \<^verbatim>\<open>userspace/dealduck/src/println.rs\<close>, which writes each piece itself, and the programs \<^verbatim>\<open>hello\<close> and
  \<^verbatim>\<open>dealduck\<close> up to their loops. A formatted text is the list of pieces \<^verbatim>\<open>core::fmt\<close> passes to \<^verbatim>\<open>write_str\<close>. The theory composes allocator,
  address space, system call and serial port: it proves what arrives on the wire, line by line.
\<close>

section \<open>The macro\<close>

record program =
  pkern :: kernel
  pheap :: bump_allocator

text \<open>The \<^verbatim>\<open>syscall\<close> instruction with three arguments, of a call that returns.\<close>

definition syscall3 :: "'v env \<Rightarrow> u64 \<Rightarrow> u64 \<Rightarrow> u64 \<Rightarrow> u64 \<Rightarrow> u64 \<Rightarrow> kernel \<Rightarrow> (i64 \<times> kernel) option" where
  "syscall3 E stack_base nr a0 a1 a2 K =
     (case syscall_dispatch E stack_base nr a0 a1 a2 K of Some (Returns v _, K') \<Rightarrow> Some (v, K') | _ \<Rightarrow> None)"

text \<open>\<^verbatim>\<open>HeapWriter(ptr, len, cap)\<close>; the length never exceeds the capacity, so that the subtraction does not overflow.\<close>

type_synonym heap_writer = "u64 \<times> nat \<times> nat"

definition write_str :: "heap_writer \<Rightarrow> u8 list \<Rightarrow> machine \<Rightarrow> (bool \<times> heap_writer \<times> machine) option" where
  "write_str w b m =
     (case w of (ptr, pos, cap) \<Rightarrow>
        if cap - pos < length b then Some (False, w, m)
        else do { m' \<leftarrow> write_list m (ptr + of_nat pos) b; Some (True, (ptr, pos + length b, cap), m') })"

text \<open>\<^verbatim>\<open>write_fmt\<close> stops at the first error, which the macro ignores.\<close>

primrec write_fmt :: "heap_writer \<Rightarrow> u8 list list \<Rightarrow> machine \<Rightarrow> (heap_writer \<times> machine) option" where
  "write_fmt w [] m = Some (w, m)"
| "write_fmt w (s # ss) m =
     do { (ok, w', m') \<leftarrow> write_str w s m; if ok then write_fmt w' ss m' else Some (w', m') }"

definition println_layout :: layout where
  "println_layout = \<lparr>lay_size = 256, lay_align = 1\<rparr>"

definition println ::
  "'v env \<Rightarrow> u64 \<Rightarrow> (bump_allocator \<Rightarrow> layout \<Rightarrow> (u64 option \<times> bump_allocator) option) \<Rightarrow> u8 list list \<Rightarrow> program \<Rightarrow> program option" where
  "println E stack_base alloc fmt P =
     do {
       (ptr, h) \<leftarrow> alloc (pheap P) println_layout;
       let P1 = P\<lparr>pheap := h\<rparr>;
       (case ptr of None \<Rightarrow> Some P1 | Some p \<Rightarrow>
         do {
           (w, m) \<leftarrow> write_fmt (p, 0, 256) fmt (mach (pkern P1));
           (let pos = fst (snd w) in
            if pos < 256 then
              do {
                m' \<leftarrow> write_byte m (p + of_nat pos) 10;
                (_, K) \<leftarrow> syscall3 E stack_base 1 1 p (of_nat (pos + 1)) ((pkern P1)\<lparr>mach := m'\<rparr>);
                Some (P1\<lparr>pkern := K\<rparr>)
              }
            else Some (P1\<lparr>pkern := (pkern P1)\<lparr>mach := m\<rparr>\<rparr>))
         })
     }"

text \<open>The two programs that use it; the announcements of the manager's allocator are in its state.\<close>

definition net_alloc :: "bump_allocator \<Rightarrow> layout \<Rightarrow> (u64 option \<times> bump_allocator) option" where
  "net_alloc b l =
     do {
       let base = (if bump_next b = 0 then heap_start b else bump_next b);
       aligned \<leftarrow> align_up base (lay_align l);
       new_next \<leftarrow> checked_add aligned (lay_size l);
       heap_end \<leftarrow> checked_add (heap_start b) BUMP_HEAP_SIZE;
       if heap_end < new_next then Some (None, b) else Some (Some aligned, b\<lparr>bump_next := new_next\<rparr>)
     }"

definition net_println :: "'v env \<Rightarrow> u64 \<Rightarrow> u8 list list \<Rightarrow> program \<Rightarrow> program option" where
  "net_println E stack_base = println E stack_base net_alloc"

definition dealduck_println :: "'v env \<Rightarrow> u64 \<Rightarrow> u8 list list \<Rightarrow> program \<Rightarrow> program option" where
  "dealduck_println E stack_base = println E stack_base dealduck_alloc"

text \<open>The other service manager passes each piece, which lies somewhere in its memory, to the kernel.\<close>

definition serial_write_str :: "'v env \<Rightarrow> u64 \<Rightarrow> u64 \<times> u64 \<Rightarrow> kernel \<Rightarrow> (bool \<times> kernel) option" where
  "serial_write_str E stack_base buf K =
     do { (ret, K') \<leftarrow> syscall3 E stack_base 1 1 (fst buf) (snd buf) K; Some (\<not> sint ret < 0, K') }"

primrec user_print :: "'v env \<Rightarrow> u64 \<Rightarrow> (u64 \<times> u64) list \<Rightarrow> kernel \<Rightarrow> kernel option" where
  "user_print E stack_base [] K = Some K"
| "user_print E stack_base (b # bs) K =
     do { (ok, K') \<leftarrow> serial_write_str E stack_base b K; if ok then user_print E stack_base bs K' else Some K' }"

definition user_println :: "'v env \<Rightarrow> u64 \<Rightarrow> u64 \<Rightarrow> (u64 \<times> u64) list \<Rightarrow> kernel \<Rightarrow> kernel option" where
  "user_println E stack_base newline fmt K =
     do { K' \<leftarrow> user_print E stack_base fmt K; user_print E stack_base [(newline, 1)] K' }"

text \<open>The decimal digits that \<^verbatim>\<open>core::fmt\<close> passes on for a number.\<close>

fun dec :: "nat \<Rightarrow> u8 list" where
  "dec n = (if n < 10 then [48 + of_nat n] else dec (n div 10) @ [48 + of_nat (n mod 10)])"

declare dec.simps [simp del]

lemma dec_digits: "\<forall>d \<in> set (dec n). 48 \<le> d \<and> d \<le> 57"
proof (induction n rule: dec.induct)
  case (1 n)
  have "48 \<le> (48 + of_nat k :: u8) \<and> (48 + of_nat k :: u8) \<le> 57" if "k < 10" for k
    using that by (simp add: word_le_nat_alt unat_add_no_wrap unat_of_nat_small)
  then show ?case using 1 by (subst dec.simps) auto
qed

section \<open>Programs\<close>

text \<open>\<^verbatim>\<open>hello\<close>: the message, then \<^verbatim>\<open>exit(0)\<close>, which does not come back.\<close>

definition hello_start :: "'v env \<Rightarrow> u64 \<Rightarrow> u64 \<Rightarrow> kernel \<Rightarrow> (outcome \<times> kernel) option" where
  "hello_start E stack_base msg K =
     do { (_, K1) \<leftarrow> syscall3 E stack_base 1 1 msg 21 K; syscall_dispatch E stack_base 60 0 0 0 K1 }"

text \<open>\<^verbatim>\<open>start_all\<close> of the service manager with the lines it prints.\<close>

primrec duck_start_all :: "'v env \<Rightarrow> u64 \<Rightarrow> manager \<Rightarrow> program \<Rightarrow> (manager \<times> program) option" where
  "duck_start_all E stack_base [] P = Some ([], P)"
| "duck_start_all E stack_base (u # us) P =
     do {
       (r, K) \<leftarrow> spawn E stack_base (exec_path u) (pkern P);
       (u', P1) \<leftarrow>
         (case r of
            Some p \<Rightarrow> do {
              P1 \<leftarrow> dealduck_println E stack_base
                     [bytes ''[dealduck] started '', bytes (unit_name u), bytes '' (pid='', dec (unat p), bytes '')''] (P\<lparr>pkern := K\<rparr>);
              Some (u\<lparr>unit_state := Running, unit_pid := Some p\<rparr>, P1) }
          | None \<Rightarrow> do {
              P1 \<leftarrow> dealduck_println E stack_base [bytes ''[dealduck] FAILED to start '', bytes (unit_name u)] (P\<lparr>pkern := K\<rparr>);
              Some (u\<lparr>unit_state := Failed\<rparr>, P1) });
       (us', P2) \<leftarrow> duck_start_all E stack_base us P1;
       Some (u' # us', P2)
     }"

text \<open>The service manager up to its loop: three messages at the given addresses, its lines, one service.\<close>

definition dealduck_start ::
  "'v env \<Rightarrow> u64 \<Rightarrow> u64 \<times> u64 \<times> u64 \<Rightarrow> u64 \<times> u64 \<Rightarrow> program \<Rightarrow> (manager \<times> program) option" where
  "dealduck_start E base msgs path P =
     do {
       (_, K1) \<leftarrow> syscall3 E base 1 1 (fst msgs) 26 (pkern P);
       (_, K2) \<leftarrow> syscall3 E base 1 1 (fst (snd msgs)) 27 K1;
       (_, K3) \<leftarrow> syscall3 E base 1 1 (snd (snd msgs)) 42 K2;
       P1 \<leftarrow> dealduck_println E base [bytes ''[dealduck] PINDOS service manager starting...''] (P\<lparr>pkern := K3\<rparr>);
       P2 \<leftarrow> dealduck_println E base [bytes ''[dealduck] PID 1''] P1;
       let us = register_unit manager_new ''net-server'' path;
       P3 \<leftarrow> dealduck_println E base [bytes ''[dealduck] starting services...''] P2;
       (us', P4) \<leftarrow> duck_start_all E base us P3;
       P5 \<leftarrow> dealduck_println E base [bytes ''[dealduck] all services started, entering monitor loop''] P4;
       Some (us', P5)
     }"

primrec printlns :: "'v env \<Rightarrow> u64 \<Rightarrow> u8 list list list \<Rightarrow> program \<Rightarrow> program option" where
  "printlns E stack_base [] P = Some P"
| "printlns E stack_base (l # ls) P = do { P' \<leftarrow> net_println E stack_base l P; printlns E stack_base ls P' }"

section \<open>What is formatted\<close>

text \<open>The pieces that fit one after the other.\<close>

fun accepted :: "nat \<Rightarrow> u8 list list \<Rightarrow> u8 list list" where
  "accepted n [] = []"
| "accepted n (s # ss) = (if n < length s then [] else s # accepted (n - length s) ss)"

definition line_bytes :: "u8 list list \<Rightarrow> u8 list" where
  "line_bytes fmt = (let t = concat (accepted 256 fmt) in if length t < 256 then write_prefix @ t @ [10] else [])"

lemma length_accepted: "length (concat (accepted n fmt)) \<le> n"
  by (induction n fmt rule: accepted.induct) auto

definition holds :: "machine \<Rightarrow> page_map \<Rightarrow> u64 \<Rightarrow> u8 list \<Rightarrow> bool" where
  "holds m F p bs \<longleftrightarrow> (\<forall>i < length bs. vmem m F (p + of_nat i) = Some (bs ! i))"

definition block_mapped :: "page_map \<Rightarrow> u64 \<Rightarrow> nat \<Rightarrow> bool" where
  "block_mapped F p n \<longleftrightarrow> (\<forall>x. unat p \<le> unat x \<and> unat x < unat p + n \<longrightarrow> F (page_no x) \<noteq> None)"

lemma unat_offset: "unat p + n \<le> 2 ^ 47 \<Longrightarrow> i \<le> n \<Longrightarrow> unat (p + of_nat i :: u64) = unat p + i"
proof -
  assume a: "unat p + n \<le> 2 ^ 47" "i \<le> n"
  then have "unat (of_nat i :: u64) = i" by (intro unat_of_nat_small) simp
  then show ?thesis using a by (simp add: unat_add_no_wrap)
qed

lemma append_bytes:
  assumes L: "loaded (space m) F" and b: "unat p + n \<le> 2 ^ 47" "block_mapped F p n" and h: "holds m F p buf" and fit: "length buf + length bs \<le> n"
  shows "\<exists>m'. write_list m (p + of_nat (length buf)) bs = Some m' \<and> space m' = space m \<and> holds m' F p (buf @ bs)"
proof -
  let ?a = "p + of_nat (length buf) :: u64"
  have u: "unat ?a = unat p + length buf" by (rule unat_offset [OF b(1)]) (use fit in simp)
  have r: "F (page_no x) \<noteq> None" if "unat ?a \<le> unat x" "unat x < unat ?a + length bs" for x
    using b(2) that fit unfolding u block_mapped_def by auto
  obtain m' where m': "write_list m ?a bs = Some m'" "space m' = space m"
    "\<And>x. vmem m' F x = (if unat ?a \<le> unat x \<and> unat x < unat ?a + length bs then Some (bs ! (unat x - unat ?a)) else vmem m F x)"
  proof -
    have "unat ?a + length bs \<le> 2 ^ 48" using u b(1) fit by simp
    then show ?thesis using write_list_spec [OF L, of ?a bs] r that by blast
  qed
  have "vmem m' F (p + of_nat i) = Some ((buf @ bs) ! i)" if "i < length (buf @ bs)" for i
  proof -
    have "unat (p + of_nat i :: u64) = unat p + i" by (rule unat_offset [OF b(1)]) (use that fit in simp)
    then show ?thesis using m'(3) [of "p + of_nat i"] h that unfolding u holds_def by (auto simp: nth_append)
  qed
  then show ?thesis using m'(1,2) by (auto simp: holds_def)
qed

lemma write_fmt_spec:
  "loaded (space m) F \<Longrightarrow> unat p + cap \<le> 2 ^ 47 \<Longrightarrow> block_mapped F p cap \<Longrightarrow> holds m F p buf \<Longrightarrow> length buf \<le> cap \<Longrightarrow>
   \<exists>m'. write_fmt (p, length buf, cap) fmt m = Some ((p, length (buf @ concat (accepted (cap - length buf) fmt)), cap), m')
     \<and> space m' = space m \<and> holds m' F p (buf @ concat (accepted (cap - length buf) fmt))"
proof (induction fmt arbitrary: m buf)
  case (Cons s ss)
  show ?case
  proof (cases "cap - length buf < length s")
    case True
    then show ?thesis using Cons.prems(4) by (simp add: write_str_def)
  next
    case False
    then have fit: "length buf + length s \<le> cap" using Cons.prems(5) by simp
    obtain m1 where m1: "write_list m (p + of_nat (length buf)) s = Some m1" "space m1 = space m" "holds m1 F p (buf @ s)"
      using append_bytes [OF Cons.prems(1-4) fit] by blast
    have L1: "loaded (space m1) F" using Cons.prems(1) m1(2) by simp
    show ?thesis using Cons.IH [OF L1 Cons.prems(2,3) m1(3)] fit False m1(1,2) by (simp add: write_str_def)
  qed
qed simp

section \<open>What is sent\<close>

lemma vmem_page: "vmem m F x = Some b \<Longrightarrow> \<exists>f fl. F (page_no x) = Some (f, fl)"
  by (auto simp: vmem_def split: option.splits)

lemma send_block:
  assumes d: "drains (uart0 K)" and L: "loaded (space (mach K)) F" and p: "p \<noteq> 0" "unat p + length bs \<le> 2 ^ 47" and h: "holds (mach K) F p bs"
  shows "\<exists>u. syscall3 E base 1 1 p (of_nat (length bs)) K = Some (of_nat (length bs), K\<lparr>uart0 := u\<rparr>) \<and> transmitted (uart0 K) u (write_prefix @ bs)"
proof -
  let ?n = "of_nat (length bs) :: u64"
  have n: "unat ?n = length bs" using p(2) by (intro unat_of_nat_small) simp
  have rd: "read_byte (mach K) (p + of_nat i) = Some (bs ! i)" if "i < length bs" for i
    using h that read_byte_vmem [OF L] by (simp add: holds_def)
  have "translate (space (mach K)) (of_nat b) \<noteq> None" if "unat p \<le> b" "b < unat p + unat ?n" for b
  proof -
    have "of_nat b = p + of_nat (b - unat p)" using that(1) by (simp add: of_nat_diff)
    moreover have "b - unat p < length bs" using that n by linarith
    ultimately show ?thesis using rd [of "b - unat p"] by (auto simp: read_byte_def)
  qed
  then have ur: "user_readable (mach K) p ?n" using p n by (simp add: user_readable_def)
  then obtain u cs where w: "sys_write 1 p ?n K = Some (Returns ?n None, K\<lparr>uart0 := u\<rparr>)" "length cs = length bs"
    "\<forall>i < length bs. read_byte (mach K) (p + of_nat i) = Some (cs ! i)" "transmitted (uart0 K) u (write_prefix @ cs)"
    using sys_write_result [OF d, of 1 p ?n] n by auto
  have "cs = bs" using w(2,3) rd by (intro nth_equalityI) auto
  then show ?thesis using w(1,4) by (auto simp: syscall3_def syscall_dispatch_def)
qed

text \<open>The message of \<^verbatim>\<open>hello\<close> is on the wire when it asks to exit.\<close>

lemma hello_says:
  assumes "drains (uart0 K)" and "loaded (space (mach K)) F" and "msg \<noteq> 0" "unat msg + 21 \<le> 2 ^ 47"
    and "holds (mach K) F msg (bytes ''hello from userspace'' @ [10])"
  shows "\<exists>u. hello_start E base msg K = syscall_dispatch E base 60 0 0 0 (K\<lparr>uart0 := u\<rparr>)
    \<and> transmitted (uart0 K) u (write_prefix @ bytes ''hello from userspace'' @ [10])"
proof -
  have l: "length (bytes ''hello from userspace'' @ [10]) = 21" by (simp add: bytes_def)
  obtain u where "syscall3 E base 1 1 msg 21 K = Some (21, K\<lparr>uart0 := u\<rparr>)" "transmitted (uart0 K) u (write_prefix @ bytes ''hello from userspace'' @ [10])"
    using send_block [OF assms(1,2,3) _ assms(5), of E base] assms(4) unfolding l by auto
  then show ?thesis by (auto simp: hello_start_def)
qed

text \<open>One line on an allocator that answers as it does here.\<close>

lemma println_block:
  assumes d: "drains (uart0 (pkern P))" and L: "loaded (space (mach (pkern P))) F"
    and a: "alloc (pheap P) println_layout = Some (Some p, hp)" and p: "p \<noteq> 0" "unat p + 256 \<le> 2 ^ 47" "block_mapped F p 256"
  shows "\<exists>m u. println E base alloc fmt P = Some \<lparr>pkern = (pkern P)\<lparr>mach := m, uart0 := u\<rparr>, pheap = hp\<rparr> \<and> space m = space (mach (pkern P))
    \<and> transmitted (uart0 (pkern P)) u (line_bytes fmt)"
proof -
  let ?K = "pkern P" and ?t = "concat (accepted 256 fmt)"
  obtain m where m: "write_fmt (p, 0, 256) fmt (mach ?K) = Some ((p, length ?t, 256), m)" "space m = space (mach ?K)" "holds m F p ?t"
    using write_fmt_spec [OF L p(2,3), of "[]" fmt] by (auto simp: holds_def)
  have K: "?K\<lparr>mach := x, uart0 := uart0 ?K\<rparr> = ?K\<lparr>mach := x\<rparr>" for x by simp
  show ?thesis
  proof (cases "length ?t < 256")
    case False
    then have "println E base alloc fmt P = Some \<lparr>pkern = ?K\<lparr>mach := m, uart0 := uart0 ?K\<rparr>, pheap = hp\<rparr>"
      using a m(1) by (cases P) (simp add: println_def)
    moreover have "line_bytes fmt = []" using False by (simp add: line_bytes_def)
    ultimately show ?thesis using m(2) by (intro exI [of _ m] exI [of _ "uart0 ?K"]) simp
  next
    case True
    have Lm: "loaded (space m) F" using L m(2) by simp
    obtain m' where m': "write_list m (p + of_nat (length ?t)) [10] = Some m'" "space m' = space m" "holds m' F p (?t @ [10])"
      using append_bytes [OF Lm p(2,3) m(3), of "[10]"] True by auto
    then have wb: "write_byte m (p + of_nat (length ?t)) 10 = Some m'" by (cases "write_byte m (p + of_nat (length ?t)) 10") simp_all
    let ?K' = "?K\<lparr>mach := m'\<rparr>"
    have L': "loaded (space (mach ?K')) F" using Lm m'(2) by simp
    obtain u where u: "syscall3 E base 1 1 p (of_nat (length (?t @ [10]))) ?K' = Some (of_nat (length (?t @ [10])), ?K'\<lparr>uart0 := u\<rparr>)"
      "transmitted (uart0 ?K) u (write_prefix @ ?t @ [10])"
      using send_block [OF _ L' p(1), of "?t @ [10]" E base] d m'(3) p(2) True by auto
    have "println E base alloc fmt P = Some \<lparr>pkern = ?K\<lparr>mach := m', uart0 := u\<rparr>, pheap = hp\<rparr>"
      using a m(1) wb u(1) True by (cases P) (simp add: println_def)
    moreover have "line_bytes fmt = write_prefix @ ?t @ [10]" using True by (simp add: line_bytes_def)
    ultimately show ?thesis using u(2) m(2) m'(2) by auto
  qed
qed

lemma println_silent: "alloc (pheap P) println_layout = Some (None, pheap P) \<Longrightarrow> println E base alloc fmt P = Some P"
  by (cases P) (simp add: println_def)

lemma net_alloc_bump: "net_alloc = bump_alloc"
  by (rule ext, rule ext) (simp add: net_alloc_def bump_alloc_def)

lemma net_alloc_line:
  assumes "bump_ok b"
  shows "net_alloc b println_layout = Some (if bump_base b + 256 \<le> unat (heap_start b) + 2 ^ 20
     then (Some (of_nat (bump_base b)), b\<lparr>bump_next := of_nat (bump_base b) + 256\<rparr>) else (None, b))"
    "unat (of_nat (bump_base b) :: u64) = bump_base b"
proof -
  have l: "layout_ok println_layout" unfolding layout_ok_def by (intro conjI exI [of _ 0]) (simp_all add: println_layout_def)
  obtain a where "bump_base b \<le> unat a" "unat a < bump_base b + 1"
    and r: "bump_alloc b println_layout = Some (if unat a + 256 \<le> unat (heap_start b) + 2 ^ 20 then (Some a, b\<lparr>bump_next := a + 256\<rparr>) else (None, b))"
    using bump_alloc_spec [OF assms l] by (auto simp: println_layout_def)
  then have "unat a = bump_base b" by simp
  then have a: "a = of_nat (bump_base b)" by (metis of_nat_unat ucast_id)
  show "unat (of_nat (bump_base b) :: u64) = bump_base b" using \<open>unat a = bump_base b\<close> a by simp
  show "net_alloc b println_layout = Some (if bump_base b + 256 \<le> unat (heap_start b) + 2 ^ 20
     then (Some (of_nat (bump_base b)), b\<lparr>bump_next := of_nat (bump_base b) + 256\<rparr>) else (None, b))"
    unfolding net_alloc_bump r using \<open>unat a = bump_base b\<close> a by simp
qed

lemma printlns_silent:
  assumes "bump_ok (pheap P)" and "unat (heap_start (pheap P)) + 2 ^ 20 < bump_base (pheap P) + 256"
  shows "printlns E base ls P = Some P"
proof -
  have "net_println E base l P = Some P" for l
    unfolding net_println_def using net_alloc_line(1) [OF assms(1)] assms(2) by (intro println_silent) simp
  then show ?thesis by (induction ls) simp_all
qed

text \<open>A program whose heap, mapped to frames, has \<open>n\<close> bytes left.\<close>

definition console_ready :: "page_map \<Rightarrow> nat \<Rightarrow> program \<Rightarrow> bool" where
  "console_ready F n P \<longleftrightarrow> bump_ok (pheap P) \<and> bump_base (pheap P) + n \<le> unat (heap_start (pheap P)) + 2 ^ 20
     \<and> unat (heap_start (pheap P)) + 2 ^ 20 \<le> 2 ^ 47 \<and> block_mapped F (heap_start (pheap P)) (2 ^ 20)
     \<and> drains (uart0 (pkern P)) \<and> loaded (space (mach (pkern P))) F"

lemma net_println_step:
  assumes "console_ready F (256 + n) P"
  shows "\<exists>P'. net_println E base l P = Some P' \<and> console_ready F n P' \<and> bump_base (pheap P') = bump_base (pheap P) + 256
    \<and> heap_start (pheap P') = heap_start (pheap P) \<and> transmitted (uart0 (pkern P)) (uart0 (pkern P')) (line_bytes l)"
proof -
  let ?b = "pheap P" and ?p = "of_nat (bump_base (pheap P)) :: u64"
  let ?b' = "?b\<lparr>bump_next := ?p + 256\<rparr>"
  have b: "bump_ok ?b" and room: "bump_base ?b + (256 + n) \<le> unat (heap_start ?b) + 2 ^ 20" "unat (heap_start ?b) + 2 ^ 20 \<le> 2 ^ 47"
    and bm: "block_mapped F (heap_start ?b) (2 ^ 20)" and k: "drains (uart0 (pkern P))" "loaded (space (mach (pkern P))) F"
    using assms by (simp_all add: console_ready_def)
  note p = net_alloc_line [OF b]
  have lo: "unat (heap_start ?b) \<le> bump_base ?b" "0 < unat (heap_start ?b)" using b by (simp_all add: bump_ok_def)
  have al: "net_alloc ?b println_layout = Some (Some ?p, ?b')" using p(1) room by simp
  have f: "?p \<noteq> 0" "unat ?p + 256 \<le> 2 ^ 47" using p(2) lo room by (auto simp: word_unat_eq_iff)
  have pm: "block_mapped F ?p 256" using bm room lo unfolding block_mapped_def p(2) by auto
  obtain m u where r: "net_println E base l P = Some \<lparr>pkern = (pkern P)\<lparr>mach := m, uart0 := u\<rparr>, pheap = ?b'\<rparr>" "space m = space (mach (pkern P))"
    "transmitted (uart0 (pkern P)) u (line_bytes l)"
    unfolding net_println_def using println_block [where alloc = net_alloc, OF k al f pm] by blast
  have "unat (?p + 256) = bump_base ?b + 256" using f(2) p(2) by (simp add: unat_add_no_wrap)
  then have nx: "bump_base ?b' = bump_base ?b + 256" by (auto simp: bump_base_def)
  have "bump_ok ?b'" using b room unfolding bump_ok_def nx by simp
  then show ?thesis using r room bm k transmitted_drains [OF r(3) k(1)] nx by (auto simp: console_ready_def)
qed

text \<open>As long as there is a block left, each line is sent.\<close>

lemma printlns_spec:
  "console_ready F (256 * n) P \<Longrightarrow> bump_base (pheap P) + 256 * n = unat (heap_start (pheap P)) + 2 ^ 20 \<Longrightarrow>
   \<exists>P'. printlns E base ls P = Some P' \<and> transmitted (uart0 (pkern P)) (uart0 (pkern P')) (concat (map line_bytes (take n ls)))"
proof (induction n arbitrary: P ls)
  case 0
  then show ?case using printlns_silent [of P E base ls] by (simp add: console_ready_def)
next
  case (Suc n)
  show ?case
  proof (cases ls)
    case Nil
    then show ?thesis by simp
  next
    case (Cons l ls')
    have "console_ready F (256 + 256 * n) P" using Suc.prems(1) by simp
    from net_println_step [OF this] obtain P1 where P1: "net_println E base l P = Some P1" "console_ready F (256 * n) P1"
      "bump_base (pheap P1) = bump_base (pheap P) + 256" "heap_start (pheap P1) = heap_start (pheap P)"
      "transmitted (uart0 (pkern P)) (uart0 (pkern P1)) (line_bytes l)" by blast
    then obtain P' where "printlns E base ls' P1 = Some P'" "transmitted (uart0 (pkern P1)) (uart0 (pkern P')) (concat (map line_bytes (take n ls')))"
      using Suc.IH [of P1 ls'] Suc.prems(2) by auto
    then show ?thesis using P1(1,5) Cons transmitted_trans by fastforce
  qed
qed


text \<open>An example: the boot tables, which map the first gigabyte to itself, with the heap of the program above the pages of the allocator.\<close>

definition identity_map :: page_map where
  "identity_map n = (if 0x10000 \<le> n \<and> n < 0x10200 then Some (of_nat (n * 4096), 7) else None)"

lemma identity_loaded:
  assumes "vm_inv (boot_vm d s)" and "free_page_set s \<subseteq> {..< 0x8000}"
    and "\<forall>a. unat a < 2 ^ 48 \<longrightarrow> page_view (boot_vm d s) a = (if unat a < 2 ^ 30 then Some (a, 7) else None)"
  shows "loaded (boot_vm d s) identity_map"
proof -
  have u: "unat (of_nat (n * 4096) :: u64) = n * 4096" if "n < 0x10200" for n using that by (intro unat_of_nat_small) simp
  have fr: "valid_frame (of_nat (n * 4096))" if "n < 0x10200" for n
    using that u [OF that] by (simp add: valid_frame_unat)
  have inj: "m = n" if "of_nat (m * 4096) = (of_nat (n * 4096) :: u64)" "m < 0x10200" "n < 0x10200" for m n
    using u [OF that(2)] u [OF that(3)] that(1) by (metis mult_cancel2 zero_neq_numeral)
  have pv: "page_view (boot_vm d s) a = Some (of_nat (page_no a * 4096) + (a AND 0xFFF), 7)" if "page_no a < 0x10200" for a
  proof -
    have lt: "unat a < 2 ^ 30" using that by (simp add: div_less_iff_less_mult)
    have "unat (a AND 0xFFF) = unat a mod 4096" by (simp only: mask_consts unat_and_mask) simp
    then have "unat (of_nat (page_no a * 4096) + (a AND 0xFFF)) = unat a"
      using u [OF that] lt by (subst unat_add_no_wrap) (simp_all add: div_mult_mod_eq)
    then have "of_nat (page_no a * 4096) + (a AND 0xFFF) = a" by (simp only: word_unat_eq_iff)
    then show ?thesis using assms(3) lt by simp
  qed
  show ?thesis unfolding loaded_def identity_map_def
    using assms(1,2) u fr inj pv by (auto simp: boot_vm_def split: if_splits)
qed


end
