(* ===== verification/Virtio.thy ===== *)
theory Virtio
  imports CLib
begin

text \<open>
  The network server's driver: the virtqueue (\<^verbatim>\<open>userspace/net-server/src/virtio.rs\<close>), the device it offers to the network
  stack (\<^verbatim>\<open>device.rs\<close>) and the search for the card on the PCI bus (\<^verbatim>\<open>pci.rs\<close>). The three shared structures of a queue are fields of one
  record; a descriptor index outside of the table is undefined behaviour, the value \<open>None\<close>. Port writes are kept in a log. The theory
  proves where a sequence of packets ends up in the queue, that the receive queue never yields a packet and which card is found.
\<close>

section \<open>The queue\<close>

definition QUEUE_SIZE :: nat where
  "QUEUE_SIZE = 256"

record virtq_desc =
  d_addr :: u64
  d_len :: u32
  d_flags :: u16
  d_next :: u16

record virtqueue =
  desc :: "virtq_desc list"
  avail_idx :: u16
  avail_ring :: "u16 list"
  used_idx :: u16
  used_ring :: "(u32 \<times> u32) list"
  free_head :: u16
  last_used :: u16
  io_base :: u16
  queue_idx :: u16
  port_writes :: "(u16 \<times> u32) list"

definition zero_desc :: virtq_desc where
  "zero_desc = \<lparr>d_addr = 0, d_len = 0, d_flags = 0, d_next = 0\<rparr>"

definition desc_bytes :: nat where "desc_bytes = (8 + 4 + 2 + 2) * QUEUE_SIZE"
definition avail_bytes :: nat where "avail_bytes = 2 + 2 + 2 * QUEUE_SIZE"
definition used_bytes :: nat where "used_bytes = 2 + 2 + (4 + 4) * QUEUE_SIZE"

definition out_port :: "virtqueue \<Rightarrow> u16 \<Rightarrow> u32 \<Rightarrow> virtqueue option" where
  "out_port q off v = do { p \<leftarrow> checked_add (io_base q) off; Some (q\<lparr>port_writes := port_writes q @ [(p, v)]\<rparr>) }"

text \<open>\<open>ptr\<close> is what the allocator returns for the zeroed block, \<open>0\<close> when it has none.\<close>

definition virtqueue_init :: "u64 \<Rightarrow> u16 \<Rightarrow> u16 \<Rightarrow> virtqueue option" where
  "virtqueue_init ptr base qi =
     (if ptr = 0 then None
      else let ds = fold (\<lambda>i ds. ds[i := (ds ! i)\<lparr>d_next := of_nat (i + 1), d_flags := 1\<rparr>]) [0 ..< QUEUE_SIZE - 1]
                      (replicate QUEUE_SIZE zero_desc);
               q = \<lparr>desc = ds, avail_idx = 0, avail_ring = replicate QUEUE_SIZE 0, used_idx = 0,
                    used_ring = replicate QUEUE_SIZE (0, 0), free_head = 0, last_used = 0, io_base = base, queue_idx = qi, port_writes = []\<rparr>
           in do { q1 \<leftarrow> out_port q 14 (ucast qi); out_port q1 8 (ucast ptr div 4096) })"

definition desc_at :: "virtqueue \<Rightarrow> nat \<Rightarrow> virtq_desc option" where
  "desc_at q i = (if i < length (desc q) then Some (desc q ! i) else None)"

definition send :: "virtqueue \<Rightarrow> u64 \<Rightarrow> usize \<Rightarrow> virtqueue option" where
  "send q data_ptr data_len =
     (let idx = unat (free_head q) in
      do {
        d \<leftarrow> desc_at q idx;
        let q1 = q\<lparr>free_head := d_next d, desc := (desc q)[idx := d\<lparr>d_addr := data_ptr, d_len := ucast data_len, d_flags := 0\<rparr>]\<rparr>;
        let slot = unat (avail_idx q1) mod QUEUE_SIZE;
        let q2 = q1\<lparr>avail_ring := (avail_ring q1)[slot := of_nat idx], avail_idx := avail_idx q1 + 1\<rparr>;
        out_port q2 16 (ucast (queue_idx q2))
      })"

definition recv :: "umem \<Rightarrow> virtqueue \<Rightarrow> u8 list \<Rightarrow> ((nat \<times> u8 list) option \<times> virtqueue) option" where
  "recv m q buf =
     (if used_idx q = last_used q then Some (None, q)
      else let elem = used_ring q ! (unat (last_used q) mod QUEUE_SIZE); i = unat (fst elem) in
      do {
        d \<leftarrow> desc_at q i;
        let n = min (unat (snd elem)) (length buf);
        bs \<leftarrow> for_each [0 ..< n] (\<lambda>i bs. do { b \<leftarrow> m (ptr_add (d_addr d) i); Some (bs @ [b]) }) [];
        Some (Some (n, bs @ drop n buf),
              q\<lparr>last_used := last_used q + 1, desc := (desc q)[i := d\<lparr>d_next := free_head q\<rparr>], free_head := ucast (fst elem)\<rparr>)
      })"

section \<open>The device\<close>

record virtio_net_device =
  rx_queue :: virtqueue
  tx_queue :: virtqueue
  rx_buf :: "u8 list"

definition device_new :: "virtqueue \<Rightarrow> virtqueue \<Rightarrow> virtio_net_device" where
  "device_new rx tx = \<lparr>rx_queue = rx, tx_queue = tx, rx_buf = replicate 1514 0\<rparr>"

text \<open>The receive token is the packet; the transmit token is a reference to the transmit queue.\<close>

definition device_receive :: "umem \<Rightarrow> virtio_net_device \<Rightarrow> (u8 list option \<times> virtio_net_device) option" where
  "device_receive m d =
     do {
       (r, q) \<leftarrow> recv m (rx_queue d) (rx_buf d);
       Some (case r of None \<Rightarrow> (None, d\<lparr>rx_queue := q\<rparr>)
             | Some (n, buf) \<Rightarrow> (Some (take n buf), d\<lparr>rx_queue := q, rx_buf := buf\<rparr>))
     }"

text \<open>\<open>buf_ptr\<close> is the address of the new vector.\<close>

definition tx_consume :: "(u8 list \<Rightarrow> 'r \<times> u8 list) \<Rightarrow> u64 \<Rightarrow> usize \<Rightarrow> umem \<Rightarrow> virtqueue \<Rightarrow> ('r \<times> umem \<times> virtqueue) option" where
  "tx_consume f buf_ptr n m q =
     (let (res, bs) = f (replicate (unat n) 0) in
      do { q' \<leftarrow> send q buf_ptr n; Some (res, put m buf_ptr bs, q') })"

definition device_transmit :: "virtio_net_device \<Rightarrow> virtqueue option" where
  "device_transmit d = Some (tx_queue d)"

definition rx_consume :: "u8 list \<Rightarrow> (u8 list \<Rightarrow> 'r \<times> u8 list) \<Rightarrow> 'r" where
  "rx_consume buf f = fst (f buf)"

datatype medium = Ethernet | Ip

definition device_capabilities :: "virtio_net_device \<Rightarrow> medium \<times> nat" where
  "device_capabilities d = (Ethernet, 1514)"

section \<open>The PCI bus\<close>

record pci_device =
  pci_bus :: u8
  pci_slot :: u8
  pci_bar0 :: u16

definition pci_addr :: "u8 \<Rightarrow> u8 \<Rightarrow> u8 \<Rightarrow> u8 \<Rightarrow> u32" where
  "pci_addr bus slot func offset =
     0x80000000 OR push_bit 16 (ucast bus) OR push_bit 11 (ucast slot) OR push_bit 8 (ucast func) OR (ucast offset AND 0xFC)"

text \<open>\<open>config\<close> is the configuration space: the word the bus answers for an address written to port \<^verbatim>\<open>0xCF8\<close>.\<close>

definition pci_read32 :: "(u32 \<Rightarrow> u32) \<Rightarrow> u8 \<Rightarrow> u8 \<Rightarrow> u8 \<Rightarrow> u8 \<Rightarrow> u32" where
  "pci_read32 config bus slot func offset = config (pci_addr bus slot func offset)"

fun scan_slots :: "(u32 \<Rightarrow> u32) \<Rightarrow> u8 \<Rightarrow> u8 list \<Rightarrow> pci_device option" where
  "scan_slots config bus [] = None"
| "scan_slots config bus (slot # slots) =
     (if pci_read32 config bus slot 0 0 = 0x10001AF4
      then Some \<lparr>pci_bus = bus, pci_slot = slot, pci_bar0 = ucast (pci_read32 config bus slot 0 0x10 AND NOT 0xF)\<rparr>
      else scan_slots config bus slots)"

fun scan_buses :: "(u32 \<Rightarrow> u32) \<Rightarrow> u8 list \<Rightarrow> pci_device option" where
  "scan_buses config [] = None"
| "scan_buses config (bus # buses) =
     (case scan_slots config bus (map of_nat [0 ..< 32]) of Some d \<Rightarrow> Some d | None \<Rightarrow> scan_buses config buses)"

definition find_virtio_net :: "(u32 \<Rightarrow> u32) \<Rightarrow> pci_device option" where
  "find_virtio_net config = scan_buses config (map of_nat [0 ..< 256])"

section \<open>Sending\<close>

lemma init_desc:
  assumes "n \<le> k"
  shows "fold (\<lambda>i ds. ds[i := (ds ! i)\<lparr>d_next := of_nat (i + 1), d_flags := 1\<rparr>]) [0 ..< n] (replicate k zero_desc) =
    map (\<lambda>i. if i < n then \<lparr>d_addr = 0, d_len = 0, d_flags = 1, d_next = of_nat (i + 1)\<rparr> else zero_desc) [0 ..< k]"
  using assms
proof (induction n)
  case 0
  show ?case by (rule nth_equalityI) auto
next
  case (Suc n)
  show ?case by (rule nth_equalityI) (use Suc in \<open>auto simp: nth_list_update less_Suc_eq zero_desc_def\<close>)
qed

definition packet_at :: "virtqueue \<Rightarrow> nat \<Rightarrow> u64 \<times> usize \<Rightarrow> bool" where
  "packet_at q i p \<longleftrightarrow> avail_ring q ! i = of_nat i \<and> desc q ! i =
     \<lparr>d_addr = fst p, d_len = ucast (snd p), d_flags = 0, d_next = of_nat ((i + 1) mod QUEUE_SIZE)\<rparr>"

definition sent_inv :: "u16 \<Rightarrow> u16 \<Rightarrow> (u16 \<times> u32) list \<Rightarrow> (u64 \<times> usize) list \<Rightarrow> virtqueue \<Rightarrow> bool" where
  "sent_inv base qi pre ps q \<longleftrightarrow> io_base q = base \<and> queue_idx q = qi \<and> length (desc q) = QUEUE_SIZE \<and> length (avail_ring q) = QUEUE_SIZE
     \<and> avail_idx q = of_nat (length ps) \<and> free_head q = of_nat (length ps mod QUEUE_SIZE)
     \<and> (\<forall>i < QUEUE_SIZE. d_next (desc q ! i) = of_nat ((i + 1) mod QUEUE_SIZE))
     \<and> (\<forall>k < length ps. length ps \<le> k + QUEUE_SIZE \<longrightarrow> packet_at q (k mod QUEUE_SIZE) (ps ! k))
     \<and> port_writes q = pre @ replicate (length ps) (base + 16, ucast qi)"

abbreviation init_writes :: "u64 \<Rightarrow> u16 \<Rightarrow> u16 \<Rightarrow> (u16 \<times> u32) list" where
  "init_writes ptr base qi \<equiv> [(base + 14, ucast qi), (base + 8, ucast ptr div 4096)]"

lemma virtqueue_init_spec:
  assumes "virtqueue_init ptr base qi = Some q"
  shows "sent_inv base qi (init_writes ptr base qi) [] q \<and> used_idx q = 0 \<and> last_used q = 0"
proof -
  let ?ds = "map (\<lambda>i. if i < 255 then \<lparr>d_addr = 0, d_len = 0, d_flags = 1, d_next = of_nat (i + 1)\<rparr> else zero_desc) [0 ..< 256]"
  have q: "q = \<lparr>desc = ?ds, avail_idx = 0, avail_ring = replicate 256 0, used_idx = 0, used_ring = replicate 256 (0, 0),
    free_head = 0, last_used = 0, io_base = base, queue_idx = qi, port_writes = init_writes ptr base qi\<rparr>"
    using assms init_desc [of 255 256]
    by (auto simp: virtqueue_init_def out_port_def QUEUE_SIZE_def bind_intros checked_add_Some Let_def split: if_splits)
  have "d_next (?ds ! i) = of_nat ((i + 1) mod 256)" if "i < 256" for i
  proof (cases "i = 255")
    case True
    then show ?thesis by (simp add: zero_desc_def)
  next
    case False
    then show ?thesis using that by simp
  qed
  then show ?thesis by (simp add: q sent_inv_def QUEUE_SIZE_def)
qed

lemma mod_apart:
  fixes k n c :: nat
  assumes "k < n" "n < k + c"
  shows "k mod c \<noteq> n mod c"
proof
  assume "k mod c = n mod c"
  then have "c dvd n - k" using assms(1) by (metis mod_eq_dvd_iff_nat less_imp_le)
  then show False using assms dvd_imp_le [of c "n - k"] by auto
qed

lemma send_step:
  assumes inv: "sent_inv base qi pre ps q" and "unat base + 16 < 2 ^ 16"
  shows "\<exists>q'. send q (fst p) (snd p) = Some q' \<and> sent_inv base qi pre (ps @ [p]) q'"
proof -
  define i where "i = length ps mod QUEUE_SIZE"
  have i: "i < QUEUE_SIZE" "i < 256" by (simp_all add: i_def QUEUE_SIZE_def)
  have len: "length (desc q) = QUEUE_SIZE" "length (avail_ring q) = QUEUE_SIZE" "io_base q = base" "queue_idx q = qi"
    using inv by (simp_all add: sent_inv_def)
  have h: "unat (free_head q) = i" using inv i(2) by (simp add: sent_inv_def i_def [symmetric] unat_of_nat_small)
  have a: "unat (avail_idx q) mod QUEUE_SIZE = i"
    using inv by (simp add: sent_inv_def i_def QUEUE_SIZE_def unsigned_of_nat take_bit_eq_mod mod_mod_cancel)
  have nx: "d_next (desc q ! j) = of_nat (Suc j mod QUEUE_SIZE)" if "j < QUEUE_SIZE" for j using inv that by (simp add: sent_inv_def)
  have n2: "Suc i mod QUEUE_SIZE = Suc (length ps) mod QUEUE_SIZE" unfolding i_def by (rule mod_Suc_eq)
  have p16: "checked_add base 16 = Some (base + 16)" using assms(2) by (simp add: checked_add_def)
  let ?d = "(desc q ! i)\<lparr>d_addr := fst p, d_len := ucast (snd p), d_flags := 0\<rparr>"
  define q' where "q' = q\<lparr>free_head := d_next (desc q ! i), desc := (desc q)[i := ?d], avail_ring := (avail_ring q)[i := of_nat i],
    avail_idx := avail_idx q + 1, port_writes := port_writes q @ [(base + 16, ucast qi)]\<rparr>"
  have "send q (fst p) (snd p) = Some q'"
    using i(1) by (simp add: send_def desc_at_def out_port_def h a len p16 q'_def)
  moreover have "packet_at q' i p" using i(1) nx [OF i(1)] by (simp add: packet_at_def q'_def len)
  moreover have "packet_at q' (k mod QUEUE_SIZE) ((ps @ [p]) ! k)" if "k < length ps" "length ps < k + QUEUE_SIZE" for k
  proof -
    have "k mod QUEUE_SIZE \<noteq> i" unfolding i_def using that by (rule mod_apart)
    moreover have "packet_at q (k mod QUEUE_SIZE) (ps ! k)" using inv that by (simp add: sent_inv_def)
    ultimately show ?thesis using that(1) by (simp add: packet_at_def q'_def nth_append)
  qed
  ultimately have "packet_at q' (k mod QUEUE_SIZE) ((ps @ [p]) ! k)" if "k < Suc (length ps)" "Suc (length ps) \<le> k + QUEUE_SIZE" for k
    using that by (cases "k = length ps") (auto simp: i_def)
  moreover have "d_next (desc q' ! j) = of_nat (Suc j mod QUEUE_SIZE)" if "j < QUEUE_SIZE" for j
    using nx [OF that] that by (cases "j = i") (simp_all add: q'_def len)
  moreover have "port_writes q' = pre @ replicate (Suc (length ps)) (base + 16, ucast qi)"
    using inv by (simp add: q'_def sent_inv_def replicate_append_same)
  moreover have "avail_idx q' = of_nat (Suc (length ps))" "free_head q' = of_nat (Suc (length ps) mod QUEUE_SIZE)"
    using inv nx [OF i(1)] n2 by (simp_all add: q'_def sent_inv_def)
  ultimately have "sent_inv base qi pre (ps @ [p]) q'" using len by (simp add: sent_inv_def q'_def)
  then show ?thesis using \<open>send q (fst p) (snd p) = Some q'\<close> by blast
qed

text \<open>A frame that the stack sends through the device is the next packet of the queue, with the bytes it wrote; a received frame of the announced size fits the buffer.\<close>

lemma device_send:
  assumes "sent_inv base qi pre ps (tx_queue d)" and "unat base + 16 < 2 ^ 16"
  shows "\<exists>q'. do { q \<leftarrow> device_transmit d; tx_consume f buf n m q } = Some (fst (f (replicate (unat n) 0)), put m buf (snd (f (replicate (unat n) 0))), q')
    \<and> sent_inv base qi pre (ps @ [(buf, n)]) q'"
  using send_step [OF assms, of "(buf, n)"] by (auto simp: device_transmit_def tx_consume_def split: prod.split)

lemma device_frame_fits: "length (rx_buf (device_new rx tx)) = snd (device_capabilities (device_new rx tx))"
  by (simp add: device_new_def device_capabilities_def)

lemma sends_spec:
  assumes "sent_inv base qi pre [] q" "unat base + 16 < 2 ^ 16"
  shows "\<exists>q'. for_each ps (\<lambda>p q. send q (fst p) (snd p)) q = Some q' \<and> sent_inv base qi pre ps q'"
proof (induction ps rule: rev_induct)
  case Nil
  then show ?case using assms(1) by simp
next
  case (snoc p ps)
  then show ?case using send_step [OF _ assms(2), of qi pre ps _ p] by (fastforce simp: for_each_append)
qed

text \<open> C40: What the card sees of the packets. After any sequence of \<^verbatim>\<open>send\<close> on a fresh queue every call has returned, the available index has
  counted them, each was announced once at the notification port, and slot \<open>k mod 256\<close> of ring and descriptor table holds packet \<open>k\<close> as long as
  fewer than 256 packets follow it. The next one takes its descriptor over: nothing waits for the card to have sent the packet.\<close>

theorem sends_fill_ring:
  assumes "virtqueue_init ptr base qi = Some q0" and "unat base + 16 < 2 ^ 16"
  shows "\<exists>q. for_each ps (\<lambda>p q. send q (fst p) (snd p)) q0 = Some q \<and> avail_idx q = of_nat (length ps)
    \<and> port_writes q = init_writes ptr base qi @ replicate (length ps) (base + 16, ucast qi)
    \<and> (\<forall>k < length ps. length ps \<le> k + 256 \<longrightarrow> packet_at q (k mod 256) (ps ! k))"
proof -
  obtain q where "for_each ps (\<lambda>p q. send q (fst p) (snd p)) q0 = Some q" "sent_inv base qi (init_writes ptr base qi) ps q"
    using sends_spec [OF _ assms(2), of qi "init_writes ptr base qi" q0 ps] virtqueue_init_spec [OF assms(1)] by blast
  then show ?thesis by (auto simp: sent_inv_def QUEUE_SIZE_def)
qed

theorem sends_fill_ring_witness:
  "\<exists>q0 q. virtqueue_init 0x10000000 0xC000 1 = Some q0 \<and> for_each [(0x1000, 60), (0x2000, 1514)] (\<lambda>p q. send q (fst p) (snd p)) q0 = Some q
    \<and> packet_at q 0 (0x1000, 60) \<and> packet_at q 1 (0x2000, 1514)"
proof -
  obtain q0 where q0: "virtqueue_init 0x10000000 0xC000 1 = Some q0"
    by (auto simp: virtqueue_init_def out_port_def checked_add_def Let_def)
  show ?thesis using sends_fill_ring [OF q0, of "[(0x1000, 60), (0x2000, 1514)]"] q0 by (auto simp: less_Suc_eq)
qed

text \<open>A legacy device looks for the used ring at the next page boundary behind the available ring, 8192 bytes into the block; the driver
  reads it at 4612, right behind the available ring, and the block ends before 8192.\<close>

lemma used_ring_misplaced:
  "desc_bytes + avail_bytes = 4612" "4096 * ((desc_bytes + avail_bytes + 4095) div 4096) = 8192" "desc_bytes + avail_bytes + used_bytes < 8192"
  by (simp_all add: desc_bytes_def avail_bytes_def used_bytes_def QUEUE_SIZE_def)

section \<open>Receiving\<close>

text \<open>What \<^verbatim>\<open>recv\<close> does with a completed buffer: it delivers the bytes and puts the descriptor at the head of the free list.\<close>

lemma recv_delivers:
  assumes "used_idx q \<noteq> last_used q" "used_ring q ! (unat (last_used q) mod QUEUE_SIZE) = (i, n)" "unat i < length (desc q)"
    and "bytes_at m (d_addr (desc q ! unat i)) bs" "length bs = min (unat n) (length buf)"
  shows "\<exists>q'. recv m q buf = Some (Some (length bs, bs @ drop (length bs) buf), q') \<and> last_used q' = last_used q + 1
    \<and> free_head q' = ucast i \<and> d_next (desc q' ! unat i) = free_head q"
  using assms read_bytes_spec [OF assms(4), of "length bs"] by (simp add: recv_def desc_at_def Let_def)

text \<open>The receive queue in use: a card completes only buffers that were made available to it; the driver receives; the transmit queue
  changes in any way.\<close>

inductive rx_step :: "umem \<Rightarrow> virtio_net_device \<Rightarrow> virtio_net_device \<Rightarrow> bool" for m :: umem where
  card_completes: "used_idx (rx_queue d) \<noteq> avail_idx (rx_queue d) \<Longrightarrow>
     rx_step m d (d\<lparr>rx_queue := (rx_queue d)\<lparr>used_ring := (used_ring (rx_queue d))[unat (used_idx (rx_queue d)) mod QUEUE_SIZE := e],
       used_idx := used_idx (rx_queue d) + 1\<rparr>\<rparr>)"
| driver_receives: "device_receive m d = Some (r, d') \<Longrightarrow> rx_step m d d'"
| driver_sends: "rx_step m d (d\<lparr>tx_queue := q\<rparr>)"

text \<open>The server never receives a packet. No code puts a buffer into the receive queue, so that a card that completes only available
  buffers completes none: in every state the running device can reach, \<^verbatim>\<open>receive\<close> answers \<^verbatim>\<open>None\<close> and changes nothing.\<close>

lemma receive_never_delivers:
  assumes "virtqueue_init ptr base 0 = Some rx" and "(rx_step m)\<^sup>*\<^sup>* (device_new rx tx) d"
  shows "device_receive m d = Some (None, d)"
proof -
  have quiet: "device_receive m d = Some (None, d)" if "used_idx (rx_queue d) = last_used (rx_queue d)" for d
    using that by (simp add: device_receive_def recv_def)
  have "used_idx (rx_queue d) = avail_idx (rx_queue d) \<and> used_idx (rx_queue d) = last_used (rx_queue d)"
    using assms(2)
  proof (induction rule: rtranclp_induct)
    case base
    then show ?case using virtqueue_init_spec [OF assms(1)] by (simp add: device_new_def sent_inv_def)
  next
    case (step d d')
    from step.hyps(2) step.IH show ?case by (cases rule: rx_step.cases) (auto simp: quiet)
  qed
  then show ?thesis using quiet by blast
qed

section \<open>Finding the card\<close>

lemma scan_slots_None: "scan_slots config b ss = None \<Longrightarrow> s \<in> set ss \<Longrightarrow> config (pci_addr b s 0 0) \<noteq> 0x10001AF4"
  by (induction ss) (auto simp: pci_read32_def split: if_splits)

lemma scan_slots_Some:
  "scan_slots config b ss = Some d \<Longrightarrow> \<exists>us s vs. ss = us @ s # vs \<and> (\<forall>u \<in> set us. config (pci_addr b u 0 0) \<noteq> 0x10001AF4)
     \<and> config (pci_addr b s 0 0) = 0x10001AF4
     \<and> d = \<lparr>pci_bus = b, pci_slot = s, pci_bar0 = ucast (config (pci_addr b s 0 0x10) AND NOT 0xF)\<rparr>"
proof (induction ss)
  case (Cons t ss)
  show ?case
  proof (cases "config (pci_addr b t 0 0) = 0x10001AF4")
    case True
    then have "d = \<lparr>pci_bus = b, pci_slot = t, pci_bar0 = ucast (config (pci_addr b t 0 0x10) AND NOT 0xF)\<rparr>"
      using Cons.prems by (simp add: pci_read32_def)
    moreover have "t # ss = [] @ t # ss" "\<forall>u \<in> set []. config (pci_addr b u 0 0) \<noteq> 0x10001AF4" by simp_all
    ultimately show ?thesis using True by blast
  next
    case False
    then obtain us s vs where "ss = us @ s # vs" "\<forall>u \<in> set us. config (pci_addr b u 0 0) \<noteq> 0x10001AF4" "config (pci_addr b s 0 0) = 0x10001AF4"
      "d = \<lparr>pci_bus = b, pci_slot = s, pci_bar0 = ucast (config (pci_addr b s 0 0x10) AND NOT 0xF)\<rparr>"
      using Cons by (auto simp: pci_read32_def)
    moreover from this have "t # ss = (t # us) @ s # vs" "\<forall>u \<in> set (t # us). config (pci_addr b u 0 0) \<noteq> 0x10001AF4" using False by simp_all
    ultimately show ?thesis by blast
  qed
qed simp

lemma scan_buses_None: "scan_buses config bs = None \<Longrightarrow> b \<in> set bs \<Longrightarrow> scan_slots config b (map of_nat [0 ..< 32]) = None"
  by (induction bs) (auto split: option.splits)

lemma scan_buses_Some:
  "scan_buses config bs = Some d \<Longrightarrow> \<exists>us b vs. bs = us @ b # vs \<and> (\<forall>u \<in> set us. scan_slots config u (map of_nat [0 ..< 32]) = None)
     \<and> scan_slots config b (map of_nat [0 ..< 32]) = Some d"
proof (induction bs)
  case (Cons c bs)
  show ?case
  proof (cases "scan_slots config c (map of_nat [0 ..< 32])")
    case None
    then obtain us b vs where "bs = us @ b # vs" "\<forall>u \<in> set us. scan_slots config u (map of_nat [0 ..< 32]) = None"
      "scan_slots config b (map of_nat [0 ..< 32]) = Some d" using Cons by auto
    moreover from this have "c # bs = (c # us) @ b # vs" "\<forall>u \<in> set (c # us). scan_slots config u (map of_nat [0 ..< 32]) = None"
      using None by simp_all
    ultimately show ?thesis by blast
  next
    case (Some e)
    then have "scan_slots config c (map of_nat [0 ..< 32]) = Some d" using Cons.prems by simp
    moreover have "c # bs = [] @ c # bs" "\<forall>u \<in> set []. scan_slots config u (map of_nat [0 ..< 32]) = None" by simp_all
    ultimately show ?thesis by blast
  qed
qed simp

text \<open>In a list of consecutive bytes from zero, the ones before an element are the smaller ones.\<close>

lemma bytes_before:
  assumes "map of_nat [0 ..< n] = us @ (s :: u8) # vs" "n \<le> 256"
  shows "unat s < n" "set us = {u. u < s}"
proof -
  have len: "length us < n" using assms(1) by (metis add_Suc_right add_less_cancel_left length_Cons length_append length_map length_upt minus_nat.diff_0 less_add_Suc1)
  have nth: "(us @ s # vs) ! i = of_nat i" if "i < n" for i using assms(1) that by (metis add_0 length_upt minus_nat.diff_0 nth_map nth_upt)
  have s: "s = of_nat (length us)" using nth [OF len] by simp
  then have us: "unat s = length us" using len assms(2) by (simp add: unat_of_nat_small)
  then show "unat s < n" using len by simp
  have "us ! i = of_nat i" if "i < length us" for i using nth [of i] len that by (simp add: nth_append)
  then have "us = map of_nat [0 ..< length us]" by (intro nth_equalityI) auto
  then have "set us = of_nat ` {0 ..< length us}" by (metis atLeastLessThan_upt list.set_map)
  also have "\<dots> = {u :: u8. u < s}"
  proof (intro set_eqI iffI)
    fix u :: u8 assume "u \<in> of_nat ` {0 ..< length us}"
    then show "u \<in> {u. u < s}" using us len assms(2) by (auto simp: word_less_nat_alt unat_of_nat_small)
  next
    fix u :: u8 assume "u \<in> {u. u < s}"
    then have "unat u < length us" using us by (simp add: word_less_nat_alt)
    then show "u \<in> of_nat ` {0 ..< length us}" by (intro image_eqI [of _ _ "unat u"]) auto
  qed
  finally show "set us = {u. u < s}" .
qed

lemma all_slots: "set (map of_nat [0 ..< 32]) = {s :: u8. s < 32}" "set (map of_nat [0 ..< 256]) = (UNIV :: u8 set)"
proof -
  have "u \<in> of_nat ` {0 ..< n}" if "unat u < n" for u :: u8 and n using that by (intro image_eqI [of _ _ "unat u"]) auto
  then show "set (map of_nat [0 ..< 32]) = {s :: u8. s < 32}" "set (map of_nat [0 ..< 256]) = (UNIV :: u8 set)"
    using unsigned_less [where 'a = nat and 'b = 8] by (auto simp: word_less_nat_alt unat_of_nat_small)
qed

text \<open>\<^verbatim>\<open>find_virtio_net\<close> answers the first function 0, in the order of bus and slot numbers, whose identification is that of a virtio network
  card, with the masked port address of its first base register, and \<^verbatim>\<open>None\<close> only if no slot has one.\<close>

lemma find_virtio_net_first:
  "case find_virtio_net config of
     None \<Rightarrow> \<forall>b s. s < 32 \<longrightarrow> config (pci_addr b s 0 0) \<noteq> 0x10001AF4
   | Some d \<Rightarrow> pci_slot d < 32 \<and> config (pci_addr (pci_bus d) (pci_slot d) 0 0) = 0x10001AF4
       \<and> pci_bar0 d = ucast (config (pci_addr (pci_bus d) (pci_slot d) 0 0x10) AND NOT 0xF)
       \<and> (\<forall>b s. s < 32 \<longrightarrow> b < pci_bus d \<or> b = pci_bus d \<and> s < pci_slot d \<longrightarrow> config (pci_addr b s 0 0) \<noteq> 0x10001AF4)"
proof (cases "find_virtio_net config")
  case None
  have "config (pci_addr b s 0 0) \<noteq> 0x10001AF4" if "s < 32" for b s
  proof (rule scan_slots_None)
    show "scan_slots config b (map of_nat [0 ..< 32]) = None"
      by (rule scan_buses_None [where bs = "map of_nat [0 ..< 256]"]) (use None in \<open>simp_all only: find_virtio_net_def all_slots UNIV_I\<close>)
    show "s \<in> set (map of_nat [0 ..< 32])" unfolding all_slots using that by simp
  qed
  then show ?thesis using None by simp
next
  case (Some d)
  obtain us b vs where bus: "map of_nat [0 ..< 256] = us @ b # vs" "\<forall>u \<in> set us. scan_slots config u (map of_nat [0 ..< 32]) = None"
    "scan_slots config b (map of_nat [0 ..< 32]) = Some d"
    using scan_buses_Some [OF Some [unfolded find_virtio_net_def]] by blast
  obtain ts s ws where slot: "map of_nat [0 ..< 32] = ts @ s # ws" "\<forall>u \<in> set ts. config (pci_addr b u 0 0) \<noteq> 0x10001AF4"
    "config (pci_addr b s 0 0) = 0x10001AF4"
    "d = \<lparr>pci_bus = b, pci_slot = s, pci_bar0 = ucast (config (pci_addr b s 0 0x10) AND NOT 0xF)\<rparr>"
    using scan_slots_Some [OF bus(3)] by blast
  note bb = bytes_before [OF bus(1)] and ss = bytes_before [OF slot(1)]
  have "config (pci_addr c t 0 0) \<noteq> 0x10001AF4" if "t < 32" "c < b" for c t
  proof (rule scan_slots_None)
    show "scan_slots config c (map of_nat [0 ..< 32]) = None" using bus(2) bb(2) that(2) by simp
    show "t \<in> set (map of_nat [0 ..< 32])" unfolding all_slots using that(1) by simp
  qed
  moreover have "config (pci_addr b t 0 0) \<noteq> 0x10001AF4" if "t < s" for t using slot(2) ss(2) that by simp
  moreover have "s < 32" using ss(1) by (simp add: word_less_nat_alt)
  ultimately show ?thesis using Some slot(3,4) by auto
qed

end
