(* ===== verification/NetServer.thy ===== *)
theory NetServer
  imports Println Virtio
begin

text \<open>
  The network server \<^verbatim>\<open>userspace/net-server\<close>: its entry point (\<^verbatim>\<open>main.rs\<close>), which composes the output of \<open>Println\<close>, the heap of
  \<open>Alloc\<close> and the driver of \<open>Virtio\<close> up to the loop around the network stack, and the device of \<^verbatim>\<open>virtio_net.rs\<close>, an earlier driver that
  no crate includes. The stack, smoltcp, is a library: its constructor and its poll are parameters.
\<close>

section \<open>Start\<close>

text \<open>Debug bytes go to the port of the serial line without asking whether it is ready. The processes run with I/O privilege level 3.\<close>

definition dbg_outb :: "u8 \<Rightarrow> program \<Rightarrow> program" where
  "dbg_outb v P = (let u = uart0 (pkern P) in P\<lparr>pkern := (pkern P)\<lparr>uart0 := u\<lparr>port_log := port_log u @ [(0x3F8, v)]\<rparr>\<rparr>\<rparr>)"

definition dbg_str :: "string \<Rightarrow> program \<Rightarrow> program" where
  "dbg_str s P = fold dbg_outb (bytes s) P"

definition line :: "string \<Rightarrow> string" where
  "line s = s @ [CHR 0x0A]"

definition queue_layout :: layout where
  "queue_layout = \<lparr>lay_size = of_nat (desc_bytes + avail_bytes + used_bytes), lay_align = 4096\<rparr>"

text \<open>\<^verbatim>\<open>Virtqueue::init\<close> on the program's heap, with its debug output; the fields of the queue stand for the contents of the zeroed block.\<close>

definition queue_start :: "u16 \<Rightarrow> u16 \<Rightarrow> program \<Rightarrow> (virtqueue \<times> program) option" where
  "queue_start base qi P =
     do {
       let P1 = dbg_str (line ''[virtio] alloc_zeroed'') (dbg_str (line ''[virtio] init start'') P);
       (ptr, h) \<leftarrow> net_alloc (pheap P1) queue_layout;
       q \<leftarrow> virtqueue_init (case ptr of None \<Rightarrow> 0 | Some p \<Rightarrow> p) base qi;
       Some (q, dbg_str (line ''[virtio] init done'') (dbg_str (line ''[virtio] QUEUE_PFN'') (dbg_str (line ''[virtio] QUEUE_SEL'') (P1\<lparr>pheap := h\<rparr>))))
     }"

text \<open>The allocator test: an empty vector of capacity 64 and the four digits of its length.\<close>

definition hex_nibble :: "u64 \<Rightarrow> u8" where
  "hex_nibble n = (if n < 10 then of_char CHR ''0'' + ucast n else of_char CHR ''a'' + ucast n - 10)"

definition test_alloc :: "program \<Rightarrow> program option" where
  "test_alloc P =
     do {
       (ptr, h) \<leftarrow> net_alloc (pheap P) \<lparr>lay_size = 64, lay_align = 1\<rparr>;
       p \<leftarrow> ptr;
       let n = (0 :: u64);
       let P1 = dbg_str ''[main] vec created, len='' (P\<lparr>pheap := h\<rparr>);
       Some (dbg_outb 10 (fold (\<lambda>shift. dbg_outb (hex_nibble (drop_bit shift n AND 0xF))) [12, 8, 4, 0] P1))
     }"

definition net_queues :: "pci_device \<Rightarrow> program \<Rightarrow> (virtio_net_device \<times> program) option" where
  "net_queues dev P =
     do {
       (rx, P1) \<leftarrow> queue_start (pci_bar0 dev) 0 (dbg_str (line ''[main] init rx_queue'') P);
       (tx, P2) \<leftarrow> queue_start (pci_bar0 dev) 1 (dbg_str (line ''[main] init tx_queue'') P1);
       let P3 = dbg_str (line ''[main] test alloc'') (dbg_str (line ''[main] device created'') (dbg_str (line ''[main] queues done'') P2));
       P4 \<leftarrow> test_alloc P3;
       Some (device_new rx tx, P4)
     }"

text \<open>\<^verbatim>\<open>main\<close> up to the configuration of the stack: \<open>None\<close> in the result is the return without a card.\<close>

definition net_setup :: "'v env \<Rightarrow> u64 \<Rightarrow> (u32 \<Rightarrow> u32) \<Rightarrow> program \<Rightarrow> (virtio_net_device option \<times> program) option" where
  "net_setup E base config P =
     do {
       P1 \<leftarrow> net_println E base [bytes ''[net-server] starting virtio-net driver...''] P;
       (case find_virtio_net config of
          None \<Rightarrow> do { P2 \<leftarrow> net_println E base [bytes ''[net-server] ERROR: virtio-net device not found!''] P1; Some (None, P2) }
        | Some dev \<Rightarrow> do {
            P2 \<leftarrow> net_println E base [bytes ''[net-server] found virtio-net at PCI bus='', dec (unat (pci_bus dev)), bytes '' slot='', dec (unat (pci_slot dev))] P1;
            (d, P3) \<leftarrow> net_queues dev P2;
            P4 \<leftarrow> net_println E base [bytes ''[net-server] configuring smoltcp...''] P3;
            Some (Some d, P4)
          })
     }"

section \<open>The loop\<close>

text \<open>\<open>poll\<close> is \<^verbatim>\<open>Interface::poll\<close>, \<open>mk\<close> the constructor with the address list, for the hardware address given; both may send and receive.\<close>

record 'i server =
  iface :: 'i
  device :: virtio_net_device
  prog :: program
  poll_count :: u64

definition mac :: "u8 list" where
  "mac = [0x52, 0x54, 0x00, 0x12, 0x34, 0x56]"

definition ip_addr :: "u8 list \<times> nat" where
  "ip_addr = ([10, 0, 0, 2], 24)"

definition poll_step :: "(i64 \<Rightarrow> 'i \<times> virtio_net_device \<times> program \<Rightarrow> ('i \<times> virtio_net_device \<times> program) option) \<Rightarrow> 'i server \<Rightarrow> 'i server option" where
  "poll_step poll S =
     do {
       (i, d, P) \<leftarrow> poll (poll_count S) (iface S, device S, prog S);
       c \<leftarrow> checked_add (poll_count S) 1;
       Some \<lparr>iface = i, device = d, prog = P, poll_count = c\<rparr>
     }"

primrec polls_n :: "nat \<Rightarrow> (i64 \<Rightarrow> 'i \<times> virtio_net_device \<times> program \<Rightarrow> ('i \<times> virtio_net_device \<times> program) option) \<Rightarrow> 'i server \<Rightarrow> 'i server option" where
  "polls_n 0 poll S = Some S"
| "polls_n (Suc n) poll S = do { S' \<leftarrow> poll_step poll S; polls_n n poll S' }"

text \<open>The state in front of the loop; a server without a card has left \<^verbatim>\<open>main\<close>.\<close>

definition net_main ::
  "(u8 list \<Rightarrow> u8 list \<times> nat \<Rightarrow> virtio_net_device \<Rightarrow> program \<Rightarrow> ('i \<times> virtio_net_device \<times> program) option)
     \<Rightarrow> 'v env \<Rightarrow> u64 \<Rightarrow> (u32 \<Rightarrow> u32) \<Rightarrow> program \<Rightarrow> ('i server option \<times> program) option" where
  "net_main mk E base config P =
     do {
       (d, P1) \<leftarrow> net_setup E base config P;
       (case d of None \<Rightarrow> Some (None, P1)
        | Some d \<Rightarrow> do {
            (i, d', P2) \<leftarrow> mk mac ip_addr d P1;
            P3 \<leftarrow> net_println E base [bytes ''[net-server] entering main event loop''] P2;
            Some (Some \<lparr>iface = i, device = d', prog = P3, poll_count = 0\<rparr>, P3)
          })
     }"

section \<open>The earlier driver\<close>

record net_device =
  mac_address :: "u8 list"
  mmio_base :: u64
  rx_buffers :: "u8 list list"
  tx_buffers :: "u8 list list"
  rx_index :: nat
  tx_index :: nat
  mmio_log :: "(u64 \<times> u32) list"

definition net_device_new :: "u64 \<Rightarrow> u8 list \<Rightarrow> net_device" where
  "net_device_new bar_addr m =
     fold (\<lambda>_ d. d\<lparr>rx_buffers := rx_buffers d @ [replicate 2048 0], tx_buffers := tx_buffers d @ [replicate 2048 0]\<rparr>) [0 ..< 32]
       \<lparr>mac_address = m, mmio_base = bar_addr, rx_buffers = [], tx_buffers = [], rx_index = 0, tx_index = 0, mmio_log = []\<rparr>"

text \<open>Both accesses cut the address of the registers to 32 bits.\<close>

definition reg_addr :: "net_device \<Rightarrow> u32 \<Rightarrow> u64 option" where
  "reg_addr d off = do { a \<leftarrow> checked_add (ucast (mmio_base d) :: u32) off; Some (ucast a) }"

definition read_reg :: "(u64 \<Rightarrow> u32) \<Rightarrow> net_device \<Rightarrow> u32 \<Rightarrow> u32 option" where
  "read_reg mmio d off = do { a \<leftarrow> reg_addr d off; Some (mmio a) }"

definition write_reg :: "net_device \<Rightarrow> u32 \<Rightarrow> u32 \<Rightarrow> net_device option" where
  "write_reg d off v = do { a \<leftarrow> reg_addr d off; Some (d\<lparr>mmio_log := mmio_log d @ [(a, v)]\<rparr>) }"

definition net_device_init :: "(u64 \<Rightarrow> u32) \<Rightarrow> net_device \<Rightarrow> net_device option" where
  "net_device_init mmio d =
     do {
       d1 \<leftarrow> write_reg d 0x18 0;
       d2 \<leftarrow> write_reg d1 0x18 1;
       d3 \<leftarrow> write_reg d2 0x18 2;
       features \<leftarrow> read_reg mmio d3 0x00;
       d4 \<leftarrow> write_reg d3 0x04 0;
       write_reg d4 0x18 4
     }"

definition next_rx_buffer :: "net_device \<Rightarrow> nat option \<times> net_device" where
  "next_rx_buffer d =
     (if rx_index d < length (rx_buffers d) then (Some (rx_index d), d\<lparr>rx_index := (rx_index d + 1) mod length (rx_buffers d)\<rparr>)
      else (None, d))"

definition next_tx_buffer :: "net_device \<Rightarrow> nat option \<times> net_device" where
  "next_tx_buffer d =
     (if tx_index d < length (tx_buffers d) then (Some (tx_index d), d\<lparr>tx_index := (tx_index d + 1) mod length (tx_buffers d)\<rparr>)
      else (None, d))"

text \<open>The tokens own a copy of a buffer; \<open>f\<close> is what the stack does with the slice, and a slice outside of the buffer panics.\<close>

definition net_rx_consume :: "u8 list \<times> nat \<Rightarrow> (u8 list \<Rightarrow> 'r \<times> u8 list) \<Rightarrow> 'r option" where
  "net_rx_consume t f = (if snd t \<le> length (fst t) then Some (fst (f (take (snd t) (fst t)))) else None)"

definition net_tx_consume :: "u8 list \<Rightarrow> nat \<Rightarrow> (u8 list \<Rightarrow> 'r \<times> u8 list) \<Rightarrow> 'r option" where
  "net_tx_consume buf n f = (if n \<le> length buf then Some (fst (f (take n buf))) else None)"

definition net_receive :: "net_device \<Rightarrow> ((u8 list \<times> nat) \<times> u8 list) option \<times> net_device" where
  "net_receive d = (None, d)"

definition net_transmit :: "net_device \<Rightarrow> u8 list option \<times> net_device" where
  "net_transmit d = (case next_tx_buffer d of (b, d') \<Rightarrow> (map_option (\<lambda>i. tx_buffers d ! i) b, d'))"

definition net_capabilities :: "nat \<times> nat option" where
  "net_capabilities = (1500, Some 64)"

section \<open>The start reaches the loop\<close>

definition on_com1 :: "program \<Rightarrow> bool" where
  "on_com1 P \<longleftrightarrow> port (uart0 (pkern P)) = 0x3F8"

text \<open>A step that prints \<open>bs\<close> and takes at most \<open>k\<close> bytes of the heap.\<close>

definition prints :: "page_map \<Rightarrow> nat \<Rightarrow> u8 list \<Rightarrow> program \<Rightarrow> program \<Rightarrow> bool" where
  "prints F k bs P P' \<longleftrightarrow> (\<forall>n. console_ready F (k + n) P \<longrightarrow> console_ready F n P') \<and> (on_com1 P \<longrightarrow> on_com1 P')
     \<and> (on_com1 P \<longrightarrow> transmitted (uart0 (pkern P)) (uart0 (pkern P')) bs)"

lemma prints_trans: "prints F k as P Q \<Longrightarrow> prints F l bs Q R \<Longrightarrow> prints F (k + l) (as @ bs) P R"
  unfolding prints_def by (metis add.assoc transmitted_trans)

lemma prints_weaken:
  assumes "prints F k bs P P'" "k \<le> l"
  shows "prints F l bs P P'"
proof -
  have "console_ready F (l + n) P \<Longrightarrow> console_ready F (k + (l - k + n)) P" for n using assms(2) by simp
  moreover have "console_ready F (l - k + n) P' \<Longrightarrow> console_ready F n P'" for n by (auto simp: console_ready_def)
  ultimately show ?thesis using assms(1) by (simp add: prints_def)
qed

lemma dbg_outb_prints: "prints F 0 [v] P (dbg_outb v P)"
  by (simp add: prints_def dbg_outb_def on_com1_def console_ready_def transmitted_def drains_def Let_def)

lemma fold_dbg_prints: "prints F 0 bs P (fold dbg_outb bs P)"
proof (induction bs arbitrary: P)
  case (Cons b bs)
  show ?case using prints_trans [OF dbg_outb_prints Cons.IH] by simp
qed (simp add: prints_def)

lemma dbg_str_prints: "prints F 0 (bytes s) P (dbg_str s P)"
  unfolding dbg_str_def by (rule fold_dbg_prints)

lemma prints_dbg: "prints F k bs P Q \<Longrightarrow> prints F k (bs @ bytes s) P (dbg_str s Q)"
  using prints_trans [OF _ dbg_str_prints] by fastforce

lemma prints_ready: "prints F k bs P Q \<Longrightarrow> console_ready F (k + n) P \<Longrightarrow> console_ready F n Q"
  by (simp add: prints_def)

lemma net_println_prints:
  assumes "console_ready F 256 P"
  shows "\<exists>P'. net_println E base l P = Some P' \<and> prints F 256 (line_bytes l) P P'"
proof -
  obtain P' where P': "net_println E base l P = Some P'" using net_println_step [of F 0 P E base l] assms by auto
  have "console_ready F (256 + n) P \<Longrightarrow> console_ready F n P'" for n using net_println_step [of F n P E base l] P' by auto
  moreover have "transmitted (uart0 (pkern P)) (uart0 (pkern P')) (line_bytes l)" using net_println_step [of F 0 P E base l] assms P' by auto
  ultimately show ?thesis using P' by (auto simp: prints_def on_com1_def transmitted_def)
qed

text \<open>An allocation with room for the block and its alignment.\<close>

lemma net_alloc_room:
  assumes "console_ready F (unat (lay_size l) + unat (lay_align l)) P" and "layout_ok l"
  shows "\<exists>a h. net_alloc (pheap P) l = Some (Some a, h) \<and> a \<noteq> 0 \<and> unat (lay_align l) dvd unat a
    \<and> prints F (unat (lay_size l) + unat (lay_align l)) [] P (P\<lparr>pheap := h\<rparr>)"
proof -
  have b: "bump_ok (pheap P)" and r: "bump_base (pheap P) + (unat (lay_size l) + unat (lay_align l)) \<le> unat (heap_start (pheap P)) + 2 ^ 20"
    using assms(1) by (simp_all add: console_ready_def)
  obtain a where a: "unat (lay_align l) dvd unat a" "bump_base (pheap P) \<le> unat a" "unat a < bump_base (pheap P) + unat (lay_align l)"
    "unat (a + lay_size l) = unat a + unat (lay_size l)" "bump_alloc (pheap P) l = Some (Some a, (pheap P)\<lparr>bump_next := a + lay_size l\<rparr>)"
    using bump_alloc_spec [OF b assms(2)] r by fastforce
  let ?h = "(pheap P)\<lparr>bump_next := a + lay_size l\<rparr>"
  have pos: "0 < unat a" using a(2) b by (simp add: bump_ok_def)
  then have nx: "bump_base ?h = unat a + unat (lay_size l)" using a(4) by (auto simp: bump_base_def)
  have "bump_ok ?h" using b a(2,3) r unfolding bump_ok_def nx by simp
  then have "console_ready F (unat (lay_size l) + unat (lay_align l) + n) P \<Longrightarrow> console_ready F n (P\<lparr>pheap := ?h\<rparr>)" for n
    using a(3) nx by (auto simp: console_ready_def)
  then have "prints F (unat (lay_size l) + unat (lay_align l)) [] P (P\<lparr>pheap := ?h\<rparr>)" by (auto simp: prints_def on_com1_def)
  moreover have "a \<noteq> 0" using pos by auto
  ultimately show ?thesis using a(1,5) unfolding net_alloc_bump by blast
qed

lemma queue_layout_ok: "layout_ok queue_layout" "unat (lay_size queue_layout) = 6664" "unat (lay_align queue_layout) = 4096"
  unfolding layout_ok_def
  by (auto simp: queue_layout_def desc_bytes_def avail_bytes_def used_bytes_def QUEUE_SIZE_def intro: exI [of _ 12])

definition queue_text :: "u8 list" where
  "queue_text = bytes (line ''[virtio] init start'') @ bytes (line ''[virtio] alloc_zeroed'') @ bytes (line ''[virtio] QUEUE_SEL'')
     @ bytes (line ''[virtio] QUEUE_PFN'') @ bytes (line ''[virtio] init done'')"

lemma queue_start_ok:
  assumes "console_ready F 10760 P" and "unat base + 16 < 2 ^ 16"
  shows "\<exists>ptr q P'. queue_start base qi P = Some (q, P') \<and> virtqueue_init ptr base qi = Some q \<and> 4096 dvd unat ptr \<and> prints F 10760 queue_text P P'"
proof -
  let ?P1 = "dbg_str (line ''[virtio] alloc_zeroed'') (dbg_str (line ''[virtio] init start'') P)"
  have p1: "prints F 0 (bytes (line ''[virtio] init start'') @ bytes (line ''[virtio] alloc_zeroed'')) P ?P1" by (intro prints_dbg dbg_str_prints)
  have "console_ready F 10760 ?P1" using prints_ready [OF p1] assms(1) by simp
  then obtain a h where a: "net_alloc (pheap ?P1) queue_layout = Some (Some a, h)" "a \<noteq> 0" "4096 dvd unat a"
    and pa: "prints F 10760 [] ?P1 (?P1\<lparr>pheap := h\<rparr>)"
    using net_alloc_room [of F queue_layout ?P1] queue_layout_ok by auto
  have "checked_add base 14 = Some (base + 14)" "checked_add base 8 = Some (base + 8)" using assms(2) by (simp_all add: checked_add_def)
  then obtain q where q: "virtqueue_init a base qi = Some q" using a(2) by (auto simp: virtqueue_init_def out_port_def Let_def)
  have "prints F 10760 queue_text P (dbg_str (line ''[virtio] init done'') (dbg_str (line ''[virtio] QUEUE_PFN'')
      (dbg_str (line ''[virtio] QUEUE_SEL'') (?P1\<lparr>pheap := h\<rparr>))))"
    using prints_dbg [OF prints_dbg [OF prints_dbg [OF prints_trans [OF p1 pa]]]] by (simp add: queue_text_def)
  then show ?thesis unfolding queue_start_def using a q by auto
qed

definition main_text :: "u8 list" where
  "main_text = bytes (line ''[main] init rx_queue'') @ queue_text @ bytes (line ''[main] init tx_queue'') @ queue_text
     @ bytes (line ''[main] queues done'') @ bytes (line ''[main] device created'') @ bytes (line ''[main] test alloc'')
     @ bytes (line ''[main] vec created, len=0000'')"

lemma test_alloc_ok:
  assumes "console_ready F 65 P"
  shows "\<exists>P'. test_alloc P = Some P' \<and> prints F 65 (bytes (line ''[main] vec created, len=0000'')) P P'"
proof -
  let ?l = "\<lparr>lay_size = 64, lay_align = 1\<rparr> :: layout"
  have "layout_ok ?l" unfolding layout_ok_def by (auto intro: exI [of _ 0])
  then obtain a h where a: "net_alloc (pheap P) ?l = Some (Some a, h)" "prints F 65 [] P (P\<lparr>pheap := h\<rparr>)"
    using net_alloc_room [of F ?l P] assms by auto
  let ?d = "bytes ''0000'' @ [10]"
  have "prints F 65 (bytes ''[main] vec created, len='' @ ?d) P (fold dbg_outb ?d (dbg_str ''[main] vec created, len='' (P\<lparr>pheap := h\<rparr>)))"
    using prints_trans [OF prints_dbg [OF a(2), where s = "''[main] vec created, len=''"] fold_dbg_prints [where bs = ?d]] by simp
  moreover have "test_alloc P = Some (fold dbg_outb ?d (dbg_str ''[main] vec created, len='' (P\<lparr>pheap := h\<rparr>)))"
    using a(1) by (simp add: test_alloc_def hex_nibble_def bytes_def)
  ultimately show ?thesis by (simp add: line_def bytes_def)
qed

lemma net_queues_ok:
  assumes r: "console_ready F 21585 P" and b: "unat (pci_bar0 dev) + 16 < 2 ^ 16"
  shows "\<exists>p0 p1 rx tx P'. net_queues dev P = Some (device_new rx tx, P') \<and> virtqueue_init p0 (pci_bar0 dev) 0 = Some rx
    \<and> virtqueue_init p1 (pci_bar0 dev) 1 = Some tx \<and> 4096 dvd unat p0 \<and> 4096 dvd unat p1 \<and> prints F 21585 main_text P P'"
proof -
  let ?Q = "dbg_str (line ''[main] init rx_queue'') P"
  have d0: "prints F 0 (bytes (line ''[main] init rx_queue'')) P ?Q" by (rule dbg_str_prints)
  have "console_ready F 10760 ?Q" using prints_ready [OF d0, of 10760] prints_weaken [OF d0, of 10825] r prints_ready by fastforce
  then obtain p0 rx P1 where 1: "queue_start (pci_bar0 dev) 0 ?Q = Some (rx, P1)" "virtqueue_init p0 (pci_bar0 dev) 0 = Some rx" "4096 dvd unat p0"
    "prints F 10760 queue_text ?Q P1" using queue_start_ok [OF _ b] by blast
  let ?R = "dbg_str (line ''[main] init tx_queue'') P1"
  have d1: "prints F 10760 (bytes (line ''[main] init rx_queue'') @ queue_text @ bytes (line ''[main] init tx_queue'')) P ?R"
    using prints_dbg [OF prints_trans [OF d0 1(4)]] by simp
  then have "console_ready F 10760 ?R" using prints_ready [OF prints_weaken [OF d1, of 10825], of 10760] r by simp
  then obtain p1 tx P2 where 2: "queue_start (pci_bar0 dev) 1 ?R = Some (tx, P2)" "virtqueue_init p1 (pci_bar0 dev) 1 = Some tx" "4096 dvd unat p1"
    "prints F 10760 queue_text ?R P2" using queue_start_ok [OF _ b] by blast
  let ?S = "dbg_str (line ''[main] test alloc'') (dbg_str (line ''[main] device created'') (dbg_str (line ''[main] queues done'') P2))"
  let ?t = "(((bytes (line ''[main] init rx_queue'') @ queue_text @ bytes (line ''[main] init tx_queue'')) @ queue_text)
      @ bytes (line ''[main] queues done'')) @ bytes (line ''[main] device created'')"
  have d2: "prints F (10760 + 10760) (?t @ bytes (line ''[main] test alloc'')) P ?S" by (intro prints_dbg prints_trans [OF d1 2(4)])
  have "console_ready F 65 ?S" using prints_ready [OF d2, of 65] r by simp
  then obtain P' where P': "test_alloc ?S = Some P'" "prints F 65 (bytes (line ''[main] vec created, len=0000'')) ?S P'" using test_alloc_ok by blast
  then have "net_queues dev P = Some (device_new rx tx, P')" using 1(1) 2(1) by (simp add: net_queues_def)
  moreover have "prints F 21585 main_text P P'" using prints_trans [OF d2 P'(2)] by (simp add: main_text_def)
  ultimately show ?thesis using 1(2,3) 2(2,3) by blast
qed

text \<open>With a card at a port range that does not wrap around, the server initialises both queues, at page boundaries of its heap, and says so;
  without a card it prints two lines and leaves \<^verbatim>\<open>main\<close>.\<close>

definition setup_text :: "pci_device \<Rightarrow> u8 list" where
  "setup_text dev = line_bytes [bytes ''[net-server] starting virtio-net driver...'']
     @ line_bytes [bytes ''[net-server] found virtio-net at PCI bus='', dec (unat (pci_bus dev)), bytes '' slot='', dec (unat (pci_slot dev))]
     @ main_text @ line_bytes [bytes ''[net-server] configuring smoltcp...'']"

lemma net_setup_card:
  assumes r: "console_ready F 22353 P" and c: "find_virtio_net config = Some dev" and b: "unat (pci_bar0 dev) + 16 < 2 ^ 16"
  shows "\<exists>p0 p1 rx tx P'. net_setup E base config P = Some (Some (device_new rx tx), P') \<and> virtqueue_init p0 (pci_bar0 dev) 0 = Some rx
    \<and> virtqueue_init p1 (pci_bar0 dev) 1 = Some tx \<and> 4096 dvd unat p0 \<and> 4096 dvd unat p1 \<and> prints F 22353 (setup_text dev) P P'"
proof -
  have less: "console_ready F n Q" if "console_ready F m Q" "n \<le> m" for n m Q using that by (auto simp: console_ready_def)
  let ?a = "[bytes ''[net-server] starting virtio-net driver...'']" and ?z = "[bytes ''[net-server] configuring smoltcp...'']"
  let ?f = "[bytes ''[net-server] found virtio-net at PCI bus='', dec (unat (pci_bus dev)), bytes '' slot='', dec (unat (pci_slot dev))]"
  obtain P1 where 1: "net_println E base ?a P = Some P1" "prints F 256 (line_bytes ?a) P P1"
    using net_println_prints [OF less [OF r, of 256], of E base ?a] by auto
  have r1: "console_ready F 22097 P1" using prints_ready [OF 1(2), of 22097] r by simp
  obtain P2 where 2: "net_println E base ?f P1 = Some P2" "prints F 256 (line_bytes ?f) P1 P2"
    using net_println_prints [OF less [OF r1, of 256], of E base ?f] by auto
  have r2: "console_ready F 21841 P2" using prints_ready [OF 2(2), of 21841] r1 by simp
  obtain p0 p1 rx tx P3 where 3: "net_queues dev P2 = Some (device_new rx tx, P3)" "virtqueue_init p0 (pci_bar0 dev) 0 = Some rx"
    "virtqueue_init p1 (pci_bar0 dev) 1 = Some tx" "4096 dvd unat p0" "4096 dvd unat p1" "prints F 21585 main_text P2 P3"
    using net_queues_ok [OF less [OF r2] b] by auto
  have r3: "console_ready F 256 P3" using prints_ready [OF 3(6), of 256] r2 by simp
  obtain P4 where 4: "net_println E base ?z P3 = Some P4" "prints F 256 (line_bytes ?z) P3 P4" using net_println_prints [OF r3] by blast
  have "prints F 22353 (setup_text dev) P P4"
    using prints_trans [OF 1(2) prints_trans [OF 2(2) prints_trans [OF 3(6) 4(2)]]] by (simp add: setup_text_def)
  moreover have "net_setup E base config P = Some (Some (device_new rx tx), P4)" using 1(1) 2(1) 3(1) 4(1) c by (simp add: net_setup_def)
  ultimately show ?thesis using 3(2-5) by blast
qed

lemma net_setup_no_card:
  assumes "console_ready F 512 P" and "find_virtio_net config = None"
  shows "\<exists>P'. net_setup E base config P = Some (None, P') \<and> prints F 512 (line_bytes [bytes ''[net-server] starting virtio-net driver...'']
    @ line_bytes [bytes ''[net-server] ERROR: virtio-net device not found!'']) P P'"
proof -
  let ?a = "[bytes ''[net-server] starting virtio-net driver...'']" and ?z = "[bytes ''[net-server] ERROR: virtio-net device not found!'']"
  have "console_ready F 256 P" using assms(1) by (simp add: console_ready_def)
  then obtain P1 where 1: "net_println E base ?a P = Some P1" "prints F 256 (line_bytes ?a) P P1" using net_println_prints by blast
  have "console_ready F 256 P1" using prints_ready [OF 1(2), of 256] assms(1) by simp
  then obtain P2 where 2: "net_println E base ?z P1 = Some P2" "prints F 256 (line_bytes ?z) P1 P2" using net_println_prints by blast
  show ?thesis using 1(1) 2(1) prints_trans [OF 1(2) 2(2)] assms(2) by (simp add: net_setup_def)
qed

section \<open>Properties of the loop\<close>

text \<open>The clock of the stack is the number of polls: whatever a poll maintains, the loop maintains, and its time is the number of the round.\<close>

lemma polls_n_clock:
  assumes "\<And>t x. I t x \<Longrightarrow> \<exists>y. poll t x = Some y \<and> I (t + 1) y"
  shows "I (poll_count S) (iface S, device S, prog S) \<Longrightarrow> unat (poll_count S) + n < 2 ^ 64 \<Longrightarrow>
    \<exists>S'. polls_n n poll S = Some S' \<and> I (poll_count S') (iface S', device S', prog S') \<and> poll_count S' = poll_count S + of_nat n"
proof (induction n arbitrary: S)
  case (Suc n)
  obtain i d P where y: "poll (poll_count S) (iface S, device S, prog S) = Some (i, d, P)" "I (poll_count S + 1) (i, d, P)"
    using assms [OF Suc.prems(1)] by (metis prod_cases3)
  have c: "checked_add (poll_count S) 1 = Some (poll_count S + 1)" "unat (poll_count S + 1) = unat (poll_count S) + 1"
    using Suc.prems(2) by (simp_all add: checked_add_def unat_add_no_wrap)
  let ?S = "\<lparr>iface = i, device = d, prog = P, poll_count = poll_count S + 1\<rparr>"
  have "poll_step poll S = Some ?S" using y(1) c(1) by (simp add: poll_step_def)
  then show ?case using Suc.IH [of ?S] y(2) c(2) Suc.prems(2) by (auto simp: add.assoc)
qed simp

section \<open>Properties of the earlier driver\<close>

definition buffers_ok :: "net_device \<Rightarrow> bool" where
  "buffers_ok d \<longleftrightarrow> rx_buffers d = replicate 32 (replicate 2048 0) \<and> tx_buffers d = replicate 32 (replicate 2048 0)
     \<and> rx_index d < 32 \<and> tx_index d < 32"

lemma net_device_new_ok: "buffers_ok (net_device_new a m)" "rx_index (net_device_new a m) = 0" "tx_index (net_device_new a m) = 0"
proof -
  let ?d = "\<lparr>mac_address = m, mmio_base = a, rx_buffers = [], tx_buffers = [], rx_index = 0, tx_index = 0, mmio_log = []\<rparr>"
  have "fold (\<lambda>_ d. d\<lparr>rx_buffers := rx_buffers d @ [replicate 2048 0], tx_buffers := tx_buffers d @ [replicate 2048 0]\<rparr>) [0 ..< n] ?d
      = ?d\<lparr>rx_buffers := replicate n (replicate 2048 0), tx_buffers := replicate n (replicate 2048 0)\<rparr>" for n
    by (induction n) (simp_all add: replicate_append_same)
  from this [of 32] have "net_device_new a m = ?d\<lparr>rx_buffers := replicate 32 (replicate 2048 0), tx_buffers := replicate 32 (replicate 2048 0)\<rparr>"
    unfolding net_device_new_def .
  then show "buffers_ok (net_device_new a m)" "rx_index (net_device_new a m) = 0" "tx_index (net_device_new a m) = 0" by (simp_all add: buffers_ok_def)
qed

text \<open>Every transmission gets a buffer, the \<open>k\<close>-th the one of number \<open>k mod 32\<close>, but it is a copy that no one reads: what the stack writes is lost.\<close>

primrec transmissions :: "nat \<Rightarrow> net_device \<Rightarrow> u8 list option list \<times> net_device" where
  "transmissions 0 d = ([], d)"
| "transmissions (Suc n) d = (let (t, d1) = net_transmit d; (ts, d2) = transmissions n d1 in (t # ts, d2))"

lemma transmissions_lost:
  "buffers_ok d \<Longrightarrow> \<exists>d'. transmissions n d = (replicate n (Some (replicate 2048 0)), d') \<and> buffers_ok d'
     \<and> tx_index d' = (tx_index d + n) mod 32 \<and> mmio_log d' = mmio_log d"
proof (induction n arbitrary: d)
  case 0
  then show ?case by (simp add: buffers_ok_def)
next
  case (Suc n)
  let ?d = "d\<lparr>tx_index := (tx_index d + 1) mod 32\<rparr>"
  have "net_transmit d = (Some (replicate 2048 0), ?d)"
    using Suc.prems by (simp add: net_transmit_def next_tx_buffer_def buffers_ok_def)
  moreover have "buffers_ok ?d" using Suc.prems by (simp add: buffers_ok_def)
  from Suc.IH [OF this] obtain d' where "transmissions n ?d = (replicate n (Some (replicate 2048 0)), d')" "buffers_ok d'"
    "tx_index d' = ((tx_index d + 1) mod 32 + n) mod 32" "mmio_log d' = mmio_log d" by auto
  ultimately show ?case by (simp add: mod_simps)
qed

lemma net_tx_consume_panics: "net_tx_consume (replicate 2048 0) n f = None \<longleftrightarrow> 2048 < n"
  by (auto simp: net_tx_consume_def)

text \<open>The initialisation ends with the bits of the first two steps taken back, and a base above 4 GiB is not the one written to.\<close>

lemma net_device_init_writes:
  assumes "unat (ucast (mmio_base d) :: u32) + 0x18 < 2 ^ 32"
  shows "\<exists>d'. net_device_init mmio d = Some d' \<and> mmio_log d' = mmio_log d @
    (let a = \<lambda>off. ucast (ucast (mmio_base d) + off :: u32) in [(a 0x18, 0), (a 0x18, 1), (a 0x18, 2), (a 0x04, 0), (a 0x18, 4)])"
proof -
  have "checked_add (ucast (mmio_base d) :: u32) off = Some (ucast (mmio_base d) + off)" if "off \<le> 0x18" for off
    using that assms by (simp add: checked_add_def word_le_nat_alt)
  then have "reg_addr (d\<lparr>mmio_log := l\<rparr>) off = Some (ucast (ucast (mmio_base d) + off :: u32))" if "off \<le> 0x18" for off l
    using that by (simp add: reg_addr_def)
  note a = this this [of _ "mmio_log d", simplified]
  show ?thesis by (simp add: net_device_init_def write_reg_def read_reg_def a Let_def)
qed

end
