(* ===== verification/UserDuck.thy ===== *)
theory UserDuck
  imports Println
begin

text \<open>
  The second copy of the service manager, \<^verbatim>\<open>userspace/dealduck\<close>. Its units, calls and decisions are those of \<open>Dealduck\<close>, with each line it prints;
  its loop waits with \<^verbatim>\<open>hlt\<close> where the other copy yields. A piece of text lies where \<open>piece\<close> says, as address and length.
\<close>

section \<open>The manager\<close>

definition say :: "'v env \<Rightarrow> u64 \<Rightarrow> (u8 list \<Rightarrow> u64 \<times> u64) \<Rightarrow> u8 list list \<Rightarrow> kernel \<Rightarrow> kernel option" where
  "say E base piece ps K = user_println E base (fst (piece [10])) (map piece ps) K"

primrec user_start_all :: "'v env \<Rightarrow> u64 \<Rightarrow> (u8 list \<Rightarrow> u64 \<times> u64) \<Rightarrow> manager \<Rightarrow> kernel \<Rightarrow> (manager \<times> kernel) option" where
  "user_start_all E base piece [] K = Some ([], K)"
| "user_start_all E base piece (u # us) K =
     do {
       (r, K1) \<leftarrow> spawn E base (exec_path u) K;
       (u', K2) \<leftarrow>
         (case r of
            Some p \<Rightarrow> do {
              K2 \<leftarrow> say E base piece [bytes ''[dealduck] started '', bytes (unit_name u), bytes '' (pid='', dec (unat p), bytes '')''] K1;
              Some (u\<lparr>unit_state := Running, unit_pid := Some p\<rparr>, K2) }
          | None \<Rightarrow> do {
              K2 \<leftarrow> say E base piece [bytes ''[dealduck] FAILED to start '', bytes (unit_name u)] K1;
              Some (u\<lparr>unit_state := Failed\<rparr>, K2) });
       (us', K3) \<leftarrow> user_start_all E base piece us K2;
       Some (u' # us', K3)
     }"

definition user_check_unit ::
  "'v env \<Rightarrow> u64 \<Rightarrow> (u8 list \<Rightarrow> u64 \<times> u64) \<Rightarrow> service_unit \<Rightarrow> kernel \<Rightarrow> (service_unit \<times> kernel) option" where
  "user_check_unit E base piece u K =
     (if unit_state u = Running then
        (case unit_pid u of
           None \<Rightarrow> Some (u, K)
         | Some p \<Rightarrow>
             do {
               (status, K1) \<leftarrow> waitpid_nonblock E base p K;
               if status = Some 0 \<or> (case status of Some s \<Rightarrow> sint s < 0 | None \<Rightarrow> False) then
                 let u1 = u\<lparr>unit_state := Failed\<rparr> in
                 do {
                   K2 \<leftarrow> say E base piece [bytes ''[dealduck] '', bytes (unit_name u), bytes '' exited, restarting...''] K1;
                   if restart u1 = OnFailure then
                     do {
                       (r, K3) \<leftarrow> spawn E base (exec_path u1) K2;
                       Some (case r of Some new_pid \<Rightarrow> u1\<lparr>unit_state := Running, unit_pid := Some new_pid\<rparr> | None \<Rightarrow> u1, K3)
                     }
                   else Some (u1, K2)
                 }
               else Some (u, K1)
             })
      else Some (u, K))"

primrec user_check_units ::
  "'v env \<Rightarrow> u64 \<Rightarrow> (u8 list \<Rightarrow> u64 \<times> u64) \<Rightarrow> manager \<Rightarrow> kernel \<Rightarrow> (manager \<times> kernel) option" where
  "user_check_units E base piece [] K = Some ([], K)"
| "user_check_units E base piece (u # us) K =
     do {
       (u', K1) \<leftarrow> user_check_unit E base piece u K;
       (us', K2) \<leftarrow> user_check_units E base piece us K1;
       Some (u' # us', K2)
     }"

text \<open>\<^verbatim>\<open>hlt\<close> is reserved to privilege level 0; elsewhere it raises the exception of vector 13, the general protection fault.\<close>

definition hlt :: "nat \<Rightarrow> nat option" where
  "hlt cpl = (if cpl = 0 then None else Some 13)"

definition user_round ::
  "'v env \<Rightarrow> u64 \<Rightarrow> (u8 list \<Rightarrow> u64 \<times> u64) \<Rightarrow> nat \<Rightarrow> manager \<Rightarrow> kernel \<Rightarrow> (manager \<times> kernel \<times> nat option) option" where
  "user_round E base piece cpl us K = do { (us', K') \<leftarrow> user_check_units E base piece us K; Some (us', K', hlt cpl) }"

text \<open>\<^verbatim>\<open>run\<close>: rounds up to the first exception.\<close>

partial_function (option) user_run ::
  "'v env \<Rightarrow> u64 \<Rightarrow> (u8 list \<Rightarrow> u64 \<times> u64) \<Rightarrow> nat \<Rightarrow> manager \<Rightarrow> kernel \<Rightarrow> (manager \<times> kernel \<times> nat) option" where
  "user_run E base piece cpl us K =
     do {
       (us', K', x) \<leftarrow> user_round E base piece cpl us K;
       (case x of Some v \<Rightarrow> Some (us', K', v) | None \<Rightarrow> user_run E base piece cpl us' K')
     }"

definition user_setup ::
  "'v env \<Rightarrow> u64 \<Rightarrow> (u8 list \<Rightarrow> u64 \<times> u64) \<Rightarrow> kernel \<Rightarrow> (manager \<times> kernel) option" where
  "user_setup E base piece K =
     do {
       K1 \<leftarrow> say E base piece [bytes ''[dealduck] PINDOS service manager starting...''] K;
       K2 \<leftarrow> say E base piece [bytes ''[dealduck] PID 1''] K1;
       let us = register_unit manager_new ''net-server'' (piece (bytes ''/usr/bin/net-server''));
       K3 \<leftarrow> say E base piece [bytes ''[dealduck] starting services...''] K2;
       (us', K4) \<leftarrow> user_start_all E base piece us K3;
       K5 \<leftarrow> say E base piece [bytes ''[dealduck] all services started, entering monitor loop''] K4;
       Some (us', K5)
     }"

definition user_dealduck_start ::
  "'v env \<Rightarrow> u64 \<Rightarrow> (u8 list \<Rightarrow> u64 \<times> u64) \<Rightarrow> kernel \<Rightarrow> (manager \<times> kernel \<times> nat) option" where
  "user_dealduck_start E base piece K = do { (us, K') \<leftarrow> user_setup E base piece K; user_run E base piece 3 us K' }"

section \<open>Its only round\<close>

lemma syscall3_step: "syscall3 E base nr a b c K = Some (v, K') \<Longrightarrow> kernel_step E K K'"
  by (auto simp: syscall3_def split: option.splits outcome.splits intro: step_syscall)

lemma user_print_steps: "user_print E base bs K = Some K' \<Longrightarrow> (kernel_step E)\<^sup>*\<^sup>* K K'"
proof (induction bs arbitrary: K)
  case (Cons b bs)
  obtain ok K1 where 1: "serial_write_str E base b K = Some (ok, K1)" "(if ok then user_print E base bs K1 else Some K1) = Some K'"
    using Cons.prems by (auto simp: bind_intros)
  have "kernel_step E K K1" using 1(1) by (auto simp: serial_write_str_def bind_intros dest: syscall3_step)
  moreover have "(kernel_step E)\<^sup>*\<^sup>* K1 K'" using 1(2) Cons.IH by (auto split: if_splits)
  ultimately show ?case by (rule converse_rtranclp_into_rtranclp)
qed simp

lemma say_steps: "say E base piece ps K = Some K' \<Longrightarrow> (kernel_step E)\<^sup>*\<^sup>* K K'"
  unfolding say_def user_println_def by (auto simp only: bind_intros dest!: user_print_steps intro: rtranclp_trans)

lemma units_known_steps: "(kernel_step E)\<^sup>*\<^sup>* K K' \<Longrightarrow> units_known (us, K) \<Longrightarrow> units_known (us, K')"
  by (induction rule: rtranclp_induct) (auto intro: units_known_step)

lemma user_start_all_known:
  "user_start_all E base piece us K = Some (us', K') \<Longrightarrow> others_alive K \<Longrightarrow> units_known (us', K') \<and> (kernel_step E)\<^sup>*\<^sup>* K K'"
proof (induction us arbitrary: us' K)
  case Nil
  then show ?case by (simp add: units_known_def)
next
  case (Cons u us)
  obtain r K1 where r: "spawn E base (exec_path u) K = Some (r, K1)" using Cons.prems(1) by (auto simp: bind_intros)
  obtain u' K2 us1 where sp: "user_start_all E base piece us K2 = Some (us1, K')" and us': "us' = u' # us1" and s: "(kernel_step E)\<^sup>*\<^sup>* K1 K2"
    and u': "u' = (case r of Some p \<Rightarrow> u\<lparr>unit_state := Running, unit_pid := Some p\<rparr> | None \<Rightarrow> u\<lparr>unit_state := Failed\<rparr>)"
    using Cons.prems(1) r by (cases r) (auto simp: bind_intros dest!: say_steps)
  have k: "kernel_step E K K1" using r by (auto simp: spawn_def bind_intros dest: do_syscall_step)
  have o1: "others_alive K1" using kernel_step_others_alive [OF k Cons.prems(2)] .
  have IH: "units_known (us1, K')" "(kernel_step E)\<^sup>*\<^sup>* K2 K'" using Cons.IH [OF sp kernel_run_others_alive [OF s o1]] by simp_all
  have "units_known ([u'], K1)" using o1 u' spawn_number [of E base "exec_path u" K _ K1] r Cons.prems(2)
    by (auto simp: units_known_def split: option.splits)
  then have "units_known ([u'], K')" using units_known_steps s IH(2) by blast
  then show ?case using IH us' k s by (auto simp: units_known_def)
qed

lemma user_check_units_same:
  assumes "\<forall>u \<in> set us. unit_pid u \<noteq> Some 1"
  shows "units_known (us, K) \<Longrightarrow> user_check_units E base piece us K = Some (us, K)"
  using assms
proof (induction us)
  case (Cons u us)
  have "user_check_unit E base piece u K = Some (u, K)"
    using Cons.prems waitpid_nonblock_running [of K _ E base]
    by (cases "unit_pid u") (auto simp: user_check_unit_def units_known_def)
  then show ?case using Cons by (auto simp: units_known_def)
qed simp

text \<open>Whatever the kernel has answered up to then, the loop ends in its first round, with all units as they were started, in an exception.\<close>

lemma user_manager_faults:
  assumes "boot_state K0" and "(kernel_step E)\<^sup>*\<^sup>* K0 K" and "user_setup E base piece K = Some (us, K1)" and "\<forall>u \<in> set us. unit_pid u \<noteq> Some 1"
  shows "user_dealduck_start E base piece K = Some (us, K1, 13)"
proof -
  have o: "others_alive K" using kernel_run_others_alive [OF assms(2) boot_state_others_alive [OF assms(1)]] .
  obtain Ka Kb K3 K4 where sy: "say E base piece [bytes ''[dealduck] PINDOS service manager starting...''] K = Some Ka"
    "say E base piece [bytes ''[dealduck] PID 1''] Ka = Some Kb" "say E base piece [bytes ''[dealduck] starting services...''] Kb = Some K3"
    and sa: "user_start_all E base piece (register_unit manager_new ''net-server'' (piece (bytes ''/usr/bin/net-server''))) K3 = Some (us, K4)"
    and sz: "say E base piece [bytes ''[dealduck] all services started, entering monitor loop''] K4 = Some K1"
    using assms(3) by (auto simp: user_setup_def bind_intros Let_def)
  have st: "(kernel_step E)\<^sup>*\<^sup>* K K3" using sy [THEN say_steps] by (meson rtranclp_trans)
  have "units_known (us, K4)" using user_start_all_known [OF sa kernel_run_others_alive [OF st o]] by blast
  then have "units_known (us, K1)" using units_known_steps [OF say_steps [OF sz]] by blast
  then have "user_round E base piece 3 us K1 = Some (us, K1, Some 13)"
    using user_check_units_same [OF assms(4), of K1 E base piece] by (simp add: user_round_def hlt_def)
  then show ?thesis using assms(3) by (simp add: user_dealduck_start_def) (subst user_run.simps, simp)
qed

end
