(* ===== verification/Mb2Entry.thy ===== *)
theory Mb2Entry
  imports Multiboot Serial Idt
begin

text \<open>
  \<^verbatim>\<open>hammam/src/multiboot2_entry.rs\<close>, an earlier entry point of the kernel that \<^verbatim>\<open>main.rs\<close> no longer declares as a module: its interrupt table,
  its output routines over the serial port of \<open>Serial\<close>, its report of the boot loader's words and its list of the
  Multiboot2 tags.
\<close>

section \<open>Interrupt table\<close>

definition mb2_gate :: "u64 \<Rightarrow> idt_entry" where
  "mb2_gate handler =
     \<lparr>offset_low = ucast (handler AND 0xFFFF), gate_selector = 0x08, ist = 0, gate_flags = 0x8E,
      offset_mid = ucast (drop_bit 16 handler AND 0xFFFF), offset_high = ucast (drop_bit 32 handler AND 0xFFFFFFFF), gate_reserved = 0\<rparr>"

text \<open>
  \<^verbatim>\<open>IDTR\<close> is not packed: its base lies eight bytes behind its start, and six bytes of padding, which are zero in a static, behind the limit.
  \<^verbatim>\<open>lidt\<close> reads the ten bytes from its start.
\<close>

definition mb2_idtr_bytes :: "u16 \<Rightarrow> u64 \<Rightarrow> u8 list" where
  "mb2_idtr_bytes limit idt_ptr = le_bytes 2 (unat limit) @ replicate 6 0 @ le_bytes 8 (unat idt_ptr)"

definition lidt :: "u8 list \<Rightarrow> idtr" where
  "lidt bs = \<lparr>idtr_limit = of_nat (le_nat (take 2 bs)), idtr_base = of_nat (le_nat (take 8 (drop 2 bs)))\<rparr>"

definition setup_idt :: "u64 \<Rightarrow> u64 \<Rightarrow> idt_entry list \<Rightarrow> idt_entry list \<times> idtr" where
  "setup_idt handler_addr idt_ptr t =
     (fold (\<lambda>i t. t[i := mb2_gate handler_addr]) [0 ..< 256] t, lidt (mb2_idtr_bytes (of_nat (16 * 256 - 1)) idt_ptr))"

section \<open>Output\<close>

partial_function (option) wait_ready :: "uart \<Rightarrow> uart option" where
  "wait_ready u = (let lsr = line_status u (polls u); u' = u\<lparr>polls := polls u + 1\<rparr> in if lsr AND 0x20 \<noteq> 0 then Some u' else wait_ready u')"

primrec print_str :: "uart \<Rightarrow> u8 list \<Rightarrow> uart option" where
  "print_str u [] = Some u"
| "print_str u (b # bs) =
     do {
       u1 \<leftarrow> wait_ready u;
       let u2 = outb u1 0 (if b = 10 then 13 else b);
       u3 \<leftarrow> (if b = 10 then do { v \<leftarrow> wait_ready u2; Some (outb v 0 10) } else Some u2);
       print_str u3 bs
     }"

definition direct_init :: "uart \<Rightarrow> uart" where
  "direct_init u = outb (outb (outb (outb (outb (outb (outb u 1 0x00) 3 0x80) 0 0x03) 1 0x00) 3 0x03) 2 0xC7) 4 0x0B"

text \<open>The hexadecimal digits go out without waiting for the port.\<close>

definition hex_char :: "u8 \<Rightarrow> u8" where
  "hex_char nibble = (if nibble < 10 then of_char CHR ''0'' + nibble else of_char CHR ''A'' + (nibble - 10))"

primrec hex_out :: "nat \<Rightarrow> u64 \<Rightarrow> uart \<Rightarrow> uart" where
  "hex_out 0 v u = u"
| "hex_out (Suc i) v u = hex_out i v (outb u 0 (hex_char (ucast (drop_bit (i * 4) v AND 0xF))))"

definition text_of :: "string \<Rightarrow> u8 list" where
  "text_of s = map of_char s"

definition nl :: string where
  "nl = [CHR 0x0A]"

definition banner :: "u8 list" where
  "banner = text_of (''===================================================='' @ nl
     @ ''      PINDOS OS - Hammam Kernel (Multiboot2)       '' @ nl
     @ ''===================================================='' @ nl
     @ ''[OK] IDT initialized with 256 entries'' @ nl @ ''[OK] Exception handlers installed'' @ nl @ nl)"

definition invalid_text :: "u8 list" where
  "invalid_text = text_of (''[ERROR] Invalid Multiboot2 magic! Halting...'' @ nl)"

definition ready_text :: "u8 list" where
  "ready_text = text_of (nl @ ''Multiboot2 magic is valid!'' @ nl @ ''Parsing Multiboot2 tags...'' @ nl @ ''Multiboot2 tags parsing skipped for now'' @ nl
     @ nl @ ''Kernel initialized via Multiboot2'' @ nl @ ''System is ready.'' @ nl @ nl @ ''*** Hammam kernel halted ***'' @ nl)"

definition MULTIBOOT2_MAGIC :: u32 where "MULTIBOOT2_MAGIC = 0x36d76289"

text \<open>The entry point ends in one of its two halt loops: whether it accepted the magic number, and the port then.\<close>

definition mb2_report :: "u64 \<Rightarrow> u64 \<Rightarrow> uart \<Rightarrow> (bool \<times> uart) option" where
  "mb2_report magic boot_info_addr u =
     do {
       let u1 = outb (direct_init (outb u 0 (of_char CHR ''P''))) 0 (of_char CHR ''Q'');
       u2 \<leftarrow> print_str u1 banner;
       let magic_u32 = (ucast magic :: u32);
       u3 \<leftarrow> print_str u2 (text_of ''Boot magic: 0x'');
       u4 \<leftarrow> print_str (hex_out 8 (ucast magic_u32) u3) (text_of nl);
       u5 \<leftarrow> print_str u4 (text_of ''Boot info at: 0x'');
       u6 \<leftarrow> print_str (hex_out 16 boot_info_addr u5) (text_of nl);
       if magic_u32 \<noteq> MULTIBOOT2_MAGIC then do { u7 \<leftarrow> print_str u6 invalid_text; Some (False, u7) }
       else do { u7 \<leftarrow> print_str u6 ready_text; Some (True, u7) }
     }"

definition mb2_start :: "u64 \<Rightarrow> u64 \<Rightarrow> idt_entry list \<Rightarrow> u64 \<Rightarrow> u64 \<Rightarrow> uart \<Rightarrow> (bool \<times> (idt_entry list \<times> idtr) \<times> uart) option" where
  "mb2_start handler_addr idt_ptr t magic boot_info_addr u =
     do {
       let idt = setup_idt handler_addr idt_ptr t;
       (valid, u') \<leftarrow> mb2_report magic boot_info_addr u;
       Some (valid, idt, u')
     }"

section \<open>The list of tags\<close>

datatype tag_line = TagLine nat u32 string u32 | Terminator nat

definition tag_name :: "u32 \<Rightarrow> string" where
  "tag_name t =
     (if t = 1 then ''Boot command line'' else if t = 2 then ''Bootloader name'' else if t = 3 then ''Module info''
      else if t = 4 then ''Basic memory info'' else if t = 5 then ''BIOS boot device'' else if t = 6 then ''Memory map''
      else if t = 8 then ''Frame buffer'' else if t = 9 then ''ELF symbols'' else if t = 10 then ''APM table''
      else if t = 12 then ''ACPI (old RSDP)'' else if t = 14 then ''ACPI (new RSDP)'' else if t = 15 then ''Network info''
      else if t = 16 then ''SMBIOS'' else if t = 17 then ''ACPI (another variant)'' else if t = 18 then ''Load base address''
      else ''Unknown tag type'')"

text \<open>The lines the loop logs, in order, and the number of tags. Fewer than \<open>2\<^sup>3\<^sup>2\<close> tags fit into the addresses compared, hence a natural number.\<close>

partial_function (option) list_tags :: "memory \<Rightarrow> u64 \<Rightarrow> u64 \<Rightarrow> nat \<Rightarrow> (tag_line list \<times> nat) option" where
  "list_tags m end_ptr tag_ptr tag_count =
     (if (ucast tag_ptr :: u32) < ucast end_ptr then
        let tag = read_tag m tag_ptr in
        if tag_type tag = 0 \<and> tag_size tag = 8 then Some ([Terminator tag_count], tag_count)
        else do {
          padded \<leftarrow> checked_add (tag_size tag) 7;
          (lines, n) \<leftarrow> list_tags m end_ptr (tag_ptr + ucast (padded AND NOT 7)) (tag_count + 1);
          Some (TagLine tag_count (tag_type tag) (tag_name (tag_type tag)) (tag_size tag) # lines, n)
        }
      else Some ([], tag_count))"

definition parse_multiboot2_tags :: "memory \<Rightarrow> u32 \<Rightarrow> (tag_line list \<times> nat) option" where
  "parse_multiboot2_tags m boot_info_addr =
     do {
       end_addr \<leftarrow> checked_add boot_info_addr (load_u32 m (ucast boot_info_addr));
       list_tags m (ucast end_addr) (ucast boot_info_addr + 8) 0
     }"

section \<open>What they do\<close>

text \<open>The handlers are found in the gates, but not the table: the base is read from the padding.\<close>

lemma mb2_gate_offset: "gate_offset (mb2_gate h) = h" "gate_present (mb2_gate h)" "gate_dpl (mb2_gate h) = 0"
proof -
  have "gate_offset (mb2_gate h) = gate_offset (idt_gate h 0)" by (simp add: gate_offset_def mb2_gate_def idt_gate_def)
  then show "gate_offset (mb2_gate h) = h" by (simp add: gate_offset_roundtrip)
  show "gate_present (mb2_gate h)" "gate_dpl (mb2_gate h) = 0" by (simp_all add: gate_present_def gate_dpl_def mb2_gate_def)
qed

lemma mb2_idtr_misread: "idtr_base (snd (setup_idt h idt_ptr t)) = of_nat (unat idt_ptr mod 65536 * 2 ^ 48)"
proof -
  let ?v = "unat idt_ptr"
  have "le_bytes (Suc (Suc 6)) v = of_nat v # of_nat (v div 256) # le_bytes 6 (v div 256 div 256)" for v by (simp only: le_bytes.simps)
  moreover have "Suc (Suc 6) = 8" by simp
  ultimately have "le_bytes 8 ?v = of_nat ?v # of_nat (?v div 256) # le_bytes 6 (?v div 256 div 256)" by (simp only:)
  then have "take 2 (le_bytes 8 ?v) = le_bytes 2 ?v" by (simp only: One_nat_def numeral_2_eq_2 take_Suc_Cons take_0 le_bytes.simps)
  moreover have "take 8 (drop 2 (mb2_idtr_bytes l idt_ptr)) = replicate 6 0 @ take 2 (le_bytes 8 ?v)" for l
    by (simp add: mb2_idtr_bytes_def length_le_bytes)
  moreover have "replicate 6 (0 :: u8) = [0, 0, 0, 0, 0, 0]" by (simp add: numeral_eq_Suc)
  ultimately have "take 8 (drop 2 (mb2_idtr_bytes l idt_ptr)) = [0, 0, 0, 0, 0, 0] @ le_bytes 2 ?v" for l by simp
  moreover have "le_nat ([0, 0, 0, 0, 0, 0] @ le_bytes 2 ?v) = 2 ^ 48 * le_nat (le_bytes 2 ?v)" by simp
  moreover have "le_nat (le_bytes 2 ?v) = ?v mod 65536" by (simp add: le_nat_le_bytes)
  ultimately show ?thesis unfolding setup_idt_def lidt_def by (simp add: mult.commute)
qed

lemma mb2_idtr_limit: "idtr_limit (snd (setup_idt h idt_ptr t)) = 4095"
proof -
  have "take 2 (mb2_idtr_bytes l idt_ptr) = le_bytes 2 (unat l)" for l by (simp add: mb2_idtr_bytes_def length_le_bytes)
  then show ?thesis unfolding setup_idt_def lidt_def by (simp add: le_nat_le_bytes)
qed

lemma setup_idt_gates:
  assumes "length t = 256"
  shows "fst (setup_idt h idt_ptr t) = replicate 256 (mb2_gate h)"
proof -
  have "n \<le> length t \<Longrightarrow> fold (\<lambda>i t. t[i := mb2_gate h]) [0 ..< n] t = replicate n (mb2_gate h) @ drop n t" for n
  proof (induction n)
    case (Suc n)
    then have "drop n t = t ! n # drop (Suc n) t" by (simp add: Cons_nth_drop_Suc)
    with Suc show ?case by (simp add: list_update_append replicate_append_same)
  qed simp
  then show ?thesis using assms by (simp add: setup_idt_def)
qed

lemma wait_ready_then_write:
  assumes "wait_ready u = Some v"
  shows "serial_write_byte u b = Some (outb v 0 b)"
proof (rule wait_ready.raw_induct [where P = "\<lambda>u v. serial_write_byte u b = Some (outb v 0 b)", OF _ assms])
  fix f u v
  assume "\<And>u v. f u = Some v \<Longrightarrow> serial_write_byte u b = Some (outb v 0 b)"
    and "(let lsr = line_status u (polls u); u' = u\<lparr>polls := polls u + 1\<rparr> in if lsr AND 0x20 \<noteq> 0 then Some u' else f u') = Some v"
  then show "serial_write_byte u b = Some (outb v 0 b)"
    by (subst serial_write_byte.simps) (auto simp: is_transmit_empty_def Let_def split: if_splits)
qed

lemma write_then_wait_ready:
  assumes "serial_write_byte u b = Some w"
  shows "\<exists>v. wait_ready u = Some v \<and> w = outb v 0 b"
proof (rule serial_write_byte.raw_induct [where P = "\<lambda>u b w. \<exists>v. wait_ready u = Some v \<and> w = outb v 0 b", OF _ assms])
  fix f u b w
  assume "\<And>u b w. f u b = Some w \<Longrightarrow> \<exists>v. wait_ready u = Some v \<and> w = outb v 0 b"
    and "(case is_transmit_empty u of (e, u') \<Rightarrow> if e then Some (outb u' 0 b) else f u' b) = Some w"
  then show "\<exists>v. wait_ready u = Some v \<and> w = outb v 0 b"
    by (subst wait_ready.simps) (auto simp: is_transmit_empty_def Let_def split: if_splits)
qed

lemma wait_ready_write: "do { v \<leftarrow> wait_ready u; f (outb v 0 b) } = do { w \<leftarrow> serial_write_byte u b; f w }"
proof (cases "wait_ready u")
  case None
  then have "serial_write_byte u b = None" using write_then_wait_ready by (cases "serial_write_byte u b") fastforce+
  then show ?thesis using None by simp
next
  case (Some v)
  then show ?thesis using wait_ready_then_write by simp
qed

text \<open>The private output routine is the one of the serial port.\<close>

lemma print_str_write: "print_str u bs = write_str u bs"
proof (induction bs arbitrary: u)
  case (Cons b bs)
  then show ?case
    using wait_ready_write [where f = "\<lambda>u. write_str u bs"] wait_ready_write [where f = "\<lambda>u. serial_write_byte u 10 \<bind> (\<lambda>u. write_str u bs)"]
    by (simp add: wait_ready_write [where f = Some] Let_def Option.bind_assoc)
qed simp

text \<open>The bytes of a text as they go out, and the digits.\<close>

definition crlf :: "u8 list \<Rightarrow> u8 list" where
  "crlf bs = concat (map (\<lambda>b. if b = 10 then [13, b] else [b]) bs)"

definition hex_digits :: "nat \<Rightarrow> u64 \<Rightarrow> u8 list" where
  "hex_digits n v = map (\<lambda>i. hex_char (ucast (drop_bit (i * 4) v AND 0xF))) (rev [0 ..< n])"

lemma print_str_ok: "drains u \<Longrightarrow> \<exists>u'. print_str u bs = Some u' \<and> transmitted u u' (crlf bs)"
  unfolding print_str_write write_str_crlf crlf_def by (rule serial_write_bytes_ok)

lemma hex_out_ok: "transmitted u (hex_out n v u) (hex_digits n v)"
proof (induction n arbitrary: u)
  case (Suc n)
  let ?c = "hex_char (ucast (drop_bit (n * 4) v AND 0xF))"
  have "transmitted u (outb u 0 ?c) [?c]" by (simp add: transmitted_def outb_def)
  from transmitted_trans [OF this Suc.IH] show ?case by (simp add: hex_digits_def)
qed (simp add: hex_digits_def)

text \<open>On a port that drains, the entry point reaches one of its halt loops, the one that the magic number selects, and has then
  reported both words.\<close>

definition report :: "u64 \<Rightarrow> u64 \<Rightarrow> u8 list" where
  "report magic boot_info_addr =
     crlf banner @ crlf (text_of ''Boot magic: 0x'') @ hex_digits 8 (ucast (ucast magic :: u32)) @ crlf (text_of nl)
     @ crlf (text_of ''Boot info at: 0x'') @ hex_digits 16 boot_info_addr @ crlf (text_of nl)
     @ crlf (if (ucast magic :: u32) = MULTIBOOT2_MAGIC then ready_text else invalid_text)"

definition port_ready :: "uart \<Rightarrow> uart" where
  "port_ready u = outb (direct_init (outb u 0 (of_char CHR ''P''))) 0 (of_char CHR ''Q'')"

lemma mb2_report_ok:
  assumes "drains u"
  shows "\<exists>u'. mb2_report magic a u = Some ((ucast magic :: u32) = MULTIBOOT2_MAGIC, u') \<and> transmitted (port_ready u) u' (report magic a)"
proof -
  let ?m = "ucast (ucast magic :: u32) :: u64" and ?t = "if (ucast magic :: u32) = MULTIBOOT2_MAGIC then ready_text else invalid_text"
  have "drains (port_ready u)" using assms by (simp add: drains_def port_ready_def direct_init_def outb_def)
  moreover from print_str_ok [OF this] obtain u2 where 2: "print_str (port_ready u) banner = Some u2" "transmitted (port_ready u) u2 (crlf banner)"
    by blast
  ultimately have d2: "drains u2" by (blast intro: transmitted_drains)
  from print_str_ok [OF d2] obtain u3 where 3: "print_str u2 (text_of ''Boot magic: 0x'') = Some u3" "transmitted u2 u3 (crlf (text_of ''Boot magic: 0x''))"
    by blast
  note h3 = transmitted_trans [OF 3(2) hex_out_ok [of u3 8 ?m]]
  from print_str_ok [OF transmitted_drains [OF h3 d2]] obtain u4
    where 4: "print_str (hex_out 8 ?m u3) (text_of nl) = Some u4" "transmitted (hex_out 8 ?m u3) u4 (crlf (text_of nl))" by blast
  note h4 = transmitted_trans [OF h3 4(2)]
  from print_str_ok [OF transmitted_drains [OF h4 d2]] obtain u5
    where 5: "print_str u4 (text_of ''Boot info at: 0x'') = Some u5" "transmitted u4 u5 (crlf (text_of ''Boot info at: 0x''))" by blast
  note h5 = transmitted_trans [OF transmitted_trans [OF h4 5(2)] hex_out_ok [of u5 16 a]]
  from print_str_ok [OF transmitted_drains [OF h5 d2]] obtain u6
    where 6: "print_str (hex_out 16 a u5) (text_of nl) = Some u6" "transmitted (hex_out 16 a u5) u6 (crlf (text_of nl))" by blast
  note h6 = transmitted_trans [OF h5 6(2)]
  from print_str_ok [OF transmitted_drains [OF h6 d2]] obtain u7 where 7: "print_str u6 ?t = Some u7" "transmitted u6 u7 (crlf ?t)" by blast
  have "transmitted (port_ready u) u7 (report magic a)"
    using transmitted_trans [OF 2(2) transmitted_trans [OF h6 7(2)]] by (simp add: report_def)
  moreover have "mb2_report magic a u = Some ((ucast magic :: u32) = MULTIBOOT2_MAGIC, u7)"
    using 2(1) 3(1) 4(1) 5(1) 6(1) 7(1) unfolding mb2_report_def port_ready_def by (simp add: Let_def split: if_splits)
  ultimately show ?thesis by blast
qed

lemma mb2_start_reports:
  assumes "drains u" and "length t = 256"
  shows "\<exists>t' u'. mb2_start h idt_ptr t magic a u
      = Some ((ucast magic :: u32) = MULTIBOOT2_MAGIC, (t', \<lparr>idtr_limit = 4095, idtr_base = of_nat (unat idt_ptr mod 65536 * 2 ^ 48)\<rparr>), u')
    \<and> t' = replicate 256 (mb2_gate h) \<and> transmitted (port_ready u) u' (report magic a)"
proof -
  have "setup_idt h idt_ptr t = (replicate 256 (mb2_gate h), \<lparr>idtr_limit = 4095, idtr_base = of_nat (unat idt_ptr mod 65536 * 2 ^ 48)\<rparr>)"
    using setup_idt_gates [OF assms(2)] mb2_idtr_misread mb2_idtr_limit by (metis idtr.surjective old.unit.exhaust prod.collapse)
  moreover obtain u' where "mb2_report magic a u = Some ((ucast magic :: u32) = MULTIBOOT2_MAGIC, u')" "transmitted (port_ready u) u' (report magic a)"
    using mb2_report_ok [OF assms(1)] by blast
  ultimately show ?thesis unfolding mb2_start_def by (simp add: Let_def)
qed

text \<open>The tags of a chain that a terminator closes are listed in order, with their positions.\<close>

primrec chain_end :: "memory \<Rightarrow> u64 \<Rightarrow> u64 list \<Rightarrow> u64" where
  "chain_end m p [] = p"
| "chain_end m p (q # qs) = chain_end m (p + of_nat (padded_size m p)) qs"

primrec tag_lines :: "memory \<Rightarrow> nat \<Rightarrow> u64 list \<Rightarrow> tag_line list" where
  "tag_lines m n [] = [Terminator n]"
| "tag_lines m n (q # qs) = TagLine n (load_u32 m q) (tag_name (load_u32 m q)) (load_u32 m (q + 4)) # tag_lines m (Suc n) qs"

lemma list_tags_spec:
  assumes "e < 2 ^ 32" and "unat end_ptr = e"
  shows "tag_chain m e p ps \<Longrightarrow> unat (chain_end m p ps) < e \<Longrightarrow> load_u32 m (chain_end m p ps) = 0 \<Longrightarrow>
    load_u32 m (chain_end m p ps + 4) = 8 \<Longrightarrow> list_tags m end_ptr p n = Some (tag_lines m n ps, n + length ps)"
proof (induction ps arbitrary: p n)
  case Nil
  then have "unat (ucast p :: u32) = unat p" "unat (ucast end_ptr :: u32) = e" using assms by (simp_all add: unat_ucast32)
  then have "(ucast p :: u32) < ucast end_ptr" using Nil.prems by (simp add: word_less_nat_alt)
  then show ?case using Nil.prems by (subst list_tags.simps) (simp add: read_tag_def)
next
  case (Cons q ps)
  then have p: "q = p" "unat p + 8 \<le> e" "load_u32 m p \<noteq> 0" "8 \<le> unat (load_u32 m (p + 4))"
    "unat p + padded_size m p + 8 < 2 ^ 32" "tag_chain m e (p + of_nat (padded_size m p)) ps" by simp_all
  have "unat (ucast p :: u32) = unat p" "unat (ucast end_ptr :: u32) = e" using p assms by (simp_all add: unat_ucast32)
  then have lt: "(ucast p :: u32) < ucast end_ptr" using p(2) by (simp add: word_less_nat_alt)
  have "unat (load_u32 m (p + 4)) \<le> padded_size m p" unfolding padded_size_def by linarith
  then have "unat (load_u32 m (p + 4)) + 7 < 2 ^ 32" using p(5) by linarith
  note z = padded_size_word [OF this]
  have "list_tags m end_ptr (p + of_nat (padded_size m p)) (Suc n) = Some (tag_lines m (Suc n) ps, Suc n + length ps)"
    using Cons.IH [OF p(6)] Cons.prems by simp
  then show ?case using p lt z by (subst list_tags.simps) (simp add: read_tag_def padded_size_def)
qed

text \<open>A tag of size zero is listed for ever.\<close>

lemma list_tags_hangs:
  assumes "tag_size (read_tag m p) = 0" and "(ucast p :: u32) < ucast end_ptr"
  shows "list_tags m end_ptr p n = None"
proof (rule ccontr)
  assume "list_tags m end_ptr p n \<noteq> None"
  then obtain y where "list_tags m end_ptr p n = Some y" by blast
  then have "m \<noteq> m \<or> p \<noteq> p \<or> end_ptr \<noteq> end_ptr"
  proof (rule list_tags.raw_induct [rotated, where P = "\<lambda>m' e q _ _. m' \<noteq> m \<or> q \<noteq> p \<or> e \<noteq> end_ptr"], goal_cases)
    case (1 f m' e q n' y')
    have z: "checked_add (0 :: u32) 7 = Some 7" by (simp add: checked_add_def)
    show ?case
    proof (rule ccontr)
      assume "\<not> ?case"
      then have eq: "m' = m" "q = p" "e = end_ptr" by simp_all
      obtain y2 where "f m end_ptr p (n' + 1) = Some y2" using 1(2) assms z unfolding eq by (auto simp: bind_eq_Some_conv Let_def)
      then show False using 1(1) by blast
    qed
  qed
  then show False by simp
qed

end
