(* ===== verification/Timer.thy ===== *)
theory Timer
  imports Apic Serial
begin

text \<open>
  The entry point of the timer interrupt, \<^verbatim>\<open>timer_interrupt_entry\<close> of \<^verbatim>\<open>hammam/src/interrupts.rs\<close>, as the list of its instructions over the scratch
  registers and the stack, with the two functions it calls: \<^verbatim>\<open>tick_now_debug\<close> of \<^verbatim>\<open>sched/mod.rs\<close> and \<^verbatim>\<open>lapic_eoi\<close> of \<^verbatim>\<open>apic.rs\<close>. The theory proves
  that the interrupted code finds its registers and stack again, and what is outstanding when the tick switches to another task.
\<close>

section \<open>Instructions\<close>

datatype greg = RAX | RCX | RDX | RDI | RSI | R8 | R9 | R10 | R11

datatype instr = Push greg | Pop greg | CallTick | CallEoi | Iretq

record irq_state =
  regs :: "greg \<Rightarrow> u64"
  sp :: u64
  mem :: "u64 \<Rightarrow> u64"
  iplat :: platform
  isched :: scheduler
  iuart :: uart

definition push :: "greg \<Rightarrow> irq_state \<Rightarrow> irq_state" where
  "push r S = S\<lparr>sp := sp S - 8, mem := (mem S)(sp S - 8 := regs S r)\<rparr>"

definition pop :: "greg \<Rightarrow> irq_state \<Rightarrow> irq_state" where
  "pop r S = S\<lparr>regs := (regs S)(r := mem S (sp S)), sp := sp S + 8\<rparr>"

text \<open>A compiled function may use the scratch registers and the stack below its caller's; what it leaves there is given by \<open>c\<close>.\<close>

type_synonym clobber = "(greg \<Rightarrow> u64) \<times> (u64 \<Rightarrow> u64)"

definition called :: "clobber \<Rightarrow> irq_state \<Rightarrow> irq_state" where
  "called c S = S\<lparr>regs := fst c, mem := (\<lambda>a. if a < sp S then snd c a else mem S a)\<rparr>"

definition tick_now_debug :: "irq_state \<Rightarrow> ((task_ref \<times> task_ref) option \<times> irq_state) option" where
  "tick_now_debug S =
     do {
       u \<leftarrow> serial_write_byte (iuart S) (of_char CHR ''.'');
       (sw, s) \<leftarrow> tick_now (isched S);
       Some (sw, S\<lparr>iuart := u, isched := s\<rparr>)
     }"

text \<open>The interrupted code goes on, or \<^verbatim>\<open>switch_context\<close> has left it with the rest of the entry point to execute when it is switched back to.\<close>

datatype irq_outcome = Resumed irq_state | SwitchedAway task_ref task_ref "instr list" irq_state

fun exec :: "clobber \<Rightarrow> clobber \<Rightarrow> instr list \<Rightarrow> irq_state \<Rightarrow> irq_outcome option" where
  "exec c d [] S = None"
| "exec c d (Push r # is) S = exec c d is (push r S)"
| "exec c d (Pop r # is) S = exec c d is (pop r S)"
| "exec c d (CallTick # is) S =
     do {
       (sw, S') \<leftarrow> tick_now_debug S;
       (case sw of None \<Rightarrow> exec c d is (called c S') | Some (from, to) \<Rightarrow> Some (SwitchedAway from to is (called c S')))
     }"
| "exec c d (CallEoi # is) S = do { P \<leftarrow> lapic_eoi (iplat S); exec c d is (called d (S\<lparr>iplat := P\<rparr>)) }"
| "exec c d (Iretq # is) S = Some (Resumed S)"

definition saved :: "greg list" where
  "saved = [RAX, RCX, RDX, RDI, RSI, R8, R9, R10, R11]"

definition timer_interrupt_entry :: "instr list" where
  "timer_interrupt_entry = map Push saved @ [CallTick, CallEoi] @ map Pop (rev saved) @ [Iretq]"

section \<open>The stack\<close>

definition stacked :: "irq_state \<Rightarrow> u64 list \<Rightarrow> bool" where
  "stacked S ws \<longleftrightarrow> unat (sp S) + 8 * length ws \<le> 2 ^ 64 \<and> (\<forall>i < length ws. mem S (sp S + of_nat (8 * i)) = ws ! i)"

lemma stack_addr:
  assumes "unat (p :: u64) + 8 * n \<le> 2 ^ 64" "i < n"
  shows "unat (p + of_nat (8 * i)) = unat p + 8 * i"
proof -
  have lt: "unat p + 8 * i < 2 ^ 64" using assms by linarith
  have "unat (of_nat (8 * i) :: u64) = 8 * i" by (rule unat_of_nat_small) (use lt in simp)
  then show ?thesis using lt unat_add_no_wrap [of p "of_nat (8 * i)"] by simp
qed

lemma stacked_push:
  assumes "stacked S ws" "8 \<le> unat (sp S)"
  shows "stacked (push r S) (regs S r # ws)" "unat (sp (push r S)) = unat (sp S) - 8"
proof -
  have u: "unat (sp S - 8) = unat (sp S) - 8" using assms(2) by (simp add: unat_sub word_le_nat_alt)
  then show "unat (sp (push r S)) = unat (sp S) - 8" by (simp add: push_def)
  have "mem (push r S) (sp S - 8 + of_nat (8 * i)) = (regs S r # ws) ! i" if "i \<le> length ws" for i
  proof (cases i)
    case (Suc j)
    have a: "sp S - 8 + of_nat (8 * i) = sp S + of_nat (8 * j)" using Suc by simp
    have "unat (sp S + of_nat (8 * j)) = unat (sp S) + 8 * j" using stack_addr [of "sp S" "length ws" j] assms(1) that Suc by (simp add: stacked_def)
    then have "sp S + of_nat (8 * j) \<noteq> sp S - 8" using u assms(2) by auto
    then show ?thesis using assms(1) that Suc a by (simp add: push_def stacked_def)
  qed (simp add: push_def)
  then show "stacked (push r S) (regs S r # ws)" using assms u by (simp add: stacked_def push_def)
qed

lemma push_simps [simp]: "regs (push r S) = regs S" "iplat (push r S) = iplat S" "isched (push r S) = isched S" "iuart (push r S) = iuart S"
  by (simp_all add: push_def)

lemma pop_simps [simp]: "mem (pop r S) = mem S" "iplat (pop r S) = iplat S" "isched (pop r S) = isched S" "iuart (pop r S) = iuart S"
  by (simp_all add: pop_def)

text \<open>Words above the stack pointer.\<close>

definition kept :: "u64 \<Rightarrow> irq_state \<Rightarrow> irq_state \<Rightarrow> bool" where
  "kept p S S' \<longleftrightarrow> (\<forall>a \<ge> p. mem S' a = mem S a)"

lemma exec_pushes:
  "stacked S ws \<Longrightarrow> 8 * length rs \<le> unat (sp S) \<Longrightarrow> \<exists>S'. exec c d (map Push rs @ is) S = exec c d is S'
     \<and> stacked S' (rev (map (regs S) rs) @ ws) \<and> unat (sp S') = unat (sp S) - 8 * length rs \<and> kept (sp S) S S'
     \<and> regs S' = regs S \<and> iplat S' = iplat S \<and> isched S' = isched S \<and> iuart S' = iuart S"
proof (induction rs arbitrary: S ws)
  case (Cons r rs)
  have p: "stacked (push r S) (regs S r # ws)" "unat (sp (push r S)) = unat (sp S) - 8" using stacked_push [OF Cons.prems(1)] Cons.prems(2) by simp_all
  then have "8 * length rs \<le> unat (sp (push r S))" using Cons.prems(2) by simp
  from Cons.IH [OF p(1) this] obtain S' where S': "exec c d (map Push rs @ is) (push r S) = exec c d is S'"
    "stacked S' (rev (map (regs S) rs) @ regs S r # ws)" "unat (sp S') = unat (sp (push r S)) - 8 * length rs"
    "kept (sp (push r S)) (push r S) S'" "regs S' = regs S" "iplat S' = iplat S" "isched S' = isched S" "iuart S' = iuart S" by auto
  have lt: "sp (push r S) < sp S" using p(2) Cons.prems(2) by (simp add: word_less_nat_alt)
  then have "kept (sp S) S S'" using S'(4) by (auto simp: kept_def push_def)
  then show ?case using S' p(2) by auto
next
  case Nil
  then show ?case by (intro exI [of _ S]) (simp add: kept_def)
qed

lemma stacked_pop: "stacked S (w # ws) \<Longrightarrow> ws \<noteq> [] \<Longrightarrow> stacked (pop r S) ws"
proof -
  assume s: "stacked S (w # ws)" and ne: "ws \<noteq> []"
  have u: "unat (sp S + 8) = unat (sp S) + 8" using stack_addr [of "sp S" "length (w # ws)" 1] s ne by (simp add: stacked_def)
  have "mem S (sp S + 8 + of_nat (8 * i)) = ws ! i" if "i < length ws" for i
  proof -
    have "sp S + of_nat (8 * Suc i) = sp S + 8 + of_nat (8 * i)" by simp
    moreover have "mem S (sp S + of_nat (8 * Suc i)) = (w # ws) ! Suc i" using s that unfolding stacked_def by (metis Suc_less_eq length_Cons)
    ultimately show ?thesis by (simp add: add.assoc)
  qed
  then show ?thesis using s u by (simp add: stacked_def pop_def)
qed

lemma exec_pops:
  "stacked S ws \<Longrightarrow> length ws = length rs \<Longrightarrow> distinct rs \<Longrightarrow> \<exists>S'. exec c d (map Pop rs @ is) S = exec c d is S'
     \<and> (\<forall>i < length rs. regs S' (rs ! i) = ws ! i) \<and> (\<forall>r. r \<notin> set rs \<longrightarrow> regs S' r = regs S r) \<and> sp S' = sp S + of_nat (8 * length rs)
     \<and> mem S' = mem S \<and> iplat S' = iplat S \<and> isched S' = isched S \<and> iuart S' = iuart S"
proof (induction rs arbitrary: S ws)
  case Nil
  then show ?case by (intro exI [of _ S]) simp
next
  case (Cons r rs)
  then obtain w vs where ws: "ws = w # vs" by (cases ws) auto
  have w: "regs (pop r S) r = w" "\<And>q. q \<noteq> r \<Longrightarrow> regs (pop r S) q = regs S q" using Cons.prems(1) unfolding ws stacked_def pop_def by auto
  have "stacked (pop r S) vs"
  proof (cases "vs = []")
    case True
    have "unat (sp (pop r S)) \<le> 2 ^ 64" using unsigned_less [of "sp (pop r S)", where 'a = nat] by simp
    then show ?thesis using True by (simp add: stacked_def)
  next
    case False
    then show ?thesis using stacked_pop Cons.prems(1) ws by blast
  qed
  from Cons.IH [OF this] Cons.prems ws obtain S' where S': "exec c d (map Pop rs @ is) (pop r S) = exec c d is S'"
    "\<forall>i < length rs. regs S' (rs ! i) = vs ! i" "\<forall>q. q \<notin> set rs \<longrightarrow> regs S' q = regs (pop r S) q" "sp S' = sp (pop r S) + of_nat (8 * length rs)"
    "mem S' = mem S" "iplat S' = iplat S" "isched S' = isched S" "iuart S' = iuart S" by auto
  have "\<forall>i < length (r # rs). regs S' ((r # rs) ! i) = ws ! i"
    using S'(2,3) w(1) Cons.prems(3) ws by (auto simp: nth_Cons split: nat.splits)
  then show ?case using S' w(2) by (intro exI [of _ S']) (auto simp: pop_def)
qed

lemma stacked_updates [simp]:
  "stacked (S\<lparr>iplat := P\<rparr>) ws = stacked S ws" "stacked (S\<lparr>iuart := u, isched := s\<rparr>) ws = stacked S ws"
  by (simp_all add: stacked_def)

lemma stacked_called [simp]: "stacked (called c S) ws \<longleftrightarrow> stacked S ws"
proof -
  have "\<not> sp S + of_nat (8 * i) < sp S" if "unat (sp S) + 8 * length ws \<le> 2 ^ 64" "i < length ws" for i
    using stack_addr [OF that] by (simp add: word_less_nat_alt)
  then show ?thesis by (auto simp: stacked_def called_def)
qed

section \<open>Transparency\<close>

lemma saved_all: "set saved = UNIV" "distinct saved" "length saved = 9"
proof -
  show "set saved = UNIV" unfolding saved_def using greg.exhaust by auto
qed (simp_all add: saved_def)

text \<open>A tick that does not switch: all registers, the stack pointer and the stack of the interrupted code are as they were.\<close>

lemma timer_entry_run:
  assumes sp: "72 \<le> unat (sp S)" and u: "serial_write_byte (iuart S) 46 = Some u" and t: "tick_now (isched S) = Some (sw, s)"
    and m: "regs_mapped (iplat S)"
  shows "case sw of
      None \<Rightarrow> \<exists>S'. exec c d timer_interrupt_entry S = Some (Resumed S') \<and> regs S' = regs S \<and> sp S' = sp S \<and> kept (sp S) S S'
        \<and> isched S' = s \<and> iuart S' = u \<and> lapic_log (iplat S') = lapic_log (iplat S) @ [(0xB0, 0)]
    | Some (from, to) \<Rightarrow> \<exists>S' rest. exec c d timer_interrupt_entry S = Some (SwitchedAway from to (CallEoi # rest) S')
        \<and> isched S' = s \<and> iplat S' = iplat S"
proof -
  let ?pops = "map Pop (rev saved) @ [Iretq]"
  have "unat (sp S) \<le> 2 ^ 64" using unsigned_less [of "sp S", where 'a = nat] by simp
  then have "stacked S []" by (simp add: stacked_def)
  then obtain S1 where 1: "exec c d timer_interrupt_entry S = exec c d ([CallTick, CallEoi] @ ?pops) S1"
    "stacked S1 (map (regs S) (rev saved))" "unat (sp S1) = unat (sp S) - 72" "kept (sp S) S S1"
    "iplat S1 = iplat S" "isched S1 = isched S" "iuart S1 = iuart S"
    using exec_pushes [of S "[]" saved c d "[CallTick, CallEoi] @ ?pops"] sp saved_all(3)
    unfolding timer_interrupt_entry_def by (auto simp: rev_map)
  have ch: "(of_char CHR ''.'' :: u8) = 46" by simp
  have tk: "tick_now_debug S1 = Some (sw, S1\<lparr>iuart := u, isched := s\<rparr>)" using u t 1(6,7) by (simp add: tick_now_debug_def ch)
  let ?S2 = "called c (S1\<lparr>iuart := u, isched := s\<rparr>)"
  show ?thesis
  proof (cases sw)
    case (Some ft)
    then show ?thesis using 1(1,5) tk by (cases ft) (simp add: called_def)
  next
    case None
    let ?P = "(iplat S)\<lparr>lapic_log := lapic_log (iplat S) @ [(0xB0, 0)]\<rparr>"
    let ?S3 = "called d (?S2\<lparr>iplat := ?P\<rparr>)"
    have e: "lapic_eoi (iplat ?S2) = Some ?P" using reg_access(1) [OF m] 1(5) by (simp add: lapic_eoi_def APIC_REG_EOI_def called_def)
    have "stacked ?S3 (map (regs S) (rev saved))" using 1(2) by simp
    from exec_pops [OF this, of "rev saved" c d "[Iretq]"] saved_all obtain S4 where 4: "exec c d ?pops ?S3 = Some (Resumed S4)"
      "\<forall>i < 9. regs S4 (rev saved ! i) = map (regs S) (rev saved) ! i" "sp S4 = sp ?S3 + 72" "mem S4 = mem ?S3" "iplat S4 = ?P" "isched S4 = s" "iuart S4 = u"
      by (auto simp: called_def)
    have "regs S4 r = regs S r" for r
    proof -
      obtain i where "i < 9" "rev saved ! i = r" using saved_all by (metis UNIV_I in_set_conv_nth length_rev set_rev)
      then show ?thesis using 4(2) saved_all(3) by auto
    qed
    moreover have "sp S1 + 72 = sp S"
    proof -
      have "unat (sp S1) + unat (72 :: u64) < 2 ^ 64" using 1(3) sp unsigned_less [of "sp S", where 'a = nat] by simp
      then show ?thesis using unat_add_no_wrap [of "sp S1" 72] 1(3) sp by (simp add: word_unat_eq_iff)
    qed
    moreover have "kept (sp S) S S4"
    proof -
      have "\<not> a < sp S1" if "sp S \<le> a" for a using that 1(3) by (simp add: word_le_nat_alt word_less_nat_alt)
      then show ?thesis using 1(4) 4(4) by (simp add: kept_def called_def)
    qed
    moreover have "exec c d timer_interrupt_entry S = Some (Resumed S4)" using 1(1) tk None e 4(1) by simp
    ultimately show ?thesis using None 4(3,5-7) by (auto simp: called_def)
  qed
qed

text \<open> C33: The timer interrupt is transparent to a live task. Whatever the compiled functions leave in the scratch registers and below the stack,
  \<^verbatim>\<open>timer_interrupt_entry\<close> returns to the interrupted code with all its registers, the stack pointer and the words of its stack as they were; one byte
  went to the serial port, the interrupt was acknowledged once, and the scheduler has not switched.\<close>

theorem timer_transparent:
  assumes "72 \<le> unat (sp S)" and "drains (iuart S)" and "regs_mapped (iplat S)"
    and "sched_inv (isched S)" and "current (isched S) = Some t" and "state (tasks (isched S) t) \<noteq> Dead"
  shows "\<exists>S'. exec c d timer_interrupt_entry S = Some (Resumed S') \<and> regs S' = regs S \<and> sp S' = sp S \<and> kept (sp S) S S'
    \<and> same_schedule (isched S) (isched S') \<and> transmitted (iuart S) (iuart S') [46] \<and> lapic_log (iplat S') = lapic_log (iplat S) @ [(0xB0, 0)]"
proof -
  obtain u where u: "serial_write_byte (iuart S) 46 = Some u" "transmitted (iuart S) u [46]" using serial_write_byte_ok [OF assms(2)] by blast
  obtain s where s: "tick_now (isched S) = Some (None, s)" "same_schedule (isched S) s" using tick_live_same [OF assms(4-6)] by blast
  show ?thesis using timer_entry_run [OF assms(1) u(1) s(1) assms(3), of c d] u(2) s(2) by auto
qed

definition demo_irq :: irq_state where
  "demo_irq = \<lparr>regs = (\<lambda>_. 7), sp = 0x320000, mem = (\<lambda>_. 0), iplat = demo_platform\<lparr>LOCAL_APIC_BASE := 0x600000\<rparr>, isched = demo_sched,
     iuart = \<lparr>port = 0x3F8, port_log = [], line_status = (\<lambda>_. 0x20), polls = 0\<rparr>\<rparr>"

theorem timer_transparent_witness:
  "\<exists>S'. exec (\<lambda>_. 0, \<lambda>_. 1) (\<lambda>_. 2, \<lambda>_. 3) timer_interrupt_entry demo_irq = Some (Resumed S') \<and> regs S' RAX = 7 \<and> sp S' = 0x320000
    \<and> port_log (iuart S') = [(0x3F8, 46)] \<and> lapic_log (iplat S') = [(0xB0, 0)]"
proof -
  have d: "drains (iuart demo_irq)" by (auto simp: demo_irq_def drains_def)
  have m: "regs_mapped (iplat demo_irq)"
    using demo_translate by (simp add: demo_irq_def regs_mapped_def demo_platform_def demo_machine_def)
  have i: "sched_inv (isched demo_irq)" using sched_reachable_inv [OF demo_reachable] by (simp add: demo_irq_def)
  have "72 \<le> unat (sp demo_irq)" "current (isched demo_irq) = Some 0" "state (tasks (isched demo_irq) 0) \<noteq> Dead"
    by (simp_all add: demo_irq_def demo_sched_simps)
  from timer_transparent [OF this(1) d m i this(2,3), of "(\<lambda>_. 0, \<lambda>_. 1)" "(\<lambda>_. 2, \<lambda>_. 3)"]
  show ?thesis by (auto simp: demo_irq_def demo_platform_def transmitted_def)
qed

text \<open>When a dead task is left, the interrupt is not acknowledged before the switch: the new task runs with it in service.\<close>

lemma switch_without_eoi:
  assumes "72 \<le> unat (sp S)" and "serial_write_byte (iuart S) 46 = Some u" and "tick_now (isched S) = Some (Some (f, t), s)" and "regs_mapped (iplat S)"
  shows "\<exists>S' rest. exec c d timer_interrupt_entry S = Some (SwitchedAway f t (CallEoi # rest) S') \<and> lapic_log (iplat S') = lapic_log (iplat S)"
  using timer_entry_run [OF assms, of c d] by auto

end
