(* ===== verification/SchedLock.thy ===== *)
theory SchedLock
  imports Sched Serial
begin

text \<open>
  Locks of the scheduler: the \<^verbatim>\<open>Mutex\<close> around a task's address space, of \<^verbatim>\<open>hammam/src/sched/task.rs\<close>, which differs from the lock of \<open>Serial\<close> in its weak compare-and-exchange,
  which may fail on a free lock (\<open>spurious n\<close> says whether the \<open>n\<close>-th attempt does), and the timer tick with the lock it takes. The state of both locks
  is the same record.
\<close>

definition task_mutex_new :: "'a \<Rightarrow> 'a spin_mutex" where
  "task_mutex_new inner = \<lparr>locked = False, cell = inner\<rparr>"

definition cas_weak :: "bool \<Rightarrow> 'a spin_mutex \<Rightarrow> bool \<times> 'a spin_mutex" where
  "cas_weak spurious m = (if locked m \<or> spurious then (False, m) else (True, m\<lparr>locked := True\<rparr>))"

partial_function (option) task_mutex_lock :: "(nat \<Rightarrow> bool) \<Rightarrow> nat \<Rightarrow> 'a spin_mutex \<Rightarrow> (nat \<times> 'a spin_mutex) option" where
  "task_mutex_lock spurious n m =
     (case cas_weak (spurious n) m of (ok, m') \<Rightarrow> if ok then Some (n + 1, m') else task_mutex_lock spurious (n + 1) m')"

definition task_guard_deref :: "'a spin_mutex \<Rightarrow> 'a" where
  "task_guard_deref m = cell m"

definition task_guard_deref_mut :: "'a spin_mutex \<Rightarrow> 'a \<Rightarrow> 'a spin_mutex" where
  "task_guard_deref_mut m v = m\<lparr>cell := v\<rparr>"

definition task_guard_drop :: "'a spin_mutex \<Rightarrow> 'a spin_mutex" where
  "task_guard_drop m = m\<lparr>locked := False\<rparr>"

text \<open>\<^verbatim>\<open>tick_now\<close> with the lock of \<^verbatim>\<open>SCHEDULER\<close>; the guard is dropped before the context switch.\<close>

definition tick_now_locked :: "scheduler spin_mutex \<Rightarrow> ((task_ref \<times> task_ref) option \<times> scheduler spin_mutex) option" where
  "tick_now_locked m =
     do {
       m1 \<leftarrow> mutex_lock m;
       (sw, s) \<leftarrow> tick_now (deref m1);
       Some (sw, guard_drop (deref_mut m1 (\<lambda>_. s)))
     }"

lemma task_mutex_lock_free:
  "\<not> locked m \<Longrightarrow> n \<le> k \<Longrightarrow> \<not> spurious k \<Longrightarrow> \<exists>n'. task_mutex_lock spurious n m = Some (n', m\<lparr>locked := True\<rparr>)"
proof (induction "k - n" arbitrary: n)
  case 0
  then show ?case by (subst task_mutex_lock.simps) (simp add: cas_weak_def)
next
  case (Suc d)
  show ?case
  proof (cases "spurious n")
    case True
    then have "n < k" using Suc.prems by (cases "n = k") auto
    then show ?thesis using Suc True by (subst task_mutex_lock.simps) (simp add: cas_weak_def)
  next
    case False
    then show ?thesis using Suc.prems by (subst task_mutex_lock.simps) (simp add: cas_weak_def)
  qed
qed

lemma task_mutex_lock_held: "locked m \<Longrightarrow> task_mutex_lock spurious n m = None"
proof (rule ccontr)
  assume h: "locked m" "task_mutex_lock spurious n m \<noteq> None"
  then obtain y where "task_mutex_lock spurious n m = Some y" by blast
  then have "\<not> locked m"
    by (rule task_mutex_lock.raw_induct [where P = "\<lambda>_ _ m _. \<not> locked m", rotated]) (auto simp: cas_weak_def split: prod.splits if_splits)
  then show False using h by simp
qed

text \<open>On a free lock a tick is the one of \<open>Sched\<close> and leaves the lock free; over code that holds the lock, it never returns.\<close>

lemma tick_now_locked_free:
  assumes "\<not> locked m"
  shows "tick_now_locked m = map_option (\<lambda>(sw, s). (sw, \<lparr>locked = False, cell = s\<rparr>)) (tick_now (cell m))"
  using mutex_lock_free [OF assms]
  by (cases m; cases "tick_now (cell m)") (auto simp: tick_now_locked_def deref_def deref_mut_def guard_drop_def)

lemma tick_over_holder_hangs: "locked m \<Longrightarrow> tick_now_locked m = None"
  using mutex_lock_held_aux [of m] by (cases "mutex_lock m") (auto simp: tick_now_locked_def)

text \<open>A lock that was dropped can be taken again, and holds what the last guard left.\<close>

lemma task_mutex_again:
  assumes "task_mutex_lock spurious n m = Some (n', m1)" and "n' \<le> k" "\<not> spurious k"
  shows "\<exists>n''. task_mutex_lock spurious n' (task_guard_drop (task_guard_deref_mut m1 v)) = Some (n'', \<lparr>locked = True, cell = v\<rparr>)"
  using task_mutex_lock_free [of "task_guard_drop (task_guard_deref_mut m1 v)" n' k spurious] assms
  by (cases m1) (auto simp: task_guard_drop_def task_guard_deref_mut_def)

end
