(* ===== verification/IoUring.thy ===== *)
theory IoUring
  imports Prelude
begin

text \<open>
  The submission and completion rings (\<^verbatim>\<open>hammam/src/io/uring.rs\<close>): ring headers with free-running 32-bit positions,
  the request and completion entries, and \<^verbatim>\<open>process_sq\<close>. A ring is proved to implement a bounded FIFO queue,
  also when its positions wrap around, and \<^verbatim>\<open>process_sq\<close> is characterised by the two queues.
\<close>

section \<open>Entries\<close>

definition OP_READ :: u8 where "OP_READ = 0"
definition OP_WRITE :: u8 where "OP_WRITE = 1"
definition OP_NOP :: u8 where "OP_NOP = 2"
definition OP_FSYNC :: u8 where "OP_FSYNC = 3"

record sq_entry =
  opcode :: u8
  sq_flags :: u8
  ioprio :: u16
  fd :: i32
  off :: u64
  addr :: u64
  op_len :: u32
  rw_flags :: i32
  sq_user_data :: u64

definition sq_new :: sq_entry where
  "sq_new = \<lparr>opcode = 0, sq_flags = 0, ioprio = 0, fd = - 1, off = 0, addr = 0, op_len = 0,
     rw_flags = 0, sq_user_data = 0\<rparr>"

definition sq_read :: "i32 \<Rightarrow> u64 \<Rightarrow> u32 \<Rightarrow> u64 \<Rightarrow> u64 \<Rightarrow> sq_entry" where
  "sq_read f a n offset data =
     sq_new\<lparr>opcode := OP_READ, fd := f, addr := a, op_len := n, off := offset, sq_user_data := data\<rparr>"

definition sq_write :: "i32 \<Rightarrow> u64 \<Rightarrow> u32 \<Rightarrow> u64 \<Rightarrow> u64 \<Rightarrow> sq_entry" where
  "sq_write f a n offset data =
     sq_new\<lparr>opcode := OP_WRITE, fd := f, addr := a, op_len := n, off := offset, sq_user_data := data\<rparr>"

record cq_entry =
  cq_user_data :: u64
  result :: i64
  cq_flags :: u32

definition cq_new :: "u64 \<Rightarrow> i64 \<Rightarrow> cq_entry" where
  "cq_new data res = \<lparr>cq_user_data = data, result = res, cq_flags = 0\<rparr>"

definition is_success :: "cq_entry \<Rightarrow> bool" where
  "is_success c \<longleftrightarrow> 0 \<le> sint (result c)"

text \<open>The negation of \<^verbatim>\<open>get_errno\<close> overflows, and panics, on the least \<^verbatim>\<open>i64\<close>; the cast to \<^verbatim>\<open>i32\<close> truncates.\<close>

definition get_errno :: "cq_entry \<Rightarrow> i32 option option" where
  "get_errno c =
     (if sint (result c) < 0 then
        (if sint (result c) = - (2 ^ 63) then None else Some (Some (ucast (- result c))))
      else Some None)"

section \<open>Ring headers\<close>

record ring_header =
  head :: u32
  tail :: u32
  ring_mask :: u32
  entries :: u32

text \<open>\<^verbatim>\<open>u32::next_power_of_two\<close>, which panics above \<open>2 ^ 31\<close>.\<close>

definition next_power_of_two :: "u32 \<Rightarrow> u32 option" where
  "next_power_of_two n = map_option (\<lambda>k. 2 ^ k) (find (\<lambda>k. unat n \<le> 2 ^ k) [0..<32])"

definition ring_new :: "u32 \<Rightarrow> ring_header option" where
  "ring_new n =
     do {
       e \<leftarrow> next_power_of_two n;
       m \<leftarrow> checked_sub e 1;
       Some \<lparr>head = 0, tail = 0, ring_mask = m, entries = e\<rparr>
     }"

definition ring_len :: "ring_header \<Rightarrow> u32" where
  "ring_len h = tail h - head h"

definition is_empty :: "ring_header \<Rightarrow> bool" where
  "is_empty h \<longleftrightarrow> ring_len h = 0"

definition is_full :: "ring_header \<Rightarrow> bool" where
  "is_full h \<longleftrightarrow> entries h \<le> ring_len h"

definition index :: "ring_header \<Rightarrow> u32 \<Rightarrow> nat" where
  "index h pos = unat (pos AND ring_mask h)"

definition push :: "ring_header \<Rightarrow> u32 \<times> ring_header" where
  "push h = (tail h, h\<lparr>tail := tail h + 1\<rparr>)"

definition pop :: "ring_header \<Rightarrow> u32 \<times> ring_header" where
  "pop h = (head h, h\<lparr>head := head h + 1\<rparr>)"

section \<open>Processing\<close>

definition execute_read :: "sq_entry \<Rightarrow> i64" where
  "execute_read sqe = 0"

definition execute_write :: "sq_entry \<Rightarrow> i64" where
  "execute_write sqe = ucast (op_len sqe)"

definition execute_sqe :: "sq_entry \<Rightarrow> i64" where
  "execute_sqe sqe =
     (if opcode sqe = OP_READ then execute_read sqe
      else if opcode sqe = OP_WRITE then execute_write sqe
      else if opcode sqe = OP_NOP then 0
      else if opcode sqe = OP_FSYNC then 0
      else - 22)"

text \<open>The part of the loop that records a completion: header and entries of the completion ring.\<close>

definition complete :: "ring_header \<times> 'a list \<Rightarrow> 'a \<Rightarrow> ring_header \<times> 'a list" where
  "complete q x = (case q of (h, buf) \<Rightarrow>
     if is_full h then (h, buf)
     else (let (pos, h') = push h; i = index h' pos
           in (h', if i < length buf then buf[i := x] else buf)))"

function process_sq ::
  "ring_header \<Rightarrow> sq_entry list \<Rightarrow> ring_header \<times> cq_entry list \<Rightarrow> ring_header \<times> (ring_header \<times> cq_entry list)"
  where
  "process_sq sq sq_entries cq =
     (if is_empty sq then (sq, cq)
      else (let (pos, sq') = pop sq; i = index sq' pos
            in if length sq_entries \<le> i then (sq', cq)
               else process_sq sq' sq_entries
                      (complete cq (cq_new (sq_user_data (sq_entries ! i)) (execute_sqe (sq_entries ! i))))))"
  by pat_completeness auto
termination
proof (relation "measure (\<lambda>(sq, _). unat (ring_len sq))")
  fix sq :: ring_header and sq_entries :: "sq_entry list" and cq :: "ring_header \<times> cq_entry list" and x pos sq' i
  assume "\<not> is_empty sq" "x = pop sq" "(pos, sq') = x"
  then have "ring_len sq' = ring_len sq - 1" "ring_len sq \<noteq> 0"
    by (auto simp: pop_def ring_len_def is_empty_def)
  then show "((sq', sq_entries, complete cq (cq_new (sq_user_data (sq_entries ! i)) (execute_sqe (sq_entries ! i)))),
      sq, sq_entries, cq) \<in> measure (\<lambda>(sq, _). unat (ring_len sq))"
    by (simp add: word_less_nat_alt [symmetric]) (simp add: unat_minus_one unat_gt_0 word_less_nat_alt)
qed simp

declare process_sq.simps [simp del]

section \<open>The interface of a bounded queue\<close>

text \<open>
  A queue that takes elements while there is room, drops them silently when it is full, and gives them
  back in order.
\<close>

locale bounded_queue =
  fixes offer :: "'q \<Rightarrow> 'a \<Rightarrow> 'q"
    and poll :: "'q \<Rightarrow> ('a \<times> 'q) option"
    and contents :: "'q \<Rightarrow> 'a list"
    and cap :: "'q \<Rightarrow> nat"
    and invar :: "'q \<Rightarrow> bool"
  assumes bounded: "invar q \<Longrightarrow> length (contents q) \<le> cap q"
    and offer_invar: "invar q \<Longrightarrow> invar (offer q x) \<and> cap (offer q x) = cap q"
    and offer_contents: "invar q \<Longrightarrow> contents (offer q x) =
      (if length (contents q) < cap q then contents q @ [x] else contents q)"
    and poll_empty: "invar q \<Longrightarrow> contents q = [] \<Longrightarrow> poll q = None"
    and poll_head: "invar q \<Longrightarrow> contents q = x # xs \<Longrightarrow>
      \<exists>q'. poll q = Some (x, q') \<and> invar q' \<and> cap q' = cap q \<and> contents q' = xs"
begin

definition offer_all :: "'a list \<Rightarrow> 'q \<Rightarrow> 'q" where
  "offer_all xs q = fold (\<lambda>x q. offer q x) xs q"

lemma offer_all_invar: "invar q \<Longrightarrow> invar (offer_all xs q) \<and> cap (offer_all xs q) = cap q"
  by (induction xs arbitrary: q) (simp_all add: offer_all_def offer_invar)

lemma offer_all_contents:
  "invar q \<Longrightarrow> contents (offer_all xs q) = contents q @ take (cap q - length (contents q)) xs"
proof (induction xs arbitrary: q)
  case (Cons x xs)
  have "contents (offer_all (x # xs) q) = contents (offer_all xs (offer q x))" by (simp add: offer_all_def)
  also have "\<dots> = contents (offer q x) @ take (cap q - length (contents (offer q x))) xs"
    using Cons offer_invar by simp
  also have "\<dots> = contents q @ take (cap q - length (contents q)) (x # xs)"
    using Cons.prems bounded by (auto simp: offer_contents take_Cons' Suc_diff_Suc)
  finally show ?case .
qed (simp add: offer_all_def)

end

section \<open>Rings are bounded queues\<close>

definition ring_ok :: "ring_header \<times> 'a list \<Rightarrow> bool" where
  "ring_ok q \<longleftrightarrow> (\<exists>k \<le> 31. entries (fst q) = 2 ^ k \<and> ring_mask (fst q) = mask k \<and> length (snd q) = 2 ^ k
     \<and> ring_len (fst q) \<le> entries (fst q))"

definition ring_contents :: "ring_header \<times> 'a list \<Rightarrow> 'a list" where
  "ring_contents q = map (\<lambda>i. snd q ! index (fst q) (head (fst q) + of_nat i)) [0..<unat (ring_len (fst q))]"

definition ring_cap :: "ring_header \<times> 'a list \<Rightarrow> nat" where
  "ring_cap q = unat (entries (fst q))"

text \<open>Taking the next entry, as \<^verbatim>\<open>process_sq\<close> does at the head of its loop.\<close>

definition take_entry :: "ring_header \<times> 'a list \<Rightarrow> ('a \<times> (ring_header \<times> 'a list)) option" where
  "take_entry q = (case q of (h, buf) \<Rightarrow>
     if is_empty h then None
     else (let (pos, h') = pop h; i = index h' pos
           in if length buf \<le> i then None else Some (buf ! i, (h', buf))))"

lemma index_mod:
  assumes "ring_mask h = mask k" and "k \<le> 31"
  shows "index h (p + of_nat i) = (unat p + i) mod 2 ^ k"
proof -
  have "index h (p + of_nat i) = unat (p + of_nat i) mod 2 ^ k"
    by (simp only: index_def assms(1) unat_and_mask)
  also have "unat (p + of_nat i) = (unat p + i) mod 2 ^ 32"
    by (simp add: unat_word_ariths unat_of_nat mod_simps)
  also have "(unat p + i) mod 2 ^ 32 mod 2 ^ k = (unat p + i) mod 2 ^ k"
    using assms(2) by (intro mod_mod_cancel le_imp_power_dvd) simp
  finally show ?thesis .
qed

lemma slots_distinct:
  fixes x :: nat
  assumes "i < j" and "j < m"
  shows "(x + i) mod m \<noteq> (x + j) mod m"
proof
  assume "(x + i) mod m = (x + j) mod m"
  then have "m dvd (x + j) - (x + i)" using mod_eq_dvd_iff_nat [of "x + i" "x + j" m] assms(1) by simp
  then show False using assms by (auto dest: dvd_imp_le)
qed

lemma ring_len_room: "ring_ok (h, buf) \<Longrightarrow> unat (ring_len h) \<le> unat (entries h)"
  by (auto simp: ring_ok_def word_le_nat_alt)

lemma complete_contents:
  assumes ok: "ring_ok (h, buf)" and room: "\<not> is_full h"
  shows "ring_ok (complete (h, buf) x) \<and> ring_contents (complete (h, buf) x) = ring_contents (h, buf) @ [x]"
proof -
  obtain k where k: "k \<le> 31" "entries h = 2 ^ k" "ring_mask h = mask k" "length buf = 2 ^ k"
    using ok by (auto simp: ring_ok_def)
  define n where "n = unat (ring_len h)"
  let ?h = "h\<lparr>tail := tail h + 1\<rparr>" and ?i = "index h (tail h)"
  have e: "unat (entries h) = 2 ^ k" using k(1,2) by (simp add: unat_pow2)
  have n: "n < 2 ^ k" using room e by (simp add: is_full_def word_le_nat_alt n_def)
  also have "(2 :: nat) ^ k \<le> 2 ^ 31" using k(1) by (intro power_increasing) simp_all
  finally have small: "n + 1 < 2 ^ 32" by simp
  have t: "tail h = head h + of_nat n" by (simp add: n_def ring_len_def)
  have len: "ring_len ?h = ring_len h + 1" by (simp add: ring_len_def)
  have un: "unat (ring_len ?h) = n + 1"
    unfolding len using small by (simp add: unat_word_ariths n_def)
  have ix: "index ?h p = index h p" for p by (simp add: index_def)
  have slot: "index h (head h + of_nat i) = (unat (head h) + i) mod 2 ^ k" for i using index_mod [OF k(3,1)] .
  then have i: "?i = (unat (head h) + n) mod 2 ^ k" by (simp add: t)
  then have ib: "?i < length buf" using k(4) by simp
  have c: "complete (h, buf) x = (?h, buf[?i := x])"
    using room ib by (simp add: complete_def push_def ix)
  have "ring_ok (?h, buf[?i := x])"
    using k e un n by (auto simp: ring_ok_def word_le_nat_alt intro!: exI [of _ k])
  moreover have "buf[?i := x] ! index h (head h + of_nat j) = buf ! index h (head h + of_nat j)" if "j < n" for j
    using slots_distinct [OF that n, of "unat (head h)"] by (simp add: slot i)
  then have "ring_contents (?h, buf[?i := x]) = ring_contents (h, buf) @ [x]"
    using ib un by (simp add: ring_contents_def ix n_def [symmetric]) (simp add: t)
  ultimately show ?thesis unfolding c by simp
qed

lemma take_entry_contents:
  assumes ok: "ring_ok (h, buf)" and c: "ring_contents (h, buf) = x # xs"
  shows "\<exists>h'. take_entry (h, buf) = Some (x, (h', buf)) \<and> h' = snd (pop h) \<and> ring_ok (h', buf) \<and> ring_contents (h', buf) = xs"
proof -
  obtain k where k: "k \<le> 31" "entries h = 2 ^ k" "ring_mask h = mask k" "length buf = 2 ^ k"
    "ring_len h \<le> entries h" using ok by (auto simp: ring_ok_def)
  define n where "n = unat (ring_len h)"
  let ?h = "h\<lparr>head := head h + 1\<rparr>"
  have n0: "0 < n" using c by (cases n) (auto simp: ring_contents_def n_def)
  then have ne: "\<not> is_empty h" by (auto simp: is_empty_def n_def)
  have len: "ring_len ?h = ring_len h - 1" by (simp add: ring_len_def)
  have un: "unat (ring_len ?h) = n - 1" unfolding len using n0 by (simp add: n_def unat_minus_one unat_gt_0)
  have ix: "index ?h p = index h p" for p by (simp add: index_def)
  have "index h (head h) = unat (head h) mod 2 ^ k" using index_mod [OF k(3,1), of "head h" 0] by simp
  then have ib: "index h (head h) < length buf" using k(4) by simp
  have "[0..<n] = 0 # map Suc [0..<n - 1]" using n0 by (metis Suc_diff_1 map_Suc_upt upt_rec)
  then have "ring_contents (h, buf) = buf ! index h (head h) # ring_contents (?h, buf)"
    by (simp add: ring_contents_def ix un n_def [symmetric] comp_def add.assoc)
  then have "x = buf ! index h (head h)" "ring_contents (?h, buf) = xs" using c by auto
  moreover have "ring_ok (?h, buf)"
    using k un n0 by (auto simp: ring_ok_def word_le_nat_alt n_def intro!: exI [of _ k])
  ultimately show ?thesis using ne ib by (simp add: take_entry_def pop_def ix)
qed

interpretation ring: bounded_queue complete take_entry ring_contents ring_cap ring_ok
proof (unfold_locales, goal_cases)
  case (1 q)
  then show ?case using ring_len_room [of "fst q" "snd q"] by (simp add: ring_contents_def ring_cap_def)
next
  case (2 q x)
  then show ?case using complete_contents [of "fst q" "snd q" x]
    by (cases "is_full (fst q)") (auto simp: complete_def push_def ring_cap_def Let_def split: prod.splits)
next
  case (3 q x)
  have "is_full (fst q) \<longleftrightarrow> ring_cap q \<le> length (ring_contents q)"
    by (simp add: is_full_def ring_cap_def ring_contents_def word_le_nat_alt)
  then show ?case using complete_contents [of "fst q" "snd q" x] 3
    by (cases "is_full (fst q)") (auto simp: complete_def split: prod.splits)
next
  case (4 q)
  then have "is_empty (fst q)" by (simp add: ring_contents_def is_empty_def unat_eq_0)
  then show ?case by (cases q) (simp add: take_entry_def)
next
  case (5 q x xs)
  obtain h buf where q: "q = (h, buf)" by (cases q)
  from take_entry_contents [of h buf x xs] 5 show ?case unfolding q
    by (auto simp: pop_def ring_cap_def)
qed

definition completion :: "sq_entry \<Rightarrow> cq_entry" where
  "completion sqe = cq_new (sq_user_data sqe) (execute_sqe sqe)"

lemma process_sq_step:
  assumes "ring_ok (sq, sqb)" and "ring_contents (sq, sqb) = x # xs"
  shows "process_sq sq sqb cq = process_sq (snd (pop sq)) sqb (complete cq (completion x))"
    and "ring_ok (snd (pop sq), sqb)" and "ring_contents (snd (pop sq), sqb) = xs"
  using take_entry_contents [OF assms]
  by (auto simp: take_entry_def process_sq.simps [of sq] completion_def pop_def Let_def split: if_splits)

lemma process_sq_fold:
  assumes "ring_ok (sq, sqb)"
  shows "\<exists>sq'. process_sq sq sqb cq = (sq', ring.offer_all (map completion (ring_contents (sq, sqb))) cq)
    \<and> ring_ok (sq', sqb) \<and> ring_contents (sq', sqb) = []"
  using assms
proof (induction "ring_contents (sq, sqb)" arbitrary: sq cq)
  case Nil
  then have "is_empty sq" by (simp add: ring_contents_def is_empty_def unat_eq_0)
  then show ?case using Nil by (simp add: process_sq.simps [of sq] ring.offer_all_def)
next
  case (Cons x xs)
  note S = process_sq_step [OF Cons.prems Cons.hyps(2) [symmetric]]
  have "\<exists>sq'. process_sq (snd (pop sq)) sqb (complete cq (completion x))
      = (sq', ring.offer_all (map completion xs) (complete cq (completion x)))
    \<and> ring_ok (sq', sqb) \<and> ring_contents (sq', sqb) = []"
    using Cons.hyps(1) [of "snd (pop sq)" "complete cq (completion x)"] S by simp
  then show ?case using S(1) by (simp add: Cons.hyps(2) [symmetric] ring.offer_all_def)
qed

lemma ring_new_spec:
  assumes "unat n \<le> 2 ^ 31"
  shows "\<exists>k h. k \<le> 31 \<and> unat n \<le> 2 ^ k \<and> ring_new n = Some h \<and> entries h = 2 ^ k \<and> ring_mask h = mask k
    \<and> head h = 0 \<and> tail h = 0 \<and> (\<forall>j < k. 2 ^ j < unat n)"
proof -
  have "find (\<lambda>k. unat n \<le> 2 ^ k) [0..<32] \<noteq> None"
    unfolding find_None_iff using assms by (auto intro!: exI [of _ 31])
  then obtain k where "find (\<lambda>k. unat n \<le> 2 ^ k) [0..<32] = Some k" by blast
  then have f: "find (\<lambda>k. unat n \<le> 2 ^ k) [0..<32] = Some k" "k < 32" "unat n \<le> 2 ^ k" "\<forall>j < k. \<not> unat n \<le> 2 ^ j"
    by (auto simp: find_Some_iff)
  have "1 \<le> (2 ^ k :: u32)" using f(2) by (simp add: word_le_nat_alt unat_pow2)
  then have "ring_new n = Some \<lparr>head = 0, tail = 0, ring_mask = mask k, entries = 2 ^ k\<rparr>"
    using f by (simp add: ring_new_def next_power_of_two_def checked_sub_def mask_eq_exp_minus_1)
  then show ?thesis using f by (intro exI [of _ k]) (auto simp: not_le)
qed

section \<open>Properties\<close>

text \<open> C12: \<^verbatim>\<open>process_sq\<close> terminates and refines the transfer between two bounded queues: on well-formed rings it
  empties the submission ring in order and appends to the completion ring the completion of each request,
  with its \<^verbatim>\<open>user_data\<close>, as long as there is room; the completions of the remaining requests, which are consumed
  all the same, are dropped.\<close>

theorem process_sq_transfers:
  assumes "ring_ok (sq, sqb)" and "ring_ok cq"
  shows "\<exists>sq' cq'. process_sq sq sqb cq = (sq', cq') \<and> ring_ok (sq', sqb) \<and> ring_contents (sq', sqb) = []
    \<and> ring_ok cq' \<and> ring_contents cq' = ring_contents cq @
        take (ring_cap cq - length (ring_contents cq))
          (map (\<lambda>sqe. cq_new (sq_user_data sqe) (execute_sqe sqe)) (ring_contents (sq, sqb)))"
  using process_sq_fold [OF assms(1), of cq] ring.offer_all_contents [OF assms(2)] ring.offer_all_invar [OF assms(2)]
  by (fastforce simp: completion_def [abs_def])

definition demo_sq :: "ring_header \<times> sq_entry list" where
  "demo_sq = (\<lparr>head = - 1, tail = 1, ring_mask = 1, entries = 2\<rparr>, [sq_read 3 0x1000 8 0 7, sq_write 4 0x2000 5 0 9])"

definition demo_cq :: "ring_header \<times> cq_entry list" where
  "demo_cq = (\<lparr>head = 0, tail = 0, ring_mask = 0, entries = 1\<rparr>, [cq_new 0 0])"

lemma demo_rings: "ring_ok demo_sq" "ring_ok demo_cq"
  "ring_contents demo_sq = [sq_write 4 0x2000 5 0 9, sq_read 3 0x1000 8 0 7]" "ring_contents demo_cq = []" "ring_cap demo_cq = 1"
  by (auto simp: demo_sq_def demo_cq_def ring_ok_def ring_len_def ring_contents_def index_def ring_cap_def upt_rec
      mask_eq_exp_minus_1 intro: exI [of _ 1] exI [of _ 0])

theorem process_sq_transfers_witness:
  "\<exists>sq' cq'. process_sq (fst demo_sq) (snd demo_sq) demo_cq = (sq', cq') \<and> ring_contents (sq', snd demo_sq) = []
     \<and> ring_contents cq' = [cq_new 9 5]"
  using process_sq_transfers [of "fst demo_sq" "snd demo_sq" demo_cq] demo_rings
  by (auto simp: sq_write_def sq_read_def sq_new_def execute_sqe_def execute_write_def OP_READ_def OP_WRITE_def)

text \<open> C13: A ring is a FIFO queue for every history of its positions, wrap-around of the 32-bit counters included:
  writing at a full ring changes nothing, otherwise the new element is the last one, every earlier element keeps
  its place, and reading gives the elements in the order they were written. A header for up to \<open>2 ^ 31\<close> entries
  is created empty with the least power of two that is large enough.\<close>

theorem ring_is_bounded_fifo:
  assumes "ring_ok (h, buf)" and "unat n \<le> 2 ^ 31"
  shows "ring_ok (complete (h, buf) x)
    \<and> ring_contents (complete (h, buf) x) = (if is_full h then ring_contents (h, buf) else ring_contents (h, buf) @ [x])
    \<and> (is_empty h \<longleftrightarrow> ring_contents (h, buf) = [])
    \<and> (\<forall>y ys. ring_contents (h, buf) = y # ys \<longrightarrow>
         index h (fst (pop h)) < length buf \<and> buf ! index h (fst (pop h)) = y
         \<and> ring_ok (snd (pop h), buf) \<and> ring_contents (snd (pop h), buf) = ys)
    \<and> (\<exists>k g. k \<le> 31 \<and> ring_new n = Some g \<and> entries g = 2 ^ k \<and> unat n \<le> 2 ^ k \<and> (\<forall>j < k. 2 ^ j < unat n)
         \<and> ring_ok (g, replicate (2 ^ k) x) \<and> ring_contents (g, replicate (2 ^ k) x) = [])"
proof (intro conjI)
  show "ring_ok (complete (h, buf) x)" using ring.offer_invar [OF assms(1)] by blast
  have full: "is_full h \<longleftrightarrow> \<not> length (ring_contents (h, buf)) < ring_cap (h, buf)"
    by (simp add: is_full_def ring_cap_def ring_contents_def word_le_nat_alt not_less)
  then show "ring_contents (complete (h, buf) x) =
      (if is_full h then ring_contents (h, buf) else ring_contents (h, buf) @ [x])"
    using ring.offer_contents [OF assms(1), of x] by simp
  show "is_empty h \<longleftrightarrow> ring_contents (h, buf) = []" by (simp add: ring_contents_def is_empty_def unat_eq_0)
  show "\<forall>y ys. ring_contents (h, buf) = y # ys \<longrightarrow>
         index h (fst (pop h)) < length buf \<and> buf ! index h (fst (pop h)) = y
         \<and> ring_ok (snd (pop h), buf) \<and> ring_contents (snd (pop h), buf) = ys"
    using take_entry_contents [OF assms(1)]
    by (fastforce simp: take_entry_def pop_def index_def Let_def split: if_splits)
  show "\<exists>k g. k \<le> 31 \<and> ring_new n = Some g \<and> entries g = 2 ^ k \<and> unat n \<le> 2 ^ k \<and> (\<forall>j < k. 2 ^ j < unat n)
         \<and> ring_ok (g, replicate (2 ^ k) x) \<and> ring_contents (g, replicate (2 ^ k) x) = []"
    using ring_new_spec [OF assms(2)]
    by (fastforce simp: ring_ok_def ring_len_def ring_contents_def)
qed

theorem ring_is_bounded_fifo_witness:
  "ring_contents (complete demo_cq (cq_new 1 2)) = [cq_new 1 2]"
  using ring_is_bounded_fifo [of "fst demo_cq" "snd demo_cq" 1 "cq_new 1 2"] demo_rings
  by (simp add: demo_cq_def is_full_def ring_len_def)

end
