(* ===== verification/Block.thy ===== *)
theory Block
  imports Cap
begin

text \<open>
  Block devices (\<^verbatim>\<open>hammam/src/block/mod.rs\<close>): the device interface as a record of operations, the description of a
  device, and the registry under whose numbers drivers are found. The registry is a table of handles.
\<close>

datatype block_error = Timeout | BadAddress | OutOfRange

text \<open>\<^verbatim>\<open>trait BlockDevice\<close> of a device with state \<open>'d\<close>; a read answers the new contents of the buffer.\<close>

record 'd block_device =
  bd_block_size :: "'d \<Rightarrow> usize"
  bd_block_count :: "'d \<Rightarrow> u64"
  bd_read_blocks :: "'d \<Rightarrow> u64 \<Rightarrow> u8 list \<Rightarrow> block_error + u8 list"
  bd_write_blocks :: "'d \<Rightarrow> u64 \<Rightarrow> u8 list \<Rightarrow> block_error + 'd"
  bd_device_name :: "'d \<Rightarrow> string"
  bd_is_ready :: "'d \<Rightarrow> bool"

definition default_device_name :: "'d \<Rightarrow> string" where
  "default_device_name d = ''block_device''"

definition default_is_ready :: "'d \<Rightarrow> bool" where
  "default_is_ready d = True"

record block_device_info =
  info_name :: string
  info_block_size :: usize
  info_block_count :: u64

definition info_new :: "string \<Rightarrow> usize \<Rightarrow> u64 \<Rightarrow> block_device_info" where
  "info_new name bsize bcount = \<lparr>info_name = name, info_block_size = bsize, info_block_count = bcount\<rparr>"

definition total_size_bytes :: "block_device_info \<Rightarrow> u64 option" where
  "total_size_bytes i = checked_mul (info_block_size i) (info_block_count i)"

section \<open>The registry\<close>

type_synonym 'd registry = "'d list"

definition registry_new :: "'d registry" where
  "registry_new = []"

definition register :: "'d registry \<Rightarrow> 'd \<Rightarrow> u32 \<times> 'd registry" where
  "register r dev = (of_nat (length r), r @ [dev])"

definition registry_get :: "'d registry \<Rightarrow> u32 \<Rightarrow> 'd option" where
  "registry_get r i = (if unat i < length r then Some (r ! unat i) else None)"

definition device_count :: "'d registry \<Rightarrow> nat" where
  "device_count r = length r"

definition list_devices :: "'d registry \<Rightarrow> 'd list" where
  "list_devices r = r"

definition find_by_name :: "('d \<Rightarrow> string) \<Rightarrow> 'd registry \<Rightarrow> string \<Rightarrow> 'd option" where
  "find_by_name name_of r name = find (\<lambda>dev. name_of dev = name) r"

interpretation devices: handle_table registry_new register registry_get device_count
proof
  show "device_count t < 2 ^ 32 \<Longrightarrow> registry_get (snd (register t v)) h
      = (if h = fst (register t v) then Some v else registry_get t h)" for t and v :: 'a and h
    using unat_of_nat_small [of "length t", where 'a = 32]
    by (auto simp: registry_get_def register_def nth_append word_unat_eq_iff less_Suc_eq device_count_def)
qed (auto simp: registry_get_def register_def registry_new_def device_count_def)

lemma register_all: "foldl (\<lambda>t v. snd (register t v)) r devs = r @ devs"
  by (induction devs arbitrary: r) (simp_all add: register_def)

text \<open>The registry finds every device under the number its registration answered. After registering at most
  \<open>2 ^ 32\<close> devices, number \<open>i\<close> gives the \<open>i\<close>-th device, other numbers give none, and a search by name gives the first
  registered device of that name.\<close>

lemma registry_numbers:
  assumes "length devs \<le> 2 ^ 32"
  shows "registry_get (foldl (\<lambda>t v. snd (register t v)) registry_new devs) i
      = (if unat i < length devs then Some (devs ! unat i) else None)
    \<and> (\<forall>j < length devs. fst (register (foldl (\<lambda>t v. snd (register t v)) registry_new (take j devs)) (devs ! j)) = of_nat j)
    \<and> find_by_name name_of (foldl (\<lambda>t v. snd (register t v)) registry_new devs) nm
      = (case filter (\<lambda>d. name_of d = nm) devs of [] \<Rightarrow> None | d # _ \<Rightarrow> Some d)"
proof -
  have "fst (register (foldl (\<lambda>t v. snd (register t v)) registry_new (take j devs)) (devs ! j)) = of_nat j" if "j < length devs" for j
    using devices.add_handle [of "take j devs"] that assms by (simp add: register_all registry_new_def device_count_def)
  moreover have "find P xs = (case filter P xs of [] \<Rightarrow> None | d # _ \<Rightarrow> Some d)" for P and xs :: "'a list"
    by (induction xs) auto
  moreover have "registry_get (foldl (\<lambda>t v. snd (register t v)) registry_new devs) i
      = (if unat i < length devs then Some (devs ! unat i) else None)"
    using devices.get_add_all [of registry_new devs i] assms by (simp add: devices.count_empty devices.get_empty)
  ultimately show ?thesis by (simp add: find_by_name_def register_all registry_new_def)
qed

end
