(* ===== verification/PageCache.thy ===== *)
theory PageCache
  imports Btree "HOL-Library.Product_Lexorder"
begin

text \<open>
  The page cache (\<^verbatim>\<open>hammam/src/mm/page_cache.rs\<close>): an ordered map from inode and page index to shared pages. A page
  is reached through an \<^verbatim>\<open>Arc<Mutex<CachedPage>>\<close>, so the model keeps the pages in a store and the map holds references
  into it; a reference obtained earlier keeps its page after an eviction. A locked update is one step.
\<close>

section \<open>State\<close>

type_synonym page_key = "u64 \<times> u64"
type_synonym page_data = "u8 list"

record cached_page =
  page_data :: page_data
  dirty :: bool

definition cached_page_new :: "page_data \<Rightarrow> cached_page" where
  "cached_page_new d = \<lparr>page_data = d, dirty = False\<rparr>"

definition page_mark_dirty :: "cached_page \<Rightarrow> cached_page" where
  "page_mark_dirty p = p\<lparr>dirty := True\<rparr>"

definition page_mark_clean :: "cached_page \<Rightarrow> cached_page" where
  "page_mark_clean p = p\<lparr>dirty := False\<rparr>"

text \<open>\<open>fresh\<close> is the next unused reference: \<^verbatim>\<open>Arc::new\<close> takes it.\<close>

record page_cache =
  pages :: "(page_key \<times> nat) list"
  store :: "nat \<Rightarrow> cached_page"
  fresh :: nat

definition cache_new :: page_cache where
  "cache_new = \<lparr>pages = [], store = (\<lambda>_. cached_page_new []), fresh = 0\<rparr>"

definition arc_new :: "page_cache \<Rightarrow> cached_page \<Rightarrow> nat \<times> page_cache" where
  "arc_new c p = (fresh c, c\<lparr>store := (store c)(fresh c := p), fresh := Suc (fresh c)\<rparr>)"

definition with_page :: "page_cache \<Rightarrow> nat \<Rightarrow> (cached_page \<Rightarrow> cached_page) \<Rightarrow> page_cache" where
  "with_page c r f = c\<lparr>store := (store c)(r := f (store c r))\<rparr>"

section \<open>Operations\<close>

definition get_or_load :: "page_cache \<Rightarrow> u64 \<Rightarrow> u64 \<Rightarrow> (unit \<Rightarrow> page_data) \<Rightarrow> nat \<times> page_cache" where
  "get_or_load c inode idx loader =
     (case bt_get (pages c) (inode, idx) of
        Some r \<Rightarrow> (r, c)
      | None \<Rightarrow>
          let (r, c1) = arc_new c \<lparr>page_data = loader (), dirty = False\<rparr>
          in (r, c1\<lparr>pages := bt_insert (pages c1) (inode, idx) r\<rparr>))"

definition cache_get :: "page_cache \<Rightarrow> u64 \<Rightarrow> u64 \<Rightarrow> nat option" where
  "cache_get c inode idx = bt_get (pages c) (inode, idx)"

definition cache_insert :: "page_cache \<Rightarrow> u64 \<Rightarrow> u64 \<Rightarrow> cached_page \<Rightarrow> nat option \<times> page_cache" where
  "cache_insert c inode idx page =
     (let (r, c1) = arc_new c page
      in (bt_get (pages c1) (inode, idx), c1\<lparr>pages := bt_insert (pages c1) (inode, idx) r\<rparr>))"

definition evict :: "page_cache \<Rightarrow> u64 \<Rightarrow> u64 \<Rightarrow> bool \<times> page_cache" where
  "evict c inode idx =
     (bt_get (pages c) (inode, idx) \<noteq> None, c\<lparr>pages := bt_remove (pages c) (inode, idx)\<rparr>)"

definition evict_inode :: "page_cache \<Rightarrow> u64 \<Rightarrow> nat \<times> page_cache" where
  "evict_inode c inode =
     (let initial_count = length (pages c);
          keys_to_remove = filter (\<lambda>(i, _). i = inode) (map fst (pages c));
          rest = fold (\<lambda>k m. bt_remove m k) keys_to_remove (pages c)
      in (initial_count - length rest, c\<lparr>pages := rest\<rparr>))"

definition get_dirty_pages :: "page_cache \<Rightarrow> page_key list" where
  "get_dirty_pages c = map fst (filter (\<lambda>(_, r). dirty (store c r)) (pages c))"

definition mark_dirty :: "page_cache \<Rightarrow> u64 \<Rightarrow> u64 \<Rightarrow> bool \<times> page_cache" where
  "mark_dirty c inode idx =
     (case bt_get (pages c) (inode, idx) of
        Some r \<Rightarrow> (True, with_page c r page_mark_dirty)
      | None \<Rightarrow> (False, c))"

definition mark_clean :: "page_cache \<Rightarrow> u64 \<Rightarrow> u64 \<Rightarrow> bool \<times> page_cache" where
  "mark_clean c inode idx =
     (case bt_get (pages c) (inode, idx) of
        Some r \<Rightarrow> (True, with_page c r page_mark_clean)
      | None \<Rightarrow> (False, c))"

text \<open>The loop of \<^verbatim>\<open>sync_inode\<close> over the collected keys, with the counter.\<close>

primrec sync_loop :: "page_cache \<Rightarrow> page_key list \<Rightarrow> nat \<Rightarrow> nat \<times> page_cache" where
  "sync_loop c [] synced = (synced, c)"
| "sync_loop c (k # ks) synced =
     (case bt_get (pages c) k of
        Some r \<Rightarrow> sync_loop (with_page c r page_mark_clean) ks (synced + 1)
      | None \<Rightarrow> sync_loop c ks synced)"

definition sync_inode :: "page_cache \<Rightarrow> u64 \<Rightarrow> nat \<times> page_cache" where
  "sync_inode c inode =
     sync_loop c (map fst (filter (\<lambda>((i, _), r). i = inode \<and> dirty (store c r)) (pages c))) 0"

definition cached_pages :: "page_cache \<Rightarrow> nat" where
  "cached_pages c = length (pages c)"

definition dirty_pages_count :: "page_cache \<Rightarrow> nat" where
  "dirty_pages_count c = length (filter (\<lambda>(_, r). dirty (store c r)) (pages c))"

definition cache_clear :: "page_cache \<Rightarrow> page_cache" where
  "cache_clear c = c\<lparr>pages := []\<rparr>"

definition cache_size_bytes :: "page_cache \<Rightarrow> nat" where
  "cache_size_bytes c = length (pages c) * 4096"

definition page_cache_get_or_load :: "page_cache \<Rightarrow> u64 \<Rightarrow> u64 \<Rightarrow> (unit \<Rightarrow> page_data) \<Rightarrow> nat \<times> page_cache" where
  "page_cache_get_or_load c inode idx loader = get_or_load c inode idx loader"

definition page_cache_evict :: "page_cache \<Rightarrow> u64 \<Rightarrow> u64 \<Rightarrow> bool \<times> page_cache" where
  "page_cache_evict c inode idx = evict c inode idx"

section \<open>The cache as a map\<close>

definition cache_ok :: "page_cache \<Rightarrow> bool" where
  "cache_ok c \<longleftrightarrow> bt_ok (pages c) \<and> (\<forall>(k, r) \<in> set (pages c). r < fresh c)
     \<and> (\<forall>(k, r) \<in> set (pages c). \<forall>(j, q) \<in> set (pages c). r = q \<longrightarrow> k = j)"

definition page_at :: "page_cache \<Rightarrow> page_key \<Rightarrow> cached_page option" where
  "page_at c k = map_option (store c) (bt_get (pages c) k)"

definition dirty_keys :: "page_cache \<Rightarrow> page_key set" where
  "dirty_keys c = {k. \<exists>p. page_at c k = Some p \<and> dirty p}"

lemma cache_okD:
  assumes "cache_ok c"
  shows "bt_ok (pages c)" "bt_get (pages c) k = Some r \<Longrightarrow> r < fresh c"
    "bt_get (pages c) k = Some r \<Longrightarrow> bt_get (pages c) j = Some r \<Longrightarrow> j = k"
  using assms unfolding cache_ok_def by (auto simp: bt_get_Some_set)

lemma arc_new_simps [simp]:
  "fst (arc_new c p) = fresh c" "pages (snd (arc_new c p)) = pages c"
  "store (snd (arc_new c p)) = (store c)(fresh c := p)" "fresh (snd (arc_new c p)) = Suc (fresh c)"
  by (simp_all add: arc_new_def)

lemma with_page_simps [simp]:
  "pages (with_page c r f) = pages c" "fresh (with_page c r f) = fresh c"
  "store (with_page c r f) = (store c)(r := f (store c r))" "cache_ok (with_page c r f) = cache_ok c"
  by (simp_all add: with_page_def cache_ok_def)

text \<open>A new page under a fresh reference, as \<^verbatim>\<open>insert\<close> and the miss of \<^verbatim>\<open>get_or_load\<close> make it.\<close>

lemma fresh_page:
  fixes p k
  assumes "cache_ok c"
  defines "c' \<equiv> (snd (arc_new c p))\<lparr>pages := bt_insert (pages c) k (fresh c)\<rparr>"
  shows "cache_ok c'" "page_at c' = (page_at c)(k \<mapsto> p)"
proof -
  note ok = cache_okD(1) [OF assms(1)]
  have lt: "\<forall>(k, r) \<in> set (pages c). r < fresh c" using assms(1) by (simp add: cache_ok_def)
  show "cache_ok c'"
    unfolding cache_ok_def
  proof (intro conjI)
    show "bt_ok (pages c')" using ok by (simp add: c'_def bt_ok_insert)
    show "\<forall>(k, r) \<in> set (pages c'). r < fresh c'" using lt by (auto simp: c'_def set_bt_insert [OF ok])
    show "\<forall>(k, r) \<in> set (pages c'). \<forall>(j, q) \<in> set (pages c'). r = q \<longrightarrow> k = j"
      using lt assms(1) by (fastforce simp: c'_def set_bt_insert [OF ok] cache_ok_def)
  qed
  have "r < fresh c" if "bt_get (pages c) j = Some r" for j r using cache_okD(2) [OF assms(1) that] .
  then show "page_at c' = (page_at c)(k \<mapsto> p)"
    by (intro ext) (fastforce simp: c'_def page_at_def bt_get_insert [OF ok] intro: option.map_cong)
qed

lemma cache_insert_spec:
  assumes "cache_ok c"
  shows "cache_ok (snd (cache_insert c i x p))" "page_at (snd (cache_insert c i x p)) = (page_at c)((i, x) \<mapsto> p)"
  using fresh_page [OF assms, where p = p and k = "(i, x)"]
  by (simp_all add: cache_insert_def arc_new_def)

lemma get_or_load_spec:
  assumes "cache_ok c"
  shows "cache_ok (snd (get_or_load c i x ld))"
    and "page_at (snd (get_or_load c i x ld)) = (case page_at c (i, x) of Some p \<Rightarrow> page_at c
      | None \<Rightarrow> (page_at c)((i, x) \<mapsto> cached_page_new (ld ())))"
    and "cache_get (snd (get_or_load c i x ld)) i x = Some (fst (get_or_load c i x ld))"
proof -
  show "cache_ok (snd (get_or_load c i x ld))"
    using fresh_page(1) [OF assms, where p = "cached_page_new (ld ())" and k = "(i, x)"] assms
    by (simp add: get_or_load_def arc_new_def cached_page_new_def split: option.split)
  show "page_at (snd (get_or_load c i x ld)) = (case page_at c (i, x) of Some p \<Rightarrow> page_at c
      | None \<Rightarrow> (page_at c)((i, x) \<mapsto> cached_page_new (ld ())))"
    using fresh_page(2) [OF assms, where p = "cached_page_new (ld ())" and k = "(i, x)"]
    by (simp add: get_or_load_def arc_new_def cached_page_new_def page_at_def [of c "(i, x)"] split: option.split)
  show "cache_get (snd (get_or_load c i x ld)) i x = Some (fst (get_or_load c i x ld))"
    by (auto simp: get_or_load_def arc_new_def cache_get_def bt_get_insert [OF cache_okD(1) [OF assms]] split: option.split)
qed

lemma cache_ok_subset:
  "cache_ok c \<Longrightarrow> bt_ok m \<Longrightarrow> set m \<subseteq> set (pages c) \<Longrightarrow> cache_ok (c\<lparr>pages := m\<rparr>)"
  unfolding cache_ok_def by (simp add: subset_eq) blast

lemma evict_spec:
  assumes "cache_ok c"
  shows "cache_ok (snd (evict c i x))" "page_at (snd (evict c i x)) = (page_at c)((i, x) := None)"
    "fst (evict c i x) \<longleftrightarrow> page_at c (i, x) \<noteq> None"
proof -
  show "cache_ok (snd (evict c i x))"
    using cache_ok_subset [OF assms bt_ok_remove [OF cache_okD(1) [OF assms]]] by (auto simp: evict_def)
qed (auto simp: evict_def page_at_def bt_get_remove)

lemma remove_keys: "fold (\<lambda>k m. bt_remove m k) ks m = filter (\<lambda>(k, _). k \<notin> set ks) m"
  by (induction ks arbitrary: m) (auto simp: bt_remove_def intro!: filter_cong)

lemma evict_inode_spec:
  assumes "cache_ok c"
  shows "cache_ok (snd (evict_inode c i))"
    and "page_at (snd (evict_inode c i)) = (\<lambda>k. if fst k = i then None else page_at c k)"
    and "fst (evict_inode c i) = card {k. fst k = i \<and> page_at c k \<noteq> None}"
proof -
  have rest: "fold (\<lambda>k m. bt_remove m k) (filter (\<lambda>(j, _). j = i) (map fst (pages c))) (pages c)
      = filter (\<lambda>(k, _). fst k \<noteq> i) (pages c)"
    unfolding remove_keys by (intro filter_cong) (auto intro: rev_image_eqI [where f = fst])
  have g: "bt_get (filter (\<lambda>(k, _). fst k \<noteq> i) m) k = (if fst k = i then None else bt_get m k)" for m k
    unfolding bt_get_def by (induction m) auto
  note ok = cache_okD(1) [OF assms]
  show "cache_ok (snd (evict_inode c i))"
    using cache_ok_subset [OF assms bt_ok_filter [OF ok]] by (simp add: evict_inode_def rest Let_def)
  show "page_at (snd (evict_inode c i)) = (\<lambda>k. if fst k = i then None else page_at c k)"
    by (auto simp: evict_inode_def rest page_at_def g Let_def)
  have "length (pages c) - length (filter (\<lambda>(k, _). fst k \<noteq> i) (pages c)) = length (filter (\<lambda>(k, _). fst k = i) (pages c))"
    using sum_length_filter_compl [of "\<lambda>(k, _). fst k = i" "pages c"] by (simp add: case_prod_unfold)
  also have "\<dots> = card (fst ` set (filter (\<lambda>(k, _). fst k = i) (pages c)))"
    using distinct_card [of "map fst (filter (\<lambda>(k, _). fst k = i) (pages c))"] bt_distinct [OF bt_ok_filter [OF ok]] by simp
  also have "fst ` set (filter (\<lambda>(k, _). fst k = i) (pages c)) = {k. fst k = i \<and> page_at c k \<noteq> None}"
    by (force simp: page_at_def bt_get_Some_set [OF ok])
  finally show "fst (evict_inode c i) = card {k. fst k = i \<and> page_at c k \<noteq> None}" by (simp add: evict_inode_def rest Let_def)
qed

lemma page_at_with_page:
  assumes "cache_ok c" and "bt_get (pages c) k = Some r"
  shows "page_at (with_page c r f) = (page_at c)(k \<mapsto> f (store c r))"
proof
  fix j
  show "page_at (with_page c r f) j = ((page_at c)(k \<mapsto> f (store c r))) j"
    using assms(2) cache_okD(3) [OF assms(1) assms(2), of j]
    by (cases "bt_get (pages c) j") (auto simp: page_at_def)
qed

lemma mark_spec:
  assumes "cache_ok c"
  shows "page_at (snd (mark_dirty c i x)) = (page_at c)((i, x) := map_option page_mark_dirty (page_at c (i, x)))"
    and "page_at (snd (mark_clean c i x)) = (page_at c)((i, x) := map_option page_mark_clean (page_at c (i, x)))"
    and "fst (mark_dirty c i x) \<longleftrightarrow> page_at c (i, x) \<noteq> None" "fst (mark_clean c i x) \<longleftrightarrow> page_at c (i, x) \<noteq> None"
    and "cache_ok (snd (mark_dirty c i x))" "cache_ok (snd (mark_clean c i x))"
  using assms page_at_with_page [OF assms, of "(i, x)"]
  by (auto simp: mark_dirty_def mark_clean_def page_at_def [of c "(i, x)"] fun_upd_idem split: option.splits)

lemma sync_loop_spec:
  "cache_ok c \<Longrightarrow> set ks \<subseteq> {k. page_at c k \<noteq> None} \<Longrightarrow>
   fst (sync_loop c ks n) = n + length ks \<and> cache_ok (snd (sync_loop c ks n))
   \<and> page_at (snd (sync_loop c ks n)) = (\<lambda>k. if k \<in> set ks then map_option page_mark_clean (page_at c k) else page_at c k)"
proof (induction ks arbitrary: c n)
  case (Cons k ks)
  obtain r where r: "bt_get (pages c) k = Some r" using Cons.prems(2) by (auto simp: page_at_def)
  let ?c = "with_page c r page_mark_clean"
  have pa: "page_at ?c = (page_at c)(k := map_option page_mark_clean (page_at c k))"
    using page_at_with_page [OF Cons.prems(1) r] r by (simp add: page_at_def [of c k])
  have sub: "set ks \<subseteq> {k. page_at ?c k \<noteq> None}" using Cons.prems(2) by (auto simp: pa)
  have ok: "cache_ok ?c" using Cons.prems(1) by simp
  have idem: "map_option page_mark_clean (map_option page_mark_clean y) = map_option page_mark_clean y" for y
    by (cases y) (simp_all add: page_mark_clean_def)
  show ?case using Cons.IH [OF ok sub, of "n + 1"] r by (auto simp: pa idem)
qed simp

lemma dirty_list:
  assumes "bt_ok (pages c)"
  shows "set (map fst (filter (\<lambda>(k, r). P k \<and> dirty (store c r)) (pages c))) = {k \<in> dirty_keys c. P k}"
    and "length (filter (\<lambda>(k, r). P k \<and> dirty (store c r)) (pages c)) = card {k \<in> dirty_keys c. P k}"
proof -
  show eq: "set (map fst (filter (\<lambda>(k, r). P k \<and> dirty (store c r)) (pages c))) = {k \<in> dirty_keys c. P k}"
    using bt_get_Some_set [OF assms] by (force simp: dirty_keys_def page_at_def)
  show "length (filter (\<lambda>(k, r). P k \<and> dirty (store c r)) (pages c)) = card {k \<in> dirty_keys c. P k}"
    using distinct_card [OF bt_distinct [OF bt_ok_filter [OF assms]]] unfolding eq [symmetric] by (metis length_map)
qed

lemma sync_inode_spec:
  assumes "cache_ok c"
  shows "cache_ok (snd (sync_inode c i))" "fst (sync_inode c i) = card {k \<in> dirty_keys c. fst k = i}"
    "page_at (snd (sync_inode c i)) = (\<lambda>k. if fst k = i then map_option page_mark_clean (page_at c k) else page_at c k)"
proof -
  let ?ks = "map fst (filter (\<lambda>(k, r). fst k = i \<and> dirty (store c r)) (pages c))"
  have s: "sync_inode c i = sync_loop c ?ks 0" by (simp add: sync_inode_def case_prod_unfold)
  note d = dirty_list [OF cache_okD(1) [OF assms], of "\<lambda>k. fst k = i"]
  have sub: "set ?ks \<subseteq> {k. page_at c k \<noteq> None}" unfolding d(1) by (auto simp: dirty_keys_def)
  show "cache_ok (snd (sync_inode c i))" unfolding s using sync_loop_spec [OF assms sub] by blast
  show "fst (sync_inode c i) = card {k \<in> dirty_keys c. fst k = i}"
    unfolding s using sync_loop_spec [OF assms sub, of 0] d(2) by simp
  have "map_option page_mark_clean (page_at c k) = page_at c k" if "k \<notin> dirty_keys c" for k
    using that by (cases "page_at c k") (auto simp: dirty_keys_def page_mark_clean_def)
  then show "page_at (snd (sync_inode c i)) = (\<lambda>k. if fst k = i then map_option page_mark_clean (page_at c k) else page_at c k)"
    unfolding s using sync_loop_spec [OF assms sub, of 0] by (auto simp: d(1) simp del: set_map set_filter)
qed

interpretation cache: keyed_store cache_new "\<lambda>c k p. snd (cache_insert c (fst k) (snd k) p)"
  "\<lambda>c k. snd (evict c (fst k) (snd k))" page_at cache_ok
proof
  show "cache_ok cache_new" "page_at cache_new k = None" for k by (simp_all add: cache_new_def cache_ok_def page_at_def)
qed (simp_all add: cache_insert_spec evict_spec)

section \<open>Properties\<close>

lemma old_pages_kept:
  "r < fresh c \<Longrightarrow> store (snd (get_or_load c i x ld)) r = store c r"
  "r < fresh c \<Longrightarrow> store (snd (cache_insert c i x p)) r = store c r"
  by (auto simp: get_or_load_def cache_insert_def arc_new_def split: option.splits)


definition demo_cache :: page_cache where
  "demo_cache = snd (mark_dirty (snd (cache_insert cache_new 1 0 (cached_page_new [7]))) 1 0)"

lemma demo_cache_ok: "cache_ok demo_cache" "page_at demo_cache = [(1, 0) \<mapsto> \<lparr>page_data = [7], dirty = True\<rparr>]"
proof -
  let ?c = "snd (cache_insert cache_new 1 0 (cached_page_new [7]))"
  have n: "cache_ok cache_new" "page_at cache_new = Map.empty" using cache.invar_empty cache.get_empty by auto
  have ok: "cache_ok ?c" "page_at ?c = [(1, 0) \<mapsto> cached_page_new [7]]" using cache_insert_spec [OF n(1), of 1 0] n(2) by simp_all
  show "cache_ok demo_cache" "page_at demo_cache = [(1, 0) \<mapsto> \<lparr>page_data = [7], dirty = True\<rparr>]"
    unfolding demo_cache_def using mark_spec(1,5) [OF ok(1), of 1 0] ok(2)
    by (simp_all add: cached_page_new_def page_mark_dirty_def)
qed


text \<open>Accounting of dirty pages. The list and the count of dirty pages are those of the map, in key order without
  repetition; \<^verbatim>\<open>sync_inode\<close> answers how many pages of the inode were dirty and leaves them clean, with their data and every other
  page as they were; marking reports whether the page is cached.\<close>

lemma dirty_accounting:
  assumes "cache_ok c"
  shows "set (get_dirty_pages c) = dirty_keys c \<and> sorted_wrt (<) (get_dirty_pages c) \<and> dirty_pages_count c = card (dirty_keys c)
    \<and> fst (sync_inode c i) = card {k \<in> dirty_keys c. fst k = i}
    \<and> dirty_keys (snd (sync_inode c i)) = {k \<in> dirty_keys c. fst k \<noteq> i}
    \<and> (\<forall>k. map_option page_data (page_at (snd (sync_inode c i)) k) = map_option page_data (page_at c k))
    \<and> dirty_keys (snd (mark_dirty c i x)) = dirty_keys c \<union> (if page_at c (i, x) = None then {} else {(i, x)})"
proof -
  note ok = cache_okD(1) [OF assms] and sy = sync_inode_spec [OF assms, of i]
  have "set (get_dirty_pages c) = dirty_keys c" "dirty_pages_count c = card (dirty_keys c)"
    using dirty_list [OF ok, of "\<lambda>_. True"] by (simp_all add: get_dirty_pages_def dirty_pages_count_def)
  moreover have "sorted_wrt (<) (get_dirty_pages c)"
    unfolding get_dirty_pages_def using bt_ok_filter [OF ok] by (simp add: bt_ok_def)
  moreover have "dirty_keys (snd (sync_inode c i)) = {k \<in> dirty_keys c. fst k \<noteq> i}"
    unfolding dirty_keys_def sy(3) by (auto simp: page_mark_clean_def)
  moreover have "\<forall>k. map_option page_data (page_at (snd (sync_inode c i)) k) = map_option page_data (page_at c k)"
    unfolding sy(3) by (auto simp: page_mark_clean_def option.map_comp comp_def)
  moreover have "dirty_keys (snd (mark_dirty c i x)) = dirty_keys c \<union> (if page_at c (i, x) = None then {} else {(i, x)})"
    unfolding dirty_keys_def mark_spec(1) [OF assms] by (auto simp: page_mark_dirty_def)
  ultimately show ?thesis using sy(2) by blast
qed

end
