(* ===== verification/Posix.thy ===== *)
theory Posix
  imports Syscall CLib
begin

text \<open>
  The system call wrappers of the POSIX layer (\<^verbatim>\<open>userspace/posix-compat/src/lib.rs\<close>) over the kernel of \<^verbatim>\<open>Syscall\<close>: the state of a
  process is its \<^verbatim>\<open>errno\<close> and the kernel it calls, and the bytes it reads are those of its address space. The theory shows which
  results and error codes a program sees, through the wrapper, the dispatcher, the user pointer check and the serial
  port.
\<close>

section \<open>Constants\<close>

definition EPERM :: i32 where "EPERM = 1"
definition ENOENT :: i32 where "ENOENT = 2"
definition ESRCH :: i32 where "ESRCH = 3"
definition EINTR :: i32 where "EINTR = 4"
definition EIO :: i32 where "EIO = 5"
definition ENXIO :: i32 where "ENXIO = 6"
definition E2BIG :: i32 where "E2BIG = 7"
definition ENOEXEC :: i32 where "ENOEXEC = 8"
definition EBADF :: i32 where "EBADF = 9"
definition ENOMEM :: i32 where "ENOMEM = 12"
definition EACCES :: i32 where "EACCES = 13"
definition EFAULT :: i32 where "EFAULT = 14"
definition EBUSY :: i32 where "EBUSY = 16"
definition EEXIST :: i32 where "EEXIST = 17"
definition EXDEV :: i32 where "EXDEV = 18"
definition ENODEV :: i32 where "ENODEV = 19"
definition ENOTDIR :: i32 where "ENOTDIR = 20"
definition EISDIR :: i32 where "EISDIR = 21"
definition EINVAL :: i32 where "EINVAL = 22"
definition ENFILE :: i32 where "ENFILE = 23"
definition EMFILE :: i32 where "EMFILE = 24"
definition ENOSYS :: i32 where "ENOSYS = 38"
definition EOVERFLOW :: i32 where "EOVERFLOW = 75"

definition O_RDONLY :: i32 where "O_RDONLY = 0"
definition O_WRONLY :: i32 where "O_WRONLY = 1"
definition O_RDWR :: i32 where "O_RDWR = 2"
definition O_APPEND :: i32 where "O_APPEND = 0x0400"
definition O_CREAT :: i32 where "O_CREAT = 0x0040"
definition O_EXCL :: i32 where "O_EXCL = 0x0080"
definition O_TRUNC :: i32 where "O_TRUNC = 0x0200"

lemmas errno_defs = EPERM_def ENOENT_def ESRCH_def EINTR_def EIO_def ENXIO_def E2BIG_def ENOEXEC_def EBADF_def ENOMEM_def
  EACCES_def EFAULT_def EBUSY_def EEXIST_def EXDEV_def ENODEV_def ENOTDIR_def EISDIR_def EINVAL_def
  ENFILE_def EMFILE_def ENOSYS_def EOVERFLOW_def

definition strerror :: "i32 \<Rightarrow> string" where
  "strerror errnum =
     (if errnum = EPERM then ''Operation not permitted''
      else if errnum = ENOENT then ''No such file or directory''
      else if errnum = ESRCH then ''No such process''
      else if errnum = EINTR then ''Interrupted system call''
      else if errnum = EIO then ''Input/output error''
      else if errnum = ENXIO then ''No such device or address''
      else if errnum = E2BIG then ''Argument list too long''
      else if errnum = ENOEXEC then ''Exec format error''
      else if errnum = EBADF then ''Bad file descriptor''
      else if errnum = ENOMEM then ''Out of memory''
      else if errnum = EACCES then ''Permission denied''
      else if errnum = EFAULT then ''Bad address''
      else if errnum = EBUSY then ''Device or resource busy''
      else if errnum = EEXIST then ''File exists''
      else if errnum = EXDEV then ''Invalid cross-device link''
      else if errnum = ENODEV then ''No such device''
      else if errnum = ENOTDIR then ''Not a directory''
      else if errnum = EISDIR then ''Is a directory''
      else if errnum = EINVAL then ''Invalid argument''
      else if errnum = ENFILE then ''Too many open files in system''
      else if errnum = EMFILE then ''Too many open files''
      else if errnum = ENOSYS then ''Function not implemented''
      else if errnum = EOVERFLOW then ''Value too large for defined data type''
      else ''Unknown error'') @ [char_of (0 :: nat)]"

section \<open>A process and its calls\<close>

record user_process =
  ERRNO_VAL :: i32
  kern :: kernel

definition user_mem :: "user_process \<Rightarrow> umem" where
  "user_mem P = read_byte (mach (kern P))"

definition set_errno :: "i32 \<Rightarrow> user_process \<Rightarrow> user_process" where
  "set_errno err P = P\<lparr>ERRNO_VAL := err\<rparr>"

definition get_errno :: "user_process \<Rightarrow> i32" where
  "get_errno P = ERRNO_VAL P"

definition clear_errno :: "user_process \<Rightarrow> user_process" where
  "clear_errno P = P\<lparr>ERRNO_VAL := 0\<rparr>"

text \<open>The \<^verbatim>\<open>syscall\<close> instruction of a call that returns.\<close>

definition returning :: "'v env \<Rightarrow> u64 \<Rightarrow> u64 \<Rightarrow> u64 \<Rightarrow> u64 \<Rightarrow> u64 \<Rightarrow> user_process \<Rightarrow> (i64 \<times> user_process) option" where
  "returning E stack_base nr a0 a1 a2 P =
     (case syscall_dispatch E stack_base nr a0 a1 a2 (kern P) of
        Some (Returns v _, K') \<Rightarrow> Some (v, P\<lparr>kern := K'\<rparr>) | _ \<Rightarrow> None)"

definition syscall_write :: "'v env \<Rightarrow> u64 \<Rightarrow> i32 \<Rightarrow> u64 \<Rightarrow> usize \<Rightarrow> user_process \<Rightarrow> (i64 \<times> user_process) option" where
  "syscall_write E stack_base fd buf n P = returning E stack_base 1 (scast fd) buf n P"

definition syscall_read :: "'v env \<Rightarrow> u64 \<Rightarrow> i32 \<Rightarrow> u64 \<Rightarrow> usize \<Rightarrow> user_process \<Rightarrow> (i64 \<times> user_process) option" where
  "syscall_read E stack_base fd buf n P = returning E stack_base 0 (scast fd) buf n P"

definition syscall_open :: "u64 \<Rightarrow> i32 \<Rightarrow> i32 \<Rightarrow> user_process \<Rightarrow> i64 \<times> user_process" where
  "syscall_open path fl mode P = (- 1, set_errno ENOSYS P)"

definition syscall_close :: "i32 \<Rightarrow> user_process \<Rightarrow> i64 \<times> user_process" where
  "syscall_close fd P = (- 1, set_errno ENOSYS P)"

text \<open>The call of \<^verbatim>\<open>exit\<close> does not come back: the result is the kernel that goes on, and whom it switches to.\<close>

definition syscall_exit :: "'v env \<Rightarrow> u64 \<Rightarrow> i32 \<Rightarrow> user_process \<Rightarrow> ((task_ref \<times> task_ref) option \<times> kernel) option" where
  "syscall_exit E stack_base status P =
     (case syscall_dispatch E stack_base 60 (scast status) 0 0 (kern P) of Some (NoReturn sw, K') \<Rightarrow> Some (sw, K') | _ \<Rightarrow> None)"

text \<open>\<^verbatim>\<open>-ret\<close> in the \<^verbatim>\<open>dev\<close> profile.\<close>

definition checked_neg :: "i64 \<Rightarrow> i64 option" where
  "checked_neg x = (if x = 2 ^ 63 then None else Some (- x))"

definition posix_open_mode :: "u64 \<Rightarrow> i32 \<Rightarrow> i32 \<Rightarrow> user_process \<Rightarrow> i32 \<times> user_process" where
  "posix_open_mode path fl mode P =
     (if path = 0 then (- 1, set_errno EFAULT P)
      else let (ret, P') = syscall_open path fl mode P in if sint ret < 0 then (- 1, P') else (ucast ret, P'))"

definition posix_open :: "u64 \<Rightarrow> i32 \<Rightarrow> user_process \<Rightarrow> i32 \<times> user_process" where
  "posix_open path fl P =
     (if path = 0 then (- 1, set_errno EFAULT P)
      else let (ret, P') = syscall_open path fl 0x1A4 P in if sint ret < 0 then (- 1, P') else (ucast ret, P'))"

definition posix_read :: "'v env \<Rightarrow> u64 \<Rightarrow> i32 \<Rightarrow> u64 \<Rightarrow> usize \<Rightarrow> user_process \<Rightarrow> (i64 \<times> user_process) option" where
  "posix_read E stack_base fd buf n P =
     (if sint fd < 0 then Some (- 1, set_errno EBADF P)
      else if buf = 0 then Some (- 1, set_errno EFAULT P)
      else do {
        (ret, P') \<leftarrow> syscall_read E stack_base fd buf n P;
        if sint ret < 0 then do { err \<leftarrow> checked_neg ret; Some (- 1, set_errno (ucast err) P') }
        else Some (ret, P')
      })"

definition posix_write :: "'v env \<Rightarrow> u64 \<Rightarrow> i32 \<Rightarrow> u64 \<Rightarrow> usize \<Rightarrow> user_process \<Rightarrow> (i64 \<times> user_process) option" where
  "posix_write E stack_base fd buf n P =
     (if sint fd < 0 then Some (- 1, set_errno EBADF P)
      else if buf = 0 then Some (- 1, set_errno EFAULT P)
      else do {
        (ret, P') \<leftarrow> syscall_write E stack_base fd buf n P;
        if sint ret < 0 then do { err \<leftarrow> checked_neg ret; Some (- 1, set_errno (ucast err) P') }
        else Some (ret, P')
      })"

definition posix_close :: "i32 \<Rightarrow> user_process \<Rightarrow> i32 \<times> user_process" where
  "posix_close fd P =
     (if sint fd < 0 then (- 1, set_errno EBADF P)
      else let (ret, P') = syscall_close fd P in if sint ret < 0 then (- 1, P') else (ucast ret, P'))"

definition posix_exit :: "'v env \<Rightarrow> u64 \<Rightarrow> i32 \<Rightarrow> user_process \<Rightarrow> ((task_ref \<times> task_ref) option \<times> kernel) option" where
  "posix_exit E stack_base status P = syscall_exit E stack_base status P"

definition posix_exit_group :: "'v env \<Rightarrow> u64 \<Rightarrow> i32 \<Rightarrow> user_process \<Rightarrow> ((task_ref \<times> task_ref) option \<times> kernel) option" where
  "posix_exit_group E stack_base status P = syscall_exit E stack_base status P"

definition posix_abort :: "'v env \<Rightarrow> u64 \<Rightarrow> user_process \<Rightarrow> ((task_ref \<times> task_ref) option \<times> kernel) option" where
  "posix_abort E stack_base P = syscall_exit E stack_base 134 P"

text \<open>\<^verbatim>\<open>newline\<close> is the address of the literal in the program's image.\<close>

definition puts :: "'v env \<Rightarrow> u64 \<Rightarrow> u64 \<Rightarrow> u64 \<Rightarrow> user_process \<Rightarrow> (i32 \<times> user_process) option" where
  "puts E stack_base newline s P =
     (if s = 0 then Some (- 1, P)
      else do {
        len \<leftarrow> strlen_loop (user_mem P) s 0;
        (ret, P1) \<leftarrow> syscall_write E stack_base 1 s len P;
        if 0 \<le> sint ret then do { (_, P2) \<leftarrow> syscall_write E stack_base 1 newline 1 P1; Some (0, P2) }
        else Some (- 1, P1)
      })"

text \<open>The calls that are not supported.\<close>

definition getpid :: i32 where "getpid = 1"
definition getppid :: i32 where "getppid = 0"
definition fork :: "user_process \<Rightarrow> i32 \<times> user_process" where "fork P = (- 1, set_errno ENOSYS P)"
definition execve :: "u64 \<Rightarrow> u64 \<Rightarrow> u64 \<Rightarrow> user_process \<Rightarrow> i32 \<times> user_process" where "execve f av ev P = (- 1, set_errno ENOSYS P)"
definition waitpid :: "i32 \<Rightarrow> u64 \<Rightarrow> i32 \<Rightarrow> user_process \<Rightarrow> i32 \<times> user_process" where "waitpid p st opts P = (- 1, set_errno ENOSYS P)"
definition usleep :: "u32 \<Rightarrow> i32" where "usleep us = 0"
definition sleep :: "u32 \<Rightarrow> u32" where "sleep s = 0"
definition malloc :: "usize \<Rightarrow> u64" where "malloc n = 0"
definition free :: "u64 \<Rightarrow> user_process \<Rightarrow> user_process" where "free p P = P"

section \<open>What a program sees\<close>

lemma returning_write:
  assumes "drains (uart0 (kern P))"
  shows "returning E base 1 fd buf n P =
      (if fd \<noteq> 1 then Some (- 9, P) else if \<not> user_readable (mach (kern P)) buf n then Some (- 14, P) else returning E base 1 1 buf n P)"
    and "user_readable (mach (kern P)) buf n \<Longrightarrow> \<exists>u bs. returning E base 1 1 buf n P = Some (n, P\<lparr>kern := kern P\<lparr>uart0 := u\<rparr>\<rparr>)
      \<and> length bs = unat n \<and> (\<forall>i < unat n. user_mem P (buf + of_nat i) = Some (bs ! i)) \<and> transmitted (uart0 (kern P)) u (write_prefix @ bs)"
proof -
  note r = sys_write_result [OF assms]
  show "returning E base 1 fd buf n P =
      (if fd \<noteq> 1 then Some (- 9, P) else if \<not> user_readable (mach (kern P)) buf n then Some (- 14, P) else returning E base 1 1 buf n P)"
    using r [of fd buf n] by (auto simp: returning_def syscall_dispatch_def split: if_splits)
  show "\<exists>u bs. returning E base 1 1 buf n P = Some (n, P\<lparr>kern := kern P\<lparr>uart0 := u\<rparr>\<rparr>)
      \<and> length bs = unat n \<and> (\<forall>i < unat n. user_mem P (buf + of_nat i) = Some (bs ! i)) \<and> transmitted (uart0 (kern P)) u (write_prefix @ bs)"
    if readable: "user_readable (mach (kern P)) buf n"
  proof -
    obtain u bs where "sys_write 1 buf n (kern P) = Some (Returns n None, kern P\<lparr>uart0 := u\<rparr>)" "length bs = unat n"
      "\<forall>i < unat n. read_byte (mach (kern P)) (buf + of_nat i) = Some (bs ! i)" "transmitted (uart0 (kern P)) u (write_prefix @ bs)"
      using r [of 1 buf n] readable by auto
    then show ?thesis unfolding returning_def syscall_dispatch_def user_mem_def by auto
  qed
qed

lemma readable_size: "user_readable m buf n \<Longrightarrow> 0 \<le> sint n"
proof -
  assume "user_readable m buf n"
  then have "n = 0 \<or> unat buf + unat n \<le> 2 ^ 47" unfolding user_readable_def by blast
  then have "unat n \<le> 2 ^ 47" by auto
  then have "uint n \<le> 2 ^ 47" using word_le_nat_alt [of n "2 ^ 47"] word_le_def [of n "2 ^ 47"] by simp
  then have "signed_take_bit 63 (uint n) = uint n"
    by (intro signed_take_bit_int_eq_self) (rule order_trans [OF _ uint_ge_0], simp_all)
  then show ?thesis unfolding sint_uint using uint_ge_0 [of n] by simp
qed

lemma mapped_readable:
  assumes "s \<noteq> 0" "unat s + length xs \<le> 2 ^ 47" and "\<And>i. i < length xs \<Longrightarrow> user_mem P (s + of_nat i) = Some (xs ! i)" "unat n = length xs"
  shows "user_readable (mach (kern P)) s n"
proof -
  have "translate (space (mach (kern P))) (of_nat b) \<noteq> None" if "unat s \<le> b" "b < unat s + unat n" for b
  proof -
    have "of_nat b = s + of_nat (b - unat s)" using that(1) by (simp add: of_nat_diff)
    moreover have "read_byte (mach (kern P)) (s + of_nat (b - unat s)) \<noteq> None"
      using assms(3) [of "b - unat s"] that assms(4) by (simp add: user_mem_def)
    ultimately show ?thesis by (simp add: read_byte_def)
  qed
  then show ?thesis using assms(1,2,4) by (simp add: user_readable_def)
qed

lemma scast_one: "(scast fd :: u64) = 1 \<longleftrightarrow> fd = (1 :: i32)"
proof
  assume "(scast fd :: u64) = 1"
  then have "(ucast (scast fd :: u64) :: i32) = ucast (1 :: u64)" by simp
  moreover have "(ucast (scast fd :: u64) :: i32) = fd" by (rule bit_word_eqI) (auto simp: bit_simps)
  ultimately show "fd = 1" by simp
qed simp


definition demo_process :: user_process where
  "demo_process = \<lparr>ERRNO_VAL = 0, kern = demo_kernel\<rparr>"

lemma demo_process_drains: "drains (uart0 (kern demo_process))"
  by (auto simp: drains_def demo_kernel_def demo_process_def)


text \<open>System call 0 is the kernel's yield: \<^verbatim>\<open>read\<close> of a good descriptor and buffer always answers 0, end of file, and stores nothing.\<close>

lemma read_never_reads:
  assumes "posix_read E base fd buf n P = Some (v, P')" "\<not> sint fd < 0" "buf \<noteq> 0"
  shows "v = 0 \<and> user_mem P' = user_mem P \<and> ERRNO_VAL P' = ERRNO_VAL P"
proof -
  obtain sw s where y: "schedule_now (sched (kern P)) = Some (sw, s)" "v = 0" "P' = P\<lparr>kern := kern P\<lparr>sched := s\<rparr>\<rparr>"
    using assms by (auto simp: posix_read_def syscall_read_def returning_def syscall_dispatch_def sys_yield_def bind_intros
        split: option.splits)
  then show ?thesis by (simp add: user_mem_def)
qed

text \<open>\<^verbatim>\<open>puts\<close> of a terminated string in the lower half of the address space, on a serial port that is not busy for ever: the
  call returns 0, changes nothing but the port, and has sent the bytes of the string and a newline, each behind the
  prefix the kernel puts before every \<^verbatim>\<open>write\<close>.\<close>

lemma puts_sends_line:
  assumes "drains (uart0 (kern P))" and "cstring (user_mem P) s xs" "s \<noteq> 0" "unat s + length xs \<le> 2 ^ 47"
    and "user_mem P newline = Some 10" "newline \<noteq> 0" "unat newline < 2 ^ 47"
  shows "\<exists>u. puts E base newline s P = Some (0, P\<lparr>kern := kern P\<lparr>uart0 := u\<rparr>\<rparr>)
    \<and> transmitted (uart0 (kern P)) u (write_prefix @ xs @ write_prefix @ [10])"
proof -
  let ?n = "of_nat (length xs) :: usize"
  have n: "unat ?n = length xs" using assms(4) by (intro unat_of_nat_small) simp
  have b: "user_mem P (s + of_nat i) = Some (xs ! i)" if "i < length xs" for i
    using assms(2) that by (auto simp: cstring_def bytes_at_def ptr_add_def nth_append dest: spec [of _ i])
  have "strlen_loop (user_mem P) s 0 = Some ?n" using strlen_loop_spec [OF assms(2), of 0] assms(4) by simp
  moreover have r1: "user_readable (mach (kern P)) s ?n" using assms(3,4) b n by (rule mapped_readable)
  moreover have "user_readable (mach (kern P)) newline 1"
    by (rule mapped_readable [where xs = "[10]"]) (use assms(5-7) in simp_all)
  moreover obtain u where u: "returning E base 1 1 s ?n P = Some (?n, P\<lparr>kern := kern P\<lparr>uart0 := u\<rparr>\<rparr>)"
    "transmitted (uart0 (kern P)) u (write_prefix @ xs)"
  proof -
    obtain u bs where u: "returning E base 1 1 s ?n P = Some (?n, P\<lparr>kern := kern P\<lparr>uart0 := u\<rparr>\<rparr>)" "length bs = length xs"
      "\<forall>i < length xs. user_mem P (s + of_nat i) = Some (bs ! i)" "transmitted (uart0 (kern P)) u (write_prefix @ bs)"
      using returning_write(2) [OF assms(1) r1, of E base] unfolding n by blast
    then have "bs = xs" using b by (intro nth_equalityI) auto
    then show ?thesis using u that by simp
  qed
  moreover let ?P = "P\<lparr>kern := kern P\<lparr>uart0 := u\<rparr>\<rparr>"
  have "drains (uart0 (kern ?P))" using transmitted_drains [OF u(2) assms(1)] by simp
  moreover have "mach (kern ?P) = mach (kern P)" "user_mem ?P = user_mem P" by (simp_all add: user_mem_def)
  ultimately obtain u' bs where u': "returning E base 1 1 newline 1 ?P = Some (1, ?P\<lparr>kern := kern ?P\<lparr>uart0 := u'\<rparr>\<rparr>)"
    "length bs = 1" "user_mem P newline = Some (bs ! 0)" "transmitted (uart0 (kern ?P)) u' (write_prefix @ bs)"
    using returning_write(2) [of ?P newline 1 E base] by auto
  have "bs = [10]" using u'(2,3) assms(5) by (cases bs) auto
  then have "transmitted (uart0 (kern P)) u' (write_prefix @ xs @ write_prefix @ [10])"
    using transmitted_trans [OF u(2), of u' "write_prefix @ [10]"] u'(4) by simp
  moreover have "puts E base newline s P = Some (0, P\<lparr>kern := kern P\<lparr>uart0 := u'\<rparr>\<rparr>)"
    using \<open>strlen_loop (user_mem P) s 0 = Some ?n\<close> u(1) u'(1) readable_size [OF r1] assms(3)
    by (simp add: puts_def syscall_write_def)
  ultimately show ?thesis by blast
qed

definition newline_process :: user_process where
  "newline_process = demo_process\<lparr>kern := demo_kernel\<lparr>mach := demo_machine\<lparr>ram := (\<lambda>p. if p = 0x600000 then 10 else 0)\<rparr>\<rparr>\<rparr>"

lemma demo_translate_next: "translate demo_mapped 0x600001 = Some 0x600001"
  by (simp add: translate_def descend_child get_table_def demo_mapped_def demo_vm_def active_pml4_def
      demo_tables_def pml4_index_def pdpt_index_def pd_index_def pt_index_def contains_flag_bits flags_def
      from_bits_truncate_def all_flags_eq FRAME_MASK_def)

lemma newline_mem: "user_mem newline_process 0x600000 = Some 10" "user_mem newline_process 0x600001 = Some 0"
  using demo_translate demo_translate_next by (simp_all add: user_mem_def newline_process_def read_byte_def demo_machine_def)

end
