(* ===== verification/Spec2Isabelle.thy ===== *)
theory Spec2Isabelle
  imports Start LongMode NetServer UserDuck Mb2Entry Timer SchedLock IoUring Block PageCache Posix
begin

text \<open>
  \<^bold>\<open>PINDOS: the kernel Hammam and its user programs.\<close>

  \<^bold>\<open>The program.\<close> PINDOS is an x86-64 operating system in Rust. A Multiboot2 loader enters \<^verbatim>\<open>hammam/src/boot.rs\<close> in 32-bit mode, which
  builds page tables, switches to long mode and calls \<^verbatim>\<open>_start_multiboot2\<close> of \<^verbatim>\<open>hammam/src/main.rs\<close>. That sets up segments, interrupts and processor protection,
  gives the usable memory to a buddy allocator, starts a heap, builds and mounts an archive with the user programs, loads \<^verbatim>\<open>/init\<close> as process 1,
  starts the timer of the local interrupt controller and switches to the first task. Processes call the kernel with \<^verbatim>\<open>syscall\<close> (write, exec, waitpid, exit,
  yield); all of them share one address space. The service manager (\<^verbatim>\<open>dealduck\<close>, PID 1) starts the network server, which drives a virtio card around
  the smoltcp stack; a C library (\<^verbatim>\<open>posix-compat\<close>) wraps the system calls.

  \<^bold>\<open>Conventions.\<close> Machine integers are words of their width. A Rust operation that can overflow is \<open>checked_add\<close> and its relatives of \<open>Prelude\<close>: the result \<open>None\<close> of
  an operation stands for what does not return to the caller in the source, a panic, a processor fault or a loop without end; theorems that a function
  returns are stated as \<open>\<dots> = Some \<dots>\<close>. Errors the source returns are values: a sum type with an error datatype for each \<^verbatim>\<open>Result\<close>. State is passed
  explicitly, a record per struct or set of statics. Loops over data recurse on it; loops that may run for ever (polling a device, following pointers, spinning
  on a lock) are \<open>partial_function (option)\<close>, and what ends them (a port that is not busy for ever, a timer that reaches zero) is a hypothesis of the theorem. The iterators over
  the ACPI table use fuel of one more than the number of bytes of the entries, which is enough because each entry is at least two bytes long. Device registers are logs of the
  writes, with the answers to reads a function given from outside. Log lines of the kernel are left out of the functions that print them; \<open>kprintln\<close> of \<open>Serial\<close> says what a line is.

  \<^bold>\<open>Theories, by part of the system.\<close>

  Shared: \<open>Prelude\<close> (checked and saturating arithmetic, words as numbers, \<open>for_each\<close>, the collections of rules), \<open>Mem\<close> (bytes and little-endian words in memory),
  \<open>Btree\<close> (\<^verbatim>\<open>BTreeMap\<close> as a sorted association list, locale \<open>keyed_store\<close>).

  Memory: \<open>Physical\<close> (\<^verbatim>\<open>mm/physical.rs\<close>: buddy allocator over free lists kept inside the free pages; no page is handed out twice, allocation and release change the set of
  free pages exactly; locale \<open>page_allocator\<close>), \<open>Paging\<close> (\<^verbatim>\<open>mm/paging.rs\<close>: four-level tables with 2 MiB pages that are split on demand; mapping refines the update of one page of
  an abstract map), \<open>UserPtr\<close> (\<^verbatim>\<open>mm/userptr.rs\<close>), \<open>Alloc\<close> (user heaps, locale \<open>byte_allocator\<close>), \<open>Heap\<close> (\<^verbatim>\<open>mm/heap.rs\<close>: linked list of holes), \<open>PageCache\<close> (\<^verbatim>\<open>mm/page_cache.rs\<close>,
  refines a finite map), \<open>Multiboot\<close> (memory map of the boot loader into the allocator).

  Files and devices: \<open>Vfs\<close> (\<^verbatim>\<open>vfs/mod.rs\<close>: path normalisation and longest mount, locale \<open>tree_fs\<close> for file systems), \<open>Initramfs\<close> (\<^verbatim>\<open>vfs/initramfs.rs\<close>, \<^verbatim>\<open>userspace_blob.rs\<close>: parsing
  the archive inverts writing it), \<open>IoUring\<close> (\<^verbatim>\<open>io/uring.rs\<close>, locale \<open>bounded_queue\<close>), \<open>Block\<close> and \<open>Cap\<close> (device registry and capability tables, locale \<open>handle_table\<close>), \<open>Serial\<close>
  (\<^verbatim>\<open>drivers/serial.rs\<close>: spin lock, 16550 port, log).

  Processor: \<open>Boot\<close> and \<open>LongMode\<close> (\<^verbatim>\<open>boot.rs\<close>, \<^verbatim>\<open>entry.rs\<close>: header, page tables, and the instructions up to the kernel), \<open>Gdt\<close>, \<open>Idt\<close>, \<open>Apic\<close>, \<open>Timer\<close>, \<open>Smp\<close>, \<open>Madt\<close>, \<open>Security\<close>
  (\<^verbatim>\<open>arch/x86_64\<close>, \<^verbatim>\<open>interrupts.rs\<close>, \<^verbatim>\<open>smp\<close>, \<^verbatim>\<open>acpi\<close>, \<^verbatim>\<open>security\<close>), \<open>Mb2Entry\<close> (an earlier entry point that is not compiled).

  Tasks: \<open>Sched\<close> (\<^verbatim>\<open>sched/mod.rs\<close>, \<^verbatim>\<open>context.rs\<close>: run queue ordered by virtual runtime, context switch; invariant over all reachable schedulers), \<open>SchedLock\<close> (\<^verbatim>\<open>sched/task.rs\<close>: mutex),
  \<open>Elf\<close>, \<open>Process\<close>, \<open>Syscall\<close> (\<^verbatim>\<open>loader/elf.rs\<close>, \<^verbatim>\<open>process\<close>, \<^verbatim>\<open>syscall.rs\<close>: every call on every branch, and the step relation \<open>kernel_step\<close> of the running kernel).

  Composition: \<open>Start\<close> is the whole of \<^verbatim>\<open>_start_multiboot2\<close> over the parts above: from what the boot code hands over to the first process about to run.

  User programs: \<open>CLib\<close> and \<open>Posix\<close> (\<^verbatim>\<open>posix-compat\<close>: string functions, locale \<open>mover\<close> for the two \<^verbatim>\<open>memmove\<close>; calls and \<^verbatim>\<open>errno\<close>), \<open>Dealduck\<close> and \<open>UserDuck\<close> (the two copies of the
  service manager), \<open>Println\<close> (their output down to the wire, \<^verbatim>\<open>hello\<close>), \<open>Virtio\<close> and \<open>NetServer\<close> (driver and entry point of the network server).

  \<^bold>\<open>Interfaces.\<close> Each locale states what a client relies on, and is interpreted on the code's own operations: \<open>page_allocator\<close> by the buddy allocator, \<open>byte_allocator\<close> by the
  kernel heap and both user heaps, \<open>keyed_store\<close> by the ordered maps and the page cache, \<open>handle_table\<close> by capabilities and devices, \<open>bounded_queue\<close> by the rings, \<open>tree_fs\<close> by the
  archive, \<open>mover\<close> by both copies of \<^verbatim>\<open>memmove\<close>.

  \<^bold>\<open>What the theorems show.\<close> For memory, files, rings and tables that the code keeps its promise, with the exact set of results. For several parts they show what the code does
  against its comments: a live task is never preempted, an ended child never reaped and a service never restarted, no packet ever received, \<^verbatim>\<open>println!\<close> falls silent when the heap is used up,
  user segments have kernel privilege, supervisor protection stops the kernel that enables it, the early interrupt table and the one of \<open>Mb2Entry\<close> lie where the processor does not look. \<open>Start\<close> and \<open>LongMode\<close>
  describe a processor without that protection.

  \<^bold>\<open>Outside.\<close> Parameters of the model, with hypotheses where needed: the ELF parser library, the smoltcp stack, what the compiler does with scratch registers, device answers, the addresses
  the linker chooses. Interleaving is modelled for the lock; elsewhere the kernel runs one call at a time, as it does with interrupts masked in system calls.

  \<^bold>\<open>Not modelled.\<close> Panic handlers, which print and stop; \<^verbatim>\<open>nvme-driver\<close>, whose functions are empty; module declarations, the PVH note and the framebuffer record, which have no behaviour; the test
  modules; memory ordering of the fences, since no two processors run.
\<close>

section \<open>From the boot code to the kernel\<close>

text \<open>The address space the processor is in after the mode switch, with an allocator that has not been started: it is the one \<open>Start\<close> asks for in \<open>handed_over\<close>.\<close>

definition space_at_entry :: "cpu32 \<Rightarrow> buddy_allocator \<Rightarrow> vm" where
  "space_at_entry s a = \<lparr>tables = (\<lambda>t i. entry_at (table_words s) (unat t) i), cr3 = ucast (CR3 s), allocator = a\<rparr>"

lemma boot_leaves_boot_space:
  assumes "boot_start cpuid h c = Start64 s"
  shows "space_at_entry s a = boot_vm (table_words c) a"
proof -
  have "table_words s = build_page_tables (table_words c)" "CR3 s = of_nat BOOT_PT_ADDR"
    using assms by (auto simp: boot_start_def Let_def enter_start64_def load_boot_gdt_def enable_long_mode_def load_early_idt_def lidt32_def mask_pics_def
        save_handoff_def split: if_splits)
  then show ?thesis by (simp add: space_at_entry_def boot_vm_def layout_defs)
qed

text \<open>So the kernel that the boot code enters translates exactly the first gigabyte, to itself.\<close>

lemma kernel_entered_on_identity_map:
  assumes "boot_start cpuid h c = Start64 s" and "regions_disjoint kstart kend {} rs" and "aligned kstart 0" "aligned kend 0"
    and "unat kstart \<le> 0x21b000" "0x21e000 \<le> unat kend"
    and "\<forall>r \<in> set rs. mr_kind r = Usable \<longrightarrow> unat (mr_start r) + 4096 < 2 ^ 64" "\<forall>r \<in> set rs. unat (mr_end r) \<le> 2 ^ 52"
  shows "\<exists>a. buddy_init kstart kend (buddy_new memory) rs = Some a \<and> vm_inv (space_at_entry s a)
    \<and> (\<forall>x. unat x < 2 ^ 48 \<longrightarrow> page_view (space_at_entry s a) x = (if unat x < 2 ^ 30 then Some (x, 7) else None))"
  using boot_space [of kstart kend rs memory "table_words c"] assms(2-) boot_leaves_boot_space [OF assms(1)] by auto

end
